(* ===== verification/Forge_Prelude.thy ===== *)
theory Forge_Prelude
  imports Main "HOL-Library.Word" "HOL-Library.Signed_Division"
begin

text \<open>
  Shared vocabulary of the development: Go's 64-bit integers with their wrap-around, instants
  and durations in nanoseconds, bytes and the big-endian prefix of \<^verbatim>\<open>encoding/binary\<close>, decimal
  printing, and the list lemmas several components use.  The two collections below carry the
  unfolding facts of the components: \<open>go_defs\<close> the Go arithmetic, \<open>forge_defs\<close> the definitions
  of the framework's small accessors and constants.
\<close>

named_theorems go_defs
named_theorems forge_defs

subsection \<open>Go integers\<close>

text \<open>
  A Go \<^verbatim>\<open>int\<close> is a 64-bit two's complement integer here (the platforms the repository targets).
  It is an \<^typ>\<open>int\<close> inside the interval below, and every operation of the source that can leave
  the interval is followed by \<open>wrap64\<close>.
\<close>

definition MaxInt :: int where [go_defs]: "MaxInt = 9223372036854775807"
definition MinInt :: int where [go_defs]: "MinInt = -9223372036854775808"

definition in_int64 :: "int \<Rightarrow> bool" where [go_defs]: "in_int64 x \<longleftrightarrow> MinInt \<le> x \<and> x \<le> MaxInt"

definition wrap64 :: "int \<Rightarrow> int" where
  [go_defs]: "wrap64 x = (x + 9223372036854775808) mod 18446744073709551616 - 9223372036854775808"

definition sat64 :: "int \<Rightarrow> int" where
  [go_defs]: "sat64 x = (if x < MinInt then MinInt else if MaxInt < x then MaxInt else x)"

lemma wrap64_id [simp]: "in_int64 x \<Longrightarrow> wrap64 x = x"
  by (simp add: go_defs)

lemma wrap64_range [simp]: "in_int64 (wrap64 x)"
proof -
  have "0 \<le> (x + 9223372036854775808) mod 18446744073709551616"
    and "(x + 9223372036854775808) mod 18446744073709551616 < 18446744073709551616"
    by simp_all
  then show ?thesis by (simp add: go_defs)
qed

lemma sat64_range [simp]: "in_int64 (sat64 x)"
  by (simp add: go_defs)

lemma sat64_id [simp]: "in_int64 x \<Longrightarrow> sat64 x = x"
  by (simp add: go_defs)

lemma sat64_mono: "x \<le> y \<Longrightarrow> sat64 x \<le> sat64 y"
  by (simp add: go_defs)

subsection \<open>Time\<close>

text \<open>
  An instant of the monotonic clock and a \<^verbatim>\<open>time.Duration\<close> both count nanoseconds.
  \<^verbatim>\<open>Time.Sub\<close> saturates at the ends of the duration range.
\<close>

type_synonym time = int
type_synonym duration = int

definition Millisecond :: duration where [go_defs]: "Millisecond = 1000000"
definition Second :: duration where [go_defs]: "Second = 1000000000"
definition Minute :: duration where [go_defs]: "Minute = 60000000000"

definition time_Sub :: "time \<Rightarrow> time \<Rightarrow> duration" where
  "time_Sub t u = sat64 (t - u)"

lemma time_Sub_nonneg [simp]: "u \<le> t \<Longrightarrow> 0 \<le> time_Sub t u"
  by (simp add: time_Sub_def go_defs)

lemma time_Sub_mono: "t \<le> t' \<Longrightarrow> time_Sub t u \<le> time_Sub t' u"
  by (simp add: time_Sub_def sat64_mono)

lemma time_Sub_range [simp]: "in_int64 (time_Sub t u)"
  by (simp add: time_Sub_def)

lemma time_Sub_le: "u \<le> t \<Longrightarrow> time_Sub t u \<le> t - u"
  by (simp add: time_Sub_def go_defs)

lemma time_Sub_self [simp]: "time_Sub t t = 0"
  by (simp add: time_Sub_def go_defs)

subsection \<open>Bytes and the big-endian length prefix\<close>

type_synonym byte = "8 word"

unbundle bit_operations_syntax

text \<open>\<^verbatim>\<open>binary.BigEndian.PutUint32\<close> and \<^verbatim>\<open>binary.BigEndian.Uint32\<close> on a four-byte array.\<close>

definition be32_put :: "32 word \<Rightarrow> byte list" where
  "be32_put w = [ucast (drop_bit 24 w), ucast (drop_bit 16 w), ucast (drop_bit 8 w), ucast w]"

fun be32_get :: "byte list \<Rightarrow> 32 word" where
  "be32_get [b0, b1, b2, b3] =
     ucast b3 OR push_bit 8 (ucast b2) OR push_bit 16 (ucast b1) OR push_bit 24 (ucast b0)"
| "be32_get _ = 0"

lemma length_be32_put [simp]: "length (be32_put w) = 4"
  by (simp add: be32_put_def)

lemma be32_get_put [simp]: "be32_get (be32_put w) = w"
proof (rule bit_word_eqI)
  fix n :: nat
  assume "n < LENGTH(32)"
  then show "bit (be32_get (be32_put w)) n = bit w n"
    by (cases "n < 16"; cases "n < 24"; auto simp: be32_put_def bit_simps)
qed

subsection \<open>Peers\<close>

text \<open>A \<^verbatim>\<open>peer.ID\<close> is the byte string of its multihash.\<close>

type_synonym peer_id = string

subsection \<open>Decimal printing\<close>

text \<open>The \<^verbatim>\<open>%d\<close> verb of \<^verbatim>\<open>fmt\<close>.\<close>

definition digit_char :: "nat \<Rightarrow> char" where
  "digit_char d = char_of (48 + d)"

fun dec_nat :: "nat \<Rightarrow> string" where
  "dec_nat n = (if n < 10 then [digit_char n] else dec_nat (n div 10) @ [digit_char (n mod 10)])"

declare dec_nat.simps [simp del]

definition dec_int :: "int \<Rightarrow> string" where
  "dec_int i = (if i < 0 then CHR ''-'' # dec_nat (nat (- i)) else dec_nat (nat i))"

subsection \<open>Lists\<close>

lemma take_eq_append_drop: "xs = take n xs @ drop n xs"
  by simp

lemma nth_list_update_if:
  "i < length xs \<Longrightarrow> (xs[j := y]) ! i = (if i = j then y else xs ! i)"
  by (simp add: nth_list_update)

lemma filter_filter_le:
  fixes c d :: "'a::linorder"
  assumes "c \<le> d"
  shows "filter (\<lambda>t. d < t) (filter (\<lambda>t. c < t) xs) = filter (\<lambda>t. d < t) xs"
  using assms by (auto intro: filter_cong)

lemma length_filter_mono:
  "(\<And>x. x \<in> set xs \<Longrightarrow> P x \<Longrightarrow> Q x) \<Longrightarrow> length (filter P xs) \<le> length (filter Q xs)"
proof (induction xs)
  case (Cons x xs)
  have "length (filter P xs) \<le> length (filter Q xs)"
    by (rule Cons.IH) (simp add: Cons.prems)
  with Cons.prems [of x] show ?case by auto
qed simp

end
