(* ===== verification/Forge_Errors.thy ===== *)
theory Forge_Errors
  imports Forge_Prelude
begin

text \<open>
  The error values of the framework (\<^verbatim>\<open>src/errors.go\<close>, \<^verbatim>\<open>src/middleware/recovery.go\<close>,
  \<^verbatim>\<open>src/middleware/router.go\<close>) and the parts of Go's \<^verbatim>\<open>errors\<close> package they rely on.
  A sentinel is a constructor of its own, because \<^verbatim>\<open>errors.New\<close> values compare by identity.
  \<open>ErrorString\<close> is an \<^verbatim>\<open>fmt.Errorf\<close> without a \<^verbatim>\<open>%w\<close> verb, \<open>WrapError m e\<close> is
  \<^verbatim>\<open>fmt.Errorf("m: %w", e)\<close>.
\<close>

datatype go_error =
    ErrPanic | ErrRateLimited | ErrServerNotStarted
  | RateLimitedError duration
  | MiddlewareErrPanic | ErrUnknownOperation | ErrMissingOperation
  | EOF | ErrUnexpectedEOF | ErrDeadlineExceeded | ErrClosedPipe | ErrNotExist
  | ExternalError string
  | ErrorString string
  | WrapError string go_error

text \<open>\<^verbatim>\<open>Unwrap\<close>: one step down the chain of wrapped errors.\<close>

fun unwrap_error :: "go_error \<Rightarrow> go_error option" where
  "unwrap_error (RateLimitedError d) = Some ErrRateLimited"
| "unwrap_error (WrapError m e) = Some e"
| "unwrap_error _ = None"

subsection \<open>Texts\<close>

text \<open>
  \<^verbatim>\<open>time.Duration.String\<close>: \<open>frac_text v prec\<close> is the fraction of \<open>v / 10 ^ prec\<close>, without trailing zeros and
  without a point when it is zero.  The micro sign is two bytes.
\<close>

fun low_digits :: "nat \<Rightarrow> nat \<Rightarrow> string" where
  "low_digits v 0 = []"
| "low_digits v (Suc prec) = low_digits (v div 10) prec @ [digit_char (v mod 10)]"

definition frac_text :: "nat \<Rightarrow> nat \<Rightarrow> string" where
  "frac_text v prec =
     (let ds = rev (dropWhile (\<lambda>c. c = CHR ''0'') (rev (low_digits v prec)))
      in if ds = [] then [] else CHR ''.'' # ds)"

definition decimal_text :: "nat \<Rightarrow> nat \<Rightarrow> string" where
  "decimal_text v prec = dec_nat (v div 10 ^ prec) @ frac_text v prec"

definition Duration_String :: "duration \<Rightarrow> string" where
  "Duration_String d =
     (let u = nat \<bar>d\<bar>; secs = u div 10 ^ 9;
          body =
            (if u = 0 then ''0s''
             else if u < 10 ^ 3 then dec_nat u @ ''ns''
             else if u < 10 ^ 6 then decimal_text u 3 @ [CHR 0xC2, CHR 0xB5, CHR ''s'']
             else if u < 10 ^ 9 then decimal_text u 6 @ ''ms''
             else
               let tail = dec_nat (secs mod 60) @ frac_text u 9 @ ''s''; mins = secs div 60 in
               if mins = 0 then tail
               else
                 let tail = dec_nat (mins mod 60) @ ''m'' @ tail; hours = mins div 60 in
                 if hours = 0 then tail else dec_nat hours @ ''h'' @ tail)
      in if d < 0 then CHR ''-'' # body else body)"

text \<open>The method \<^verbatim>\<open>Error\<close>.\<close>

fun Error :: "go_error \<Rightarrow> string" where
  "Error ErrPanic = ''handler panicked''"
| "Error ErrRateLimited = ''rate limit exceeded''"
| "Error ErrServerNotStarted = ''server not started''"
| "Error (RateLimitedError retryAfter) =
     (if retryAfter \<le> 0 then ''rate limit exceeded''
      else ''rate limit exceeded'' @ '', retry after '' @ Duration_String retryAfter)"
| "Error MiddlewareErrPanic = ''handler panicked''"
| "Error ErrUnknownOperation = ''unknown operation''"
| "Error ErrMissingOperation = ''missing operation field''"
| "Error EOF = ''EOF''"
| "Error ErrUnexpectedEOF = ''unexpected EOF''"
| "Error ErrDeadlineExceeded = ''i/o timeout''"
| "Error ErrClosedPipe = ''io: read/write on closed pipe''"
| "Error ErrNotExist = ''file does not exist''"
| "Error (ExternalError m) = m"
| "Error (ErrorString m) = m"
| "Error (WrapError m e) = m @ '': '' @ Error e"

lemma low_digits_numeral [simp]:
  "low_digits v (numeral k) = low_digits (v div 10) (pred_numeral k) @ [digit_char (v mod 10)]"
  unfolding numeral_eq_Suc [of k] by (rule low_digits.simps)

lemma Duration_String_examples:
  "Duration_String 1500000000 = ''1.5s''" "Duration_String 0 = ''0s''" "Duration_String 90061000000000 = ''25h1m1s''"
  "Duration_String 21000000 = ''21ms''" "Duration_String (-7) = ''-7ns''"
  by (simp_all add: Duration_String_def decimal_text_def frac_text_def dec_nat.simps digit_char_def char_of_def bit_0)

subsection \<open>Chains\<close>

text \<open>\<^verbatim>\<open>errors.Is\<close>: the target is met somewhere on the chain.\<close>

fun errors_Is :: "go_error \<Rightarrow> go_error \<Rightarrow> bool" where
  "errors_Is (WrapError m e) target \<longleftrightarrow> WrapError m e = target \<or> errors_Is e target"
| "errors_Is (RateLimitedError d) target \<longleftrightarrow> RateLimitedError d = target \<or> ErrRateLimited = target"
| "errors_Is e target \<longleftrightarrow> e = target"

text \<open>\<^verbatim>\<open>errors.As\<close> for \<^verbatim>\<open>*RateLimitedError\<close>: the first value of that type on the chain.\<close>

fun errors_As_RateLimited :: "go_error \<Rightarrow> duration option" where
  "errors_As_RateLimited (RateLimitedError d) = Some d"
| "errors_As_RateLimited (WrapError m e) = errors_As_RateLimited e"
| "errors_As_RateLimited _ = None"

lemma errors_Is_unwrap:
  "errors_Is e t \<longleftrightarrow> e = t \<or> (case unwrap_error e of None \<Rightarrow> False | Some e' \<Rightarrow> errors_Is e' t)"
  by (cases e) auto

lemma errors_Is_refl [simp]: "errors_Is e e"
  by (cases e) auto

lemma errors_As_RateLimited_Is: "errors_As_RateLimited e = Some d \<Longrightarrow> errors_Is e ErrRateLimited"
  by (induction e) auto

end
