(* ===== verification/Codec_Pool.thy ===== *)
theory Codec_Pool
  imports Forge_Errors "HOL-Library.Multiset"
begin

text \<open>
  The tiered buffer pool, \<^verbatim>\<open>src/codec/pool.go\<close>.  Buffers are slices into an explicit store of
  byte arrays, because what makes the pool correct is who may write to which array.  A
  \<^verbatim>\<open>sync.Pool\<close> is a list of slices; which element \<^verbatim>\<open>Get\<close> takes, or whether it ignores the pool
  and calls \<^verbatim>\<open>New\<close>, is the runtime's choice and an argument of the operation.  The step relation
  at the end interleaves the operations of any number of goroutines with the garbage collector
  emptying the pools; its invariant is exclusive ownership of every array.
\<close>

subsection \<open>Slices and the store\<close>

record slice =
  arr :: nat
  slen :: nat
  scap :: nat

definition make_slice :: "nat \<Rightarrow> byte list list \<Rightarrow> slice \<times> byte list list" where
  "make_slice n m = (\<lparr>arr = length m, slen = n, scap = n\<rparr>, m @ [replicate n 0])"

text \<open>\<open>s[:n]\<close>; \<^const>\<open>None\<close> is the run-time panic for a bound outside the capacity.\<close>

definition reslice :: "slice \<Rightarrow> int \<Rightarrow> slice option" where
  "reslice s n = (if 0 \<le> n \<and> n \<le> int (scap s) then Some (s\<lparr>slen := nat n\<rparr>) else None)"

definition slice_bytes :: "byte list list \<Rightarrow> slice \<Rightarrow> byte list" where
  "slice_bytes m s = take (slen s) (m ! arr s)"

text \<open>Writing \<open>bs\<close> into the array of \<open>s\<close> from offset \<open>off\<close>.\<close>

definition slice_write :: "slice \<Rightarrow> nat \<Rightarrow> byte list \<Rightarrow> byte list list \<Rightarrow> byte list list" where
  "slice_write s off bs m =
     m[arr s := take off (m ! arr s) @ bs @ drop (off + length bs) (m ! arr s)]"

subsection \<open>The pool and its buffers\<close>

definition tierSmall :: int where [forge_defs]: "tierSmall = 4 * 1024"
definition tierMedium :: int where [forge_defs]: "tierMedium = 64 * 1024"
definition tierLarge :: int where [forge_defs]: "tierLarge = 1 * 1024 * 1024"

record BufferPool =
  bp_small :: "slice list"
  bp_medium :: "slice list"
  bp_large :: "slice list"
  Hits :: int
  Misses :: int

record PoolBuffer =
  pb_data :: slice
  pb_tier :: int
  pb_released :: bool

text \<open>
  The state: the byte arrays, the pool, and every \<^verbatim>\<open>PoolBuffer\<close> allocated so far (a
  \<^verbatim>\<open>*PoolBuffer\<close> is an index into that list).
\<close>

record pool_state =
  ps_mem :: "byte list list"
  ps_pool :: BufferPool
  ps_bufs :: "PoolBuffer list"

definition NewBufferPool :: BufferPool where
  "NewBufferPool = \<lparr>bp_small = [], bp_medium = [], bp_large = [], Hits = 0, Misses = 0\<rparr>"

definition init_pool_state :: pool_state where
  "init_pool_state = \<lparr>ps_mem = [], ps_pool = NewBufferPool, ps_bufs = []\<rparr>"

text \<open>\<^verbatim>\<open>sync.Pool.Get\<close>: an element of the runtime's choosing, or a new slice of \<open>n\<close> bytes.\<close>

definition sync_Pool_Get ::
  "nat option \<Rightarrow> nat \<Rightarrow> slice list \<Rightarrow> byte list list \<Rightarrow> slice \<times> slice list \<times> byte list list" where
  "sync_Pool_Get ch n xs m =
     (case ch of
        Some i \<Rightarrow>
          if i < length xs then (xs ! i, take i xs @ drop (Suc i) xs, m)
          else (let (s, m') = make_slice n m in (s, xs, m'))
      | None \<Rightarrow> let (s, m') = make_slice n m in (s, xs, m'))"

definition new_buffer :: "slice \<Rightarrow> int \<Rightarrow> pool_state \<Rightarrow> nat \<times> pool_state" where
  "new_buffer s t st =
     (length (ps_bufs st),
      st\<lparr>ps_bufs := ps_bufs st @ [\<lparr>pb_data = s, pb_tier = t, pb_released = False\<rparr>]\<rparr>)"

definition add_hit :: "pool_state \<Rightarrow> pool_state" where
  "add_hit st = st\<lparr>ps_pool := (ps_pool st)\<lparr>Hits := wrap64 (Hits (ps_pool st) + 1)\<rparr>\<rparr>"

definition add_miss :: "pool_state \<Rightarrow> pool_state" where
  "add_miss st = st\<lparr>ps_pool := (ps_pool st)\<lparr>Misses := wrap64 (Misses (ps_pool st) + 1)\<rparr>\<rparr>"

text \<open>The end of one case of \<^verbatim>\<open>Get\<close>'s switch: reslice, count the hit, build the buffer.\<close>

definition finish_get :: "slice \<Rightarrow> int \<Rightarrow> int \<Rightarrow> pool_state \<Rightarrow> nat option \<times> pool_state" where
  "finish_get s sz t st =
     (case reslice s sz of
        None \<Rightarrow> (None, st)
      | Some d \<Rightarrow> apfst Some (new_buffer d t (add_hit st)))"

text \<open>
  \<^verbatim>\<open>BufferPool.Get\<close>.  The result is the new buffer, or \<^const>\<open>None\<close> for the panic a negative size
  causes; \<open>ch\<close> is the choice \<^verbatim>\<open>sync.Pool\<close> makes.
\<close>

definition Get :: "nat option \<Rightarrow> int \<Rightarrow> pool_state \<Rightarrow> nat option \<times> pool_state" where
  "Get ch sz st =
     (let p = ps_pool st in
      if sz \<le> tierSmall then
        (let (s, xs, m) = sync_Pool_Get ch (nat tierSmall) (bp_small p) (ps_mem st)
         in finish_get s sz 0 (st\<lparr>ps_mem := m, ps_pool := p\<lparr>bp_small := xs\<rparr>\<rparr>))
      else if sz \<le> tierMedium then
        (let (s, xs, m) = sync_Pool_Get ch (nat tierMedium) (bp_medium p) (ps_mem st)
         in finish_get s sz 1 (st\<lparr>ps_mem := m, ps_pool := p\<lparr>bp_medium := xs\<rparr>\<rparr>))
      else if sz \<le> tierLarge then
        (let (s, xs, m) = sync_Pool_Get ch (nat tierLarge) (bp_large p) (ps_mem st)
         in finish_get s sz 2 (st\<lparr>ps_mem := m, ps_pool := p\<lparr>bp_large := xs\<rparr>\<rparr>))
      else
        (let (s, m) = make_slice (nat sz) (ps_mem st)
         in apfst Some (new_buffer s (-1) (add_miss (st\<lparr>ps_mem := m\<rparr>)))))"

definition Bytes :: "nat \<Rightarrow> pool_state \<Rightarrow> byte list" where
  "Bytes b st = slice_bytes (ps_mem st) (pb_data (ps_bufs st ! b))"

definition Len :: "nat \<Rightarrow> pool_state \<Rightarrow> nat" where
  "Len b st = slen (pb_data (ps_bufs st ! b))"

text \<open>\<^verbatim>\<open>PoolBuffer.Release\<close>: the compare-and-swap on \<^verbatim>\<open>released\<close>, then the put of \<open>data[:cap(data)]\<close>.\<close>

definition full_slice :: "slice \<Rightarrow> slice" where
  "full_slice s = s\<lparr>slen := scap s\<rparr>"

definition Release :: "nat \<Rightarrow> pool_state \<Rightarrow> pool_state" where
  "Release b st =
     (let pb = ps_bufs st ! b; p = ps_pool st in
      if pb_released pb then st
      else
        (let st' = st\<lparr>ps_bufs := (ps_bufs st)[b := pb\<lparr>pb_released := True\<rparr>]\<rparr>;
             s = full_slice (pb_data pb)
         in if pb_tier pb = 0 then st'\<lparr>ps_pool := p\<lparr>bp_small := s # bp_small p\<rparr>\<rparr>
            else if pb_tier pb = 1 then st'\<lparr>ps_pool := p\<lparr>bp_medium := s # bp_medium p\<rparr>\<rparr>
            else if pb_tier pb = 2 then st'\<lparr>ps_pool := p\<lparr>bp_large := s # bp_large p\<rparr>\<rparr>
            else st'))"

text \<open>
  The unmanaged buffer \<^verbatim>\<open>&PoolBuffer{data: data, pool: pool, tier: -1}\<close> that
  \<^verbatim>\<open>ReadFramePooledWithTimeout\<close> builds around bytes it allocated itself.
\<close>

definition unmanaged_buffer :: "byte list \<Rightarrow> pool_state \<Rightarrow> nat \<times> pool_state" where
  "unmanaged_buffer d st =
     new_buffer \<lparr>arr = length (ps_mem st), slen = length d, scap = length d\<rparr> (-1)
       (st\<lparr>ps_mem := ps_mem st @ [d]\<rparr>)"

text \<open>The holder of a buffer writing into the bytes it was given.\<close>

definition buf_write :: "nat \<Rightarrow> nat \<Rightarrow> byte list \<Rightarrow> pool_state \<Rightarrow> pool_state" where
  "buf_write b off bs st = st\<lparr>ps_mem := slice_write (pb_data (ps_bufs st ! b)) off bs (ps_mem st)\<rparr>"


subsection \<open>Exclusive ownership\<close>

text \<open>
  \<open>pooled\<close> collects the slices lying in the pools, each with its tier, and \<open>live\<close> the buffers
  not yet released.  The invariant asks that no array occurs twice among them, and that every
  slice is as large as its tier says.
\<close>

definition tier_cap :: "int \<Rightarrow> nat" where
  "tier_cap t = (if t = 0 then nat tierSmall else if t = 1 then nat tierMedium else nat tierLarge)"

definition pooled :: "BufferPool \<Rightarrow> (int \<times> slice) multiset" where
  "pooled p = image_mset (Pair 0) (mset (bp_small p)) + image_mset (Pair 1) (mset (bp_medium p))
     + image_mset (Pair 2) (mset (bp_large p))"

definition live :: "pool_state \<Rightarrow> PoolBuffer multiset" where
  "live st = filter_mset (\<lambda>b. \<not> pb_released b) (mset (ps_bufs st))"

definition owners :: "(int \<times> slice) multiset \<Rightarrow> PoolBuffer multiset \<Rightarrow> nat multiset" where
  "owners P L = image_mset (\<lambda>(t, s). arr s) P + image_mset (\<lambda>b. arr (pb_data b)) L"

definition slice_ok :: "byte list list \<Rightarrow> slice \<Rightarrow> bool" where
  "slice_ok m s \<longleftrightarrow> arr s < length m \<and> length (m ! arr s) = scap s \<and> slen s \<le> scap s"

definition tier_ok :: "byte list list \<Rightarrow> int \<times> slice \<Rightarrow> bool" where
  "tier_ok m = (\<lambda>(t, s). slice_ok m s \<and> slen s = scap s \<and> t \<in> {0, 1, 2} \<and> scap s = tier_cap t)"

definition buf_ok :: "byte list list \<Rightarrow> PoolBuffer \<Rightarrow> bool" where
  "buf_ok m b \<longleftrightarrow> slice_ok m (pb_data b) \<and>
     (pb_tier b = -1 \<or> pb_tier b \<in> {0, 1, 2} \<and> scap (pb_data b) = tier_cap (pb_tier b))"

definition own_inv ::
  "byte list list \<Rightarrow> (int \<times> slice) multiset \<Rightarrow> PoolBuffer multiset \<Rightarrow> bool" where
  "own_inv m P L \<longleftrightarrow> (\<forall>a. count (owners P L) a \<le> 1) \<and>
     (\<forall>ts \<in># P. tier_ok m ts) \<and> (\<forall>b \<in># L. buf_ok m b)"

definition pool_inv :: "pool_state \<Rightarrow> bool" where
  "pool_inv st \<longleftrightarrow> own_inv (ps_mem st) (pooled (ps_pool st)) (live st)"

lemma tier_cap_simps [simp]:
  "tier_cap 0 = nat tierSmall" "tier_cap 1 = nat tierMedium" "tier_cap 2 = nat tierLarge"
  by (simp_all add: tier_cap_def)

lemma slice_ok_append [simp]: "slice_ok m s \<Longrightarrow> slice_ok (m @ xs) s"
  by (auto simp: slice_ok_def nth_append)

lemma own_inv_append: "own_inv m P L \<Longrightarrow> own_inv (m @ xs) P L"
  by (auto simp: own_inv_def tier_ok_def buf_ok_def)

lemma own_inv_arr_less: "own_inv m P L \<Longrightarrow> a \<in># owners P L \<Longrightarrow> a < length m"
  by (auto simp: own_inv_def owners_def tier_ok_def buf_ok_def slice_ok_def)

text \<open>The moves the operations make between the two sides.\<close>

lemma own_checkout:
  assumes "own_inv m (add_mset (t, s) P) L" and "n \<le> scap s"
  shows "own_inv m P (add_mset \<lparr>pb_data = s\<lparr>slen := n\<rparr>, pb_tier = t, pb_released = False\<rparr> L)"
  using assms by (auto simp: own_inv_def owners_def tier_ok_def buf_ok_def slice_ok_def)

lemma own_return:
  assumes "own_inv m P (add_mset b L)" and "pb_tier b \<in> {0, 1, 2}"
  shows "own_inv m (add_mset (pb_tier b, full_slice (pb_data b)) P) L"
  using assms
  by (auto simp: own_inv_def owners_def tier_ok_def buf_ok_def slice_ok_def full_slice_def)

lemma own_inv_subset:
  assumes "own_inv m P L" and "P' \<subseteq># P" and "L' \<subseteq># L"
  shows "own_inv m P' L'"
proof -
  have "owners P' L' \<subseteq># owners P L"
    using assms(2,3) by (auto simp: owners_def intro!: mset_subset_eq_mono_add image_mset_subseteq_mono)
  then have "count (owners P' L') a \<le> count (owners P L) a" for a
    by (rule mset_subset_eq_count)
  then show ?thesis
    using assms by (auto simp: own_inv_def dest: mset_subset_eqD) (meson order_trans)
qed

lemma own_inv_fresh_arr: "own_inv m P L \<Longrightarrow> count (owners P L) (length m) = 0"
  using own_inv_arr_less [of m P L "length m"] by (meson less_irrefl not_in_iff)

lemma own_fresh_pooled:
  assumes inv: "own_inv m P L" and t: "t \<in> {0, 1, 2}"
  shows "own_inv (m @ [replicate (tier_cap t) 0])
           (add_mset (t, \<lparr>arr = length m, slen = tier_cap t, scap = tier_cap t\<rparr>) P) L"
proof -
  from inv have "count (owners P L) (length m) = 0"
    by (rule own_inv_fresh_arr)
  then show ?thesis
    using own_inv_append [OF inv, of "[replicate (tier_cap t) 0]"] t
    by (auto simp: own_inv_def owners_def tier_ok_def slice_ok_def)
qed

lemma own_fresh_live:
  assumes inv: "own_inv m P L" and n: "n = length d"
  shows "own_inv (m @ [d]) P
     (add_mset \<lparr>pb_data = \<lparr>arr = length m, slen = n, scap = n\<rparr>, pb_tier = -1, pb_released = False\<rparr> L)"
proof -
  from inv have "count (owners P L) (length m) = 0"
    by (rule own_inv_fresh_arr)
  then show ?thesis
    using own_inv_append [OF inv, of "[d]"] n
    by (auto simp: own_inv_def owners_def buf_ok_def slice_ok_def)
qed

subsection \<open>The operations keep the invariant\<close>

lemma mset_remove_nth:
  assumes "i < length xs"
  shows "mset xs = add_mset (xs ! i) (mset (take i xs @ drop (Suc i) xs))"
  using arg_cong [OF id_take_nth_drop [OF assms], of mset] by simp

lemma sync_Pool_Get_cases:
  assumes "sync_Pool_Get ch n xs m = (s, xs', m')"
  obtains (reused) "m' = m" "mset xs = add_mset s (mset xs')"
  | (fresh) "m' = m @ [replicate n 0]" "xs' = xs" "s = \<lparr>arr = length m, slen = n, scap = n\<rparr>"
proof (cases "\<exists>i. ch = Some i \<and> i < length xs")
  case True
  then obtain i where "ch = Some i" and "i < length xs" by blast
  with assms mset_remove_nth [of i xs] show ?thesis
    by (intro reused) (auto simp: sync_Pool_Get_def)
next
  case False
  with assms show ?thesis
    by (intro fresh) (auto simp: sync_Pool_Get_def make_slice_def split: option.splits)
qed

lemma own_inv_take:
  assumes inv: "own_inv m (image_mset (Pair t) (mset xs) + R) L" and t: "t \<in> {0, 1, 2}"
    and get: "sync_Pool_Get ch (tier_cap t) xs m = (s, xs', m')"
  shows "own_inv m' (add_mset (t, s) (image_mset (Pair t) (mset xs') + R)) L"
  using get
proof (cases rule: sync_Pool_Get_cases)
  case reused
  with inv show ?thesis by simp
next
  case fresh
  with own_fresh_pooled [OF inv t] show ?thesis by simp
qed

lemma live_simps [simp]:
  "live (st\<lparr>ps_mem := m\<rparr>) = live st"
  "live (st\<lparr>ps_pool := p\<rparr>) = live st"
  "live (add_hit st) = live st"
  "live (add_miss st) = live st"
  by (simp_all add: live_def add_hit_def add_miss_def)

lemma pooled_counters [simp]:
  "pooled (ps_pool (add_hit st)) = pooled (ps_pool st)" "ps_mem (add_hit st) = ps_mem st"
  "pooled (ps_pool (add_miss st)) = pooled (ps_pool st)" "ps_mem (add_miss st) = ps_mem st"
  by (simp_all add: pooled_def add_hit_def add_miss_def)

lemma new_buffer_simps [simp]:
  "fst (new_buffer s t st) = length (ps_bufs st)"
  "ps_mem (snd (new_buffer s t st)) = ps_mem st"
  "ps_pool (snd (new_buffer s t st)) = ps_pool st"
  "live (snd (new_buffer s t st)) =
     add_mset \<lparr>pb_data = s, pb_tier = t, pb_released = False\<rparr> (live st)"
  by (simp_all add: new_buffer_def live_def)

lemma pool_inv_finish_get:
  assumes "own_inv (ps_mem st) (add_mset (t, s) (pooled (ps_pool st))) (live st)"
  shows "pool_inv (snd (finish_get s sz t st))"
proof (cases "reslice s sz")
  case None
  with assms show ?thesis
    by (auto simp: finish_get_def pool_inv_def intro: own_inv_subset)
next
  case (Some d)
  then have "d = s\<lparr>slen := nat sz\<rparr>" and "nat sz \<le> scap s"
    by (auto simp: reslice_def split: if_splits)
  with own_checkout [OF assms, of "nat sz"] Some show ?thesis
    by (simp add: finish_get_def pool_inv_def)
qed

lemma pool_inv_Get:
  assumes inv: "pool_inv st"
  shows "pool_inv (snd (Get ch sz st))"
proof -
  let ?p = "ps_pool st"
  let ?S = "image_mset (Pair 0) (mset (bp_small ?p))"
    and ?M = "image_mset (Pair 1) (mset (bp_medium ?p))"
    and ?L = "image_mset (Pair 2) (mset (bp_large ?p))"
  from inv have S: "own_inv (ps_mem st) (?S + (?M + ?L)) (live st)"
    and M: "own_inv (ps_mem st) (?M + (?S + ?L)) (live st)"
    and L: "own_inv (ps_mem st) (?L + (?S + ?M)) (live st)"
    by (simp_all add: pool_inv_def pooled_def ac_simps)
  consider "sz \<le> tierSmall" | "\<not> sz \<le> tierSmall" "sz \<le> tierMedium"
    | "\<not> sz \<le> tierMedium" "\<not> sz \<le> tierSmall" "sz \<le> tierLarge"
    | "\<not> sz \<le> tierSmall" "\<not> sz \<le> tierMedium" "\<not> sz \<le> tierLarge" by blast
  then show ?thesis
  proof cases
    case 1
    with own_inv_take [OF S, of ch] show ?thesis
      by (auto simp: Get_def Let_def pooled_def ac_simps split: prod.splits intro!: pool_inv_finish_get)
  next
    case 2
    with own_inv_take [OF M, of ch] show ?thesis
      by (auto simp: Get_def Let_def pooled_def ac_simps split: prod.splits intro!: pool_inv_finish_get)
  next
    case 3
    with own_inv_take [OF L, of ch] show ?thesis
      by (auto simp: Get_def Let_def pooled_def ac_simps split: prod.splits intro!: pool_inv_finish_get)
  next
    case 4
    with own_fresh_live [of "ps_mem st" "pooled ?p" "live st" "nat sz" "replicate (nat sz) 0"] inv
    show ?thesis
      by (simp add: Get_def make_slice_def pool_inv_def)
  qed
qed

lemma pool_inv_unmanaged: "pool_inv st \<Longrightarrow> pool_inv (snd (unmanaged_buffer d st))"
  by (simp add: unmanaged_buffer_def pool_inv_def own_fresh_live)

lemma live_release:
  assumes "b < length (ps_bufs st)" and "\<not> pb_released (ps_bufs st ! b)"
  shows "live st = add_mset (ps_bufs st ! b)
           (live (st\<lparr>ps_bufs := (ps_bufs st)[b := (ps_bufs st ! b)\<lparr>pb_released := True\<rparr>]\<rparr>))"
  using assms by (simp add: live_def mset_update)

lemma pool_inv_Release:
  assumes inv: "pool_inv st" and b: "b < length (ps_bufs st)"
  shows "pool_inv (Release b st)"
proof (cases "pb_released (ps_bufs st ! b)")
  case True
  with inv show ?thesis by (simp add: Release_def)
next
  case False
  let ?pb = "ps_bufs st ! b"
  let ?st' = "st\<lparr>ps_bufs := (ps_bufs st)[b := ?pb\<lparr>pb_released := True\<rparr>]\<rparr>"
  from inv have own: "own_inv (ps_mem st) (pooled (ps_pool st)) (add_mset ?pb (live ?st'))"
    unfolding live_release [OF b False, symmetric] by (simp add: pool_inv_def)
  have ret: "own_inv (ps_mem st) (add_mset (pb_tier ?pb, full_slice (pb_data ?pb)) (pooled (ps_pool st)))
      (live ?st')" if "pb_tier ?pb \<in> {0, 1, 2}"
    using own that by (rule own_return)
  have "own_inv (ps_mem st) (pooled (ps_pool st)) (live ?st')"
    using own by (rule own_inv_subset) auto
  with ret False show ?thesis
    by (auto simp: Release_def Let_def pool_inv_def pooled_def)
qed

lemma buf_write_simps [simp]:
  "ps_bufs (buf_write b off bs st) = ps_bufs st"
  "ps_pool (buf_write b off bs st) = ps_pool st"
  "live (buf_write b off bs st) = live st"
  by (simp_all add: buf_write_def)

lemma slice_ok_write [simp]:
  assumes "off + length bs \<le> length (m ! arr s)"
  shows "slice_ok (slice_write s off bs m) s' = slice_ok m s'"
  using assms by (cases "arr s' = arr s") (auto simp: slice_ok_def slice_write_def)

lemma pool_inv_buf_write:
  assumes inv: "pool_inv st" and b: "b < length (ps_bufs st)" "\<not> pb_released (ps_bufs st ! b)"
    and fits: "off + length bs \<le> Len b st"
  shows "pool_inv (buf_write b off bs st)"
proof -
  have "ps_bufs st ! b \<in># live st"
    using b by (auto simp: live_def)
  with inv have "slice_ok (ps_mem st) (pb_data (ps_bufs st ! b))"
    by (auto simp: pool_inv_def own_inv_def buf_ok_def)
  with fits have "off + length bs \<le> length (ps_mem st ! arr (pb_data (ps_bufs st ! b)))"
    by (simp add: slice_ok_def Len_def)
  with inv show ?thesis
    by (simp add: pool_inv_def own_inv_def tier_ok_def buf_ok_def)
      (simp add: buf_write_def)
qed

lemma pool_inv_init [simp]: "pool_inv init_pool_state"
  by (simp add: pool_inv_def own_inv_def owners_def init_pool_state_def NewBufferPool_def
      pooled_def live_def)

subsection \<open>Interleavings\<close>

text \<open>
  One step is one operation of some goroutine, the creation of an unmanaged buffer, a write of a
  holder into its own bytes, or the collector dropping any of the pooled slices.
\<close>

inductive pool_step :: "pool_state \<Rightarrow> pool_state \<Rightarrow> bool" where
  get: "pool_step st (snd (Get ch sz st))"
| unmanaged: "pool_step st (snd (unmanaged_buffer d st))"
| release: "b < length (ps_bufs st) \<Longrightarrow> pool_step st (Release b st)"
| holder_write: "b < length (ps_bufs st) \<Longrightarrow> \<not> pb_released (ps_bufs st ! b) \<Longrightarrow>
    off + length bs \<le> Len b st \<Longrightarrow> pool_step st (buf_write b off bs st)"
| collect: "mset xs \<subseteq># mset (bp_small (ps_pool st)) \<Longrightarrow> mset ys \<subseteq># mset (bp_medium (ps_pool st)) \<Longrightarrow>
    mset zs \<subseteq># mset (bp_large (ps_pool st)) \<Longrightarrow>
    pool_step st (st\<lparr>ps_pool := (ps_pool st)\<lparr>bp_small := xs, bp_medium := ys, bp_large := zs\<rparr>\<rparr>)"

inductive pool_reachable :: "pool_state \<Rightarrow> bool" where
  start: "pool_reachable init_pool_state"
| step: "pool_reachable st \<Longrightarrow> pool_step st st' \<Longrightarrow> pool_reachable st'"

lemma pool_step_inv: "pool_step st st' \<Longrightarrow> pool_inv st \<Longrightarrow> pool_inv st'"
proof (induction rule: pool_step.induct)
  case (collect xs st ys zs)
  then have "pooled ((ps_pool st)\<lparr>bp_small := xs, bp_medium := ys, bp_large := zs\<rparr>)
      \<subseteq># pooled (ps_pool st)"
    by (auto simp: pooled_def intro!: mset_subset_eq_mono_add image_mset_subseteq_mono)
  with collect.prems show ?case
    by (auto simp: pool_inv_def intro: own_inv_subset)
qed (auto intro: pool_inv_Get pool_inv_unmanaged pool_inv_Release pool_inv_buf_write)

lemma pool_reachable_inv: "pool_reachable st \<Longrightarrow> pool_inv st"
  by (induction rule: pool_reachable.induct) (auto intro: pool_step_inv)

lemma live_two:
  assumes "b < length (ps_bufs st)" "b' < length (ps_bufs st)" "b \<noteq> b'"
    and "\<not> pb_released (ps_bufs st ! b)" "\<not> pb_released (ps_bufs st ! b')"
  obtains R where "live st = add_mset (ps_bufs st ! b) (add_mset (ps_bufs st ! b') R)"
proof -
  let ?st' = "st\<lparr>ps_bufs := (ps_bufs st)[b := (ps_bufs st ! b)\<lparr>pb_released := True\<rparr>]\<rparr>"
  have "live st = add_mset (ps_bufs st ! b) (live ?st')"
    using assms by (intro live_release)
  moreover have "ps_bufs st ! b' \<in># live ?st'"
    using assms by (auto simp: live_def in_set_conv_nth nth_list_update intro!: exI [of _ b'])
  then obtain R where "live ?st' = add_mset (ps_bufs st ! b') R"
    by (metis mset_add)
  ultimately show ?thesis using that by simp
qed

lemma own_inv_live_distinct: "own_inv m P (add_mset x (add_mset y R)) \<Longrightarrow> arr (pb_data x) \<noteq> arr (pb_data y)"
  by (auto simp: own_inv_def owners_def dest: spec [of _ "arr (pb_data y)"])

lemma own_inv_pooled_live_distinct:
  "own_inv m P L \<Longrightarrow> (t, s) \<in># P \<Longrightarrow> x \<in># L \<Longrightarrow> arr s \<noteq> arr (pb_data x)"
  by (auto simp: own_inv_def owners_def dest!: multi_member_split dest: spec [of _ "arr (pb_data x)"])

subsection \<open>What the operations return\<close>

definition tier_of :: "int \<Rightarrow> int" where
  "tier_of sz = (if sz \<le> tierSmall then 0 else if sz \<le> tierMedium then 1
     else if sz \<le> tierLarge then 2 else -1)"

lemma pool_inv_pooled:
  "pool_inv st \<Longrightarrow> (t, s) \<in># pooled (ps_pool st) \<Longrightarrow> scap s = tier_cap t"
  by (auto simp: pool_inv_def own_inv_def tier_ok_def)

lemma pool_inv_caps:
  assumes "pool_inv st"
  shows "\<forall>x \<in> set (bp_small (ps_pool st)). scap x = nat tierSmall"
    and "\<forall>x \<in> set (bp_medium (ps_pool st)). scap x = nat tierMedium"
    and "\<forall>x \<in> set (bp_large (ps_pool st)). scap x = nat tierLarge"
proof -
  have "(0, x) \<in># pooled (ps_pool st)" if "x \<in> set (bp_small (ps_pool st))" for x
    using that by (simp add: pooled_def)
  with assms show "\<forall>x \<in> set (bp_small (ps_pool st)). scap x = nat tierSmall"
    by (fastforce dest: pool_inv_pooled)
  have "(1, x) \<in># pooled (ps_pool st)" if "x \<in> set (bp_medium (ps_pool st))" for x
    using that by (simp add: pooled_def)
  with assms show "\<forall>x \<in> set (bp_medium (ps_pool st)). scap x = nat tierMedium"
    by (fastforce dest: pool_inv_pooled)
  have "(2, x) \<in># pooled (ps_pool st)" if "x \<in> set (bp_large (ps_pool st))" for x
    using that by (simp add: pooled_def)
  with assms show "\<forall>x \<in> set (bp_large (ps_pool st)). scap x = nat tierLarge"
    by (fastforce dest: pool_inv_pooled)
qed

lemma sync_Pool_Get_scap:
  assumes "sync_Pool_Get ch n xs m = (s, xs', m')" and "\<forall>x \<in> set xs. scap x = n"
  shows "scap s = n"
  using assms(1)
proof (cases rule: sync_Pool_Get_cases)
  case reused
  then have "s \<in> set xs" by (metis set_mset_mset union_single_eq_member)
  with assms(2) show ?thesis by blast
qed simp

text \<open>The shape of a successful \<^verbatim>\<open>Get\<close>: one new unreleased buffer of the size asked for.\<close>

definition got :: "int \<Rightarrow> int \<Rightarrow> pool_state \<Rightarrow> nat option \<times> pool_state \<Rightarrow> bool" where
  "got sz t st r \<longleftrightarrow> (\<exists>s. fst r = Some (length (ps_bufs st)) \<and> ps_bufs (snd r) = ps_bufs st @
     [\<lparr>pb_data = s\<lparr>slen := nat sz\<rparr>, pb_tier = t, pb_released = False\<rparr>])"

lemma finish_get_got:
  assumes "0 \<le> sz" "sz \<le> int (scap s)"
  shows "got sz t st (finish_get s sz t st)"
  using assms by (auto simp: got_def finish_get_def reslice_def new_buffer_def add_hit_def)

lemma tier_get_got:
  assumes "0 \<le> sz" "sz \<le> c" "\<forall>x \<in> set xs. scap x = nat c" "ps_bufs st' = ps_bufs st"
    and "sync_Pool_Get ch (nat c) xs m = (s, xs', m')"
  shows "got sz t st (finish_get s sz t st')"
proof -
  have "sz \<le> int (scap s)"
    using sync_Pool_Get_scap [OF assms(5,3)] assms(1,2) by simp
  from finish_get_got [OF assms(1) this, of t st'] assms(4) show ?thesis
    by (simp add: got_def)
qed

lemma Get_got:
  assumes inv: "pool_inv st" and sz: "0 \<le> sz"
  shows "got sz (tier_of sz) st (Get ch sz st)"
proof -
  note caps = pool_inv_caps [OF inv]
  consider "sz \<le> tierSmall" | "\<not> sz \<le> tierSmall" "sz \<le> tierMedium"
    | "\<not> sz \<le> tierMedium" "\<not> sz \<le> tierSmall" "sz \<le> tierLarge"
    | "\<not> sz \<le> tierSmall" "\<not> sz \<le> tierMedium" "\<not> sz \<le> tierLarge" by blast
  then show ?thesis
  proof cases
    case 1
    with sz caps(1) show ?thesis
      by (auto simp: Get_def Let_def tier_of_def split: prod.split intro: tier_get_got)
  next
    case 2
    with sz caps(2) show ?thesis
      by (auto simp: Get_def Let_def tier_of_def split: prod.split intro: tier_get_got)
  next
    case 3
    with sz caps(3) show ?thesis
      by (auto simp: Get_def Let_def tier_of_def split: prod.split intro: tier_get_got)
  next
    case 4
    then show ?thesis
      by (auto simp: Get_def make_slice_def new_buffer_def add_miss_def tier_of_def got_def
          intro!: exI [of _ "\<lparr>arr = length (ps_mem st), slen = nat sz, scap = nat sz\<rparr>"])
  qed
qed

lemma Get_keeps_live_bytes:
  assumes inv: "pool_inv st" and sz: "0 \<le> sz"
    and b: "b < length (ps_bufs st)" "\<not> pb_released (ps_bufs st ! b)"
  shows "Bytes b (snd (Get ch sz st)) = Bytes b st"
proof -
  have "ps_bufs st ! b \<in># live st" using b by (auto simp: live_def)
  with inv have "arr (pb_data (ps_bufs st ! b)) < length (ps_mem st)"
    by (auto simp: pool_inv_def own_inv_def buf_ok_def slice_ok_def)
  then show ?thesis using b
    by (auto simp: Get_def Let_def finish_get_def Bytes_def slice_bytes_def new_buffer_def
        add_hit_def add_miss_def make_slice_def nth_append
        split: prod.splits option.splits elim!: sync_Pool_Get_cases)
qed

lemma Bytes_length:
  assumes "pool_inv st" "b < length (ps_bufs st)" "\<not> pb_released (ps_bufs st ! b)"
  shows "length (Bytes b st) = Len b st"
proof -
  have "ps_bufs st ! b \<in># live st" using assms by (auto simp: live_def)
  with assms(1) have "slice_ok (ps_mem st) (pb_data (ps_bufs st ! b))"
    by (auto simp: pool_inv_def own_inv_def buf_ok_def)
  then show ?thesis by (simp add: Bytes_def slice_bytes_def Len_def slice_ok_def)
qed

lemma buf_write_other:
  assumes "arr (pb_data (ps_bufs st ! b)) \<noteq> arr (pb_data (ps_bufs st ! b'))"
  shows "Bytes b' (buf_write b off bs st) = Bytes b' st"
  using assms by (simp add: Bytes_def slice_bytes_def buf_write_def slice_write_def)

lemma Release_released [simp]:
  "b < length (ps_bufs st) \<Longrightarrow> pb_released (ps_bufs (Release b st) ! b)"
  by (auto simp: Release_def Let_def)

lemma Release_mem [simp]: "ps_mem (Release b st) = ps_mem st"
  by (auto simp: Release_def Let_def)

lemma Release_length [simp]: "length (ps_bufs (Release b st)) = length (ps_bufs st)"
  by (auto simp: Release_def Let_def)

lemma live_Release:
  assumes "b < length (ps_bufs st)" "\<not> pb_released (ps_bufs st ! b)"
  shows "live st = add_mset (ps_bufs st ! b) (live (Release b st))"
  using live_release [OF assms] assms(2)
  by (auto simp: Release_def Let_def)

lemma live_got: "got sz t st r \<Longrightarrow> \<exists>x. live (snd r) = add_mset x (live st) \<and> ps_bufs (snd r) ! length (ps_bufs st) = x"
  by (auto simp: got_def live_def)

lemma pool_reachable_Get: "pool_reachable st \<Longrightarrow> pool_reachable (snd (Get ch sz st))"
  by (rule pool_reachable.step [OF _ pool_step.get])

lemma pool_reachable_Release:
  "pool_reachable st \<Longrightarrow> b < length (ps_bufs st) \<Longrightarrow> pool_reachable (Release b st)"
  by (rule pool_reachable.step [OF _ pool_step.release])

lemma pool_reachable_unmanaged: "pool_reachable st \<Longrightarrow> pool_reachable (snd (unmanaged_buffer d st))"
  by (rule pool_reachable.step [OF _ pool_step.unmanaged])

lemmas pool_reachable_example =
  pool_reachable.start [THEN pool_reachable_Get, THEN pool_reachable_Get, of None 3 None 3]

lemma tier_values [simp]: "tierSmall = 4096" "tierMedium = 65536" "tierLarge = 1048576"
  by (simp_all add: forge_defs)

lemma Get_example:
  "ps_bufs (snd (Get None 3 (snd (Get None 3 init_pool_state)))) =
     [\<lparr>pb_data = \<lparr>arr = 0, slen = 3, scap = 4096\<rparr>, pb_tier = 0, pb_released = False\<rparr>,
      \<lparr>pb_data = \<lparr>arr = 1, slen = 3, scap = 4096\<rparr>, pb_tier = 0, pb_released = False\<rparr>]"
  by (simp add: Get_def Let_def sync_Pool_Get_def make_slice_def finish_get_def reslice_def
      new_buffer_def add_hit_def init_pool_state_def NewBufferPool_def)

subsection \<open>Properties\<close>

text \<open>
  C1.  Exclusive ownership: in every state reached by any interleaving of \<^verbatim>\<open>Get\<close>, \<^verbatim>\<open>Release\<close>
  (any number of times on the same buffer), writes of holders and collections, two buffers that
  have not been released never share an array, and the array of such a buffer is not in the pool,
  so no later \<^verbatim>\<open>Get\<close> can hand it out.
\<close>

theorem pool_exclusive:
  assumes "pool_reachable st" "b < length (ps_bufs st)" "\<not> pb_released (ps_bufs st ! b)"
  shows "(\<forall>b' < length (ps_bufs st). b' \<noteq> b \<longrightarrow> \<not> pb_released (ps_bufs st ! b') \<longrightarrow>
            arr (pb_data (ps_bufs st ! b')) \<noteq> arr (pb_data (ps_bufs st ! b))) \<and>
         (\<forall>(t, s) \<in># pooled (ps_pool st). arr s \<noteq> arr (pb_data (ps_bufs st ! b)))"
proof (intro conjI allI impI)
  from assms(1) have inv: "own_inv (ps_mem st) (pooled (ps_pool st)) (live st)"
    using pool_reachable_inv pool_inv_def by blast
  fix b' assume b': "b' < length (ps_bufs st)" "b' \<noteq> b" "\<not> pb_released (ps_bufs st ! b')"
  with assms obtain R where "live st = add_mset (ps_bufs st ! b') (add_mset (ps_bufs st ! b) R)"
    by (metis live_two)
  with inv show "arr (pb_data (ps_bufs st ! b')) \<noteq> arr (pb_data (ps_bufs st ! b))"
    by (auto dest: own_inv_live_distinct)
next
  from assms(1) have "own_inv (ps_mem st) (pooled (ps_pool st)) (live st)"
    using pool_reachable_inv pool_inv_def by blast
  moreover have "ps_bufs st ! b \<in># live st" using assms by (auto simp: live_def)
  ultimately show "\<forall>(t, s) \<in># pooled (ps_pool st). arr s \<noteq> arr (pb_data (ps_bufs st ! b))"
    by (auto dest: own_inv_pooled_live_distinct)
qed

theorem pool_exclusive_witness:
  "arr (pb_data (ps_bufs (snd (Get None 3 (snd (Get None 3 init_pool_state)))) ! 1)) \<noteq>
   arr (pb_data (ps_bufs (snd (Get None 3 (snd (Get None 3 init_pool_state)))) ! 0))"
  using pool_exclusive [OF pool_reachable_example, of 0] by (simp add: Get_example)

text \<open>
  C33.  \<^verbatim>\<open>Get\<close> for a non-negative size always returns: a new buffer of exactly that length from the
  smallest tier that holds it (or unmanaged above the largest tier), leaving the bytes of every
  other unreleased buffer alone.
\<close>

theorem Get_functional:
  assumes "pool_reachable st" and "0 \<le> sz"
  shows "\<exists>st'. Get ch sz st = (Some (length (ps_bufs st)), st') \<and> pool_reachable st' \<and>
     Len (length (ps_bufs st)) st' = nat sz \<and>
     length (Bytes (length (ps_bufs st)) st') = nat sz \<and>
     pb_tier (ps_bufs st' ! length (ps_bufs st)) = tier_of sz \<and>
     (\<forall>b < length (ps_bufs st). ps_bufs st' ! b = ps_bufs st ! b \<and>
        (\<not> pb_released (ps_bufs st ! b) \<longrightarrow> Bytes b st' = Bytes b st))"
proof -
  let ?n = "length (ps_bufs st)" and ?st' = "snd (Get ch sz st)"
  from assms(1) have inv: "pool_inv st" by (rule pool_reachable_inv)
  from Get_got [OF inv assms(2), of ch] obtain s where
    res: "fst (Get ch sz st) = Some ?n" and
    bufs: "ps_bufs ?st' = ps_bufs st @
      [\<lparr>pb_data = s\<lparr>slen := nat sz\<rparr>, pb_tier = tier_of sz, pb_released = False\<rparr>]"
    by (auto simp: got_def)
  have reach: "pool_reachable ?st'"
    using assms(1) by (rule pool_reachable_Get)
  have "length (Bytes ?n ?st') = Len ?n ?st'"
    using pool_reachable_inv [OF reach] bufs by (intro Bytes_length) auto
  moreover have "Len ?n ?st' = nat sz" using bufs by (simp add: Len_def)
  moreover have "\<forall>b < ?n. \<not> pb_released (ps_bufs st ! b) \<longrightarrow> Bytes b ?st' = Bytes b st"
    using Get_keeps_live_bytes [OF inv assms(2)] by blast
  ultimately show ?thesis
    using res bufs reach by (intro exI [of _ ?st']) (auto simp: prod_eq_iff nth_append)
qed

theorem Get_functional_witness:
  "\<exists>st'. Get None 70000 init_pool_state = (Some 0, st') \<and> pb_tier (ps_bufs st' ! 0) = 2"
  using Get_functional [OF pool_reachable.start, of 70000 None] by (auto simp: init_pool_state_def tier_of_def)

text \<open>
  Releasing twice is releasing once, and while a buffer is held a write into any other held
  buffer leaves its bytes unchanged.
\<close>

lemma Release_idempotent_writes_isolated:
  assumes "pool_reachable st" "b < length (ps_bufs st)" "b' < length (ps_bufs st)" "b \<noteq> b'"
    and "\<not> pb_released (ps_bufs st ! b)" "\<not> pb_released (ps_bufs st ! b')"
  shows "Release b (Release b st) = Release b st \<and>
         Bytes b' (Release b st) = Bytes b' st \<and>
         Bytes b' (buf_write b off bs st) = Bytes b' st"
proof (intro conjI)
  show "Release b (Release b st) = Release b st"
    using assms(2) by (simp add: Release_def [of b "Release b st"])
  have "ps_bufs (Release b st) ! b' = ps_bufs st ! b'"
    using assms(4) by (auto simp: Release_def Let_def)
  then show "Bytes b' (Release b st) = Bytes b' st" by (simp add: Bytes_def)
  from assms(1) have inv: "own_inv (ps_mem st) (pooled (ps_pool st)) (live st)"
    using pool_reachable_inv pool_inv_def by blast
  from assms obtain R where "live st = add_mset (ps_bufs st ! b) (add_mset (ps_bufs st ! b') R)"
    by (metis live_two)
  with inv show "Bytes b' (buf_write b off bs st) = Bytes b' st"
    by (intro buf_write_other) (auto dest: own_inv_live_distinct)
qed

end
