(* ===== verification/Go_IO.thy ===== *)
theory Go_IO
  imports Forge_Errors
begin

text \<open>
  Go's \<^verbatim>\<open>io.Reader\<close> and \<^verbatim>\<open>io.Writer\<close> as the framework uses them.  A stream is a record of
  operations over a state \<open>'s\<close> that also holds the clock; an operation that never returns is
  \<^const>\<open>None\<close>.  \<open>ReadFull\<close> is \<^verbatim>\<open>io.ReadFull\<close>.  Two locales state what a stream may promise: one
  delivers a fixed byte sequence however it is chopped up (\<open>byte_source\<close>), one obeys its read
  deadline (\<open>deadline_reader\<close>); \<open>byte_sink\<close> is the writer's side.  The streams of
  \<^verbatim>\<open>src/forgetest\<close> interpret them.
\<close>

record 's io_object =
  io_Read :: "nat \<Rightarrow> 's \<Rightarrow> ((byte list \<times> go_error option) \<times> 's) option"
  io_Write :: "byte list \<Rightarrow> 's \<Rightarrow> ((nat \<times> go_error option) \<times> 's) option"
  io_SetReadDeadline :: "(time \<Rightarrow> 's \<Rightarrow> 's) option"
  io_SetWriteDeadline :: "(time \<Rightarrow> 's \<Rightarrow> 's) option"
  io_Now :: "'s \<Rightarrow> time"

text \<open>The result of an operation of the codec: a Go error or a value, and the new state.\<close>

type_synonym ('a, 's) io_result = "((go_error + 'a) \<times> 's) option"

text \<open>The loop of \<^verbatim>\<open>io.ReadAtLeast\<close>; it need not end, since \<^verbatim>\<open>Read\<close> may keep returning no bytes.\<close>

partial_function (option) read_loop ::
  "'s io_object \<Rightarrow> nat \<Rightarrow> byte list \<Rightarrow> 's \<Rightarrow> ((byte list \<times> go_error option) \<times> 's) option" where
  "read_loop io want acc s =
     (if length acc < want then
        (case io_Read io (want - length acc) s of
           None \<Rightarrow> None
         | Some r \<Rightarrow>
             (case snd (fst r) of
                None \<Rightarrow> read_loop io want (acc @ fst (fst r)) (snd r)
              | Some e \<Rightarrow> Some ((acc @ fst (fst r), Some e), snd r)))
      else Some ((acc, None), s))"

definition ReadFull ::
  "'s io_object \<Rightarrow> nat \<Rightarrow> 's \<Rightarrow> ((byte list \<times> go_error option) \<times> 's) option" where
  "ReadFull io n s =
     (case read_loop io n [] s of
        None \<Rightarrow> None
      | Some ((bs, e), s') \<Rightarrow>
          Some ((bs, if n \<le> length bs then None
                     else if bs \<noteq> [] \<and> e = Some EOF then Some ErrUnexpectedEOF else e), s'))"

lemma read_loop_done [simp]: "want \<le> length acc \<Longrightarrow> read_loop io want acc s = Some ((acc, None), s)"
  by (simp add: read_loop.simps)

lemma read_loop_error:
  "length acc < want \<Longrightarrow> io_Read io (want - length acc) s = Some ((bs, Some e), s') \<Longrightarrow>
   read_loop io want acc s = Some ((acc @ bs, Some e), s')"
  by (simp add: read_loop.simps)

lemma read_loop_more:
  "length acc < want \<Longrightarrow> io_Read io (want - length acc) s = Some ((bs, None), s') \<Longrightarrow>
   read_loop io want acc s = read_loop io want (acc @ bs) s'"
  by (subst read_loop.simps) simp

lemma read_loop_err_cases:
  assumes "read_loop io want acc s = Some ((bs, e), s')"
  shows "e \<noteq> None \<or> want \<le> length bs"
proof -
  have "snd (fst ((bs, e), s')) \<noteq> None \<or> want \<le> length (fst (fst ((bs, e), s')))"
    by (rule read_loop.raw_induct
        [where P = "\<lambda>io want acc s r. snd (fst r) \<noteq> None \<or> want \<le> length (fst (fst r))", OF _ assms])
      (auto split: if_splits option.splits)
  then show ?thesis by simp
qed

lemma ReadFull_full:
  assumes "ReadFull io n s = Some ((bs, None), s')"
  shows "n \<le> length bs"
  using assms read_loop_err_cases [of io n "[]" s]
  by (auto simp: ReadFull_def split: option.splits prod.splits if_splits)

subsection \<open>A source that delivers a byte sequence\<close>

text \<open>
  \<open>pending s\<close> is what the source will still deliver.  Nothing is said about how many bytes one
  \<^verbatim>\<open>Read\<close> returns, only that it makes progress, loses nothing and reports \<^verbatim>\<open>EOF\<close> at the end.
\<close>

locale byte_source =
  fixes io :: "'s io_object" and ok :: "'s \<Rightarrow> bool" and pending :: "'s \<Rightarrow> byte list"
  assumes read_some: "ok s \<Longrightarrow> pending s \<noteq> [] \<Longrightarrow> 0 < n \<Longrightarrow>
      \<exists>bs s'. io_Read io n s = Some ((bs, None), s') \<and> ok s' \<and> length bs \<le> n \<and>
        pending s = bs @ pending s' \<and> bs \<noteq> []"
    and read_eof: "ok s \<Longrightarrow> pending s = [] \<Longrightarrow> 0 < n \<Longrightarrow>
      \<exists>s'. io_Read io n s = Some (([], Some EOF), s') \<and> ok s' \<and> pending s' = []"
begin

lemma read_loop_pending:
  assumes "ok s"
  shows "\<exists>s'. ok s' \<and>
    (if want \<le> length acc + length (pending s)
     then read_loop io want acc s = Some ((acc @ take (want - length acc) (pending s), None), s') \<and>
          pending s' = drop (want - length acc) (pending s)
     else read_loop io want acc s = Some ((acc @ pending s, Some EOF), s') \<and> pending s' = [])"
  using assms
proof (induction "length (pending s)" arbitrary: acc s rule: less_induct)
  case less
  show ?case
  proof (cases "length acc < want")
    case False
    then show ?thesis using less.prems by auto
  next
    case True
    show ?thesis
    proof (cases "pending s = []")
      case True
      with read_eof [OF less.prems, of "want - length acc"] \<open>length acc < want\<close> show ?thesis
        by (auto simp: read_loop_error)
    next
      case False
      with True read_some [OF less.prems, of "want - length acc"] obtain bs s1 where
        rd: "io_Read io (want - length acc) s = Some ((bs, None), s1)" and ok1: "ok s1"
        and len: "length bs \<le> want - length acc" and p: "pending s = bs @ pending s1" and ne: "bs \<noteq> []"
        by auto
      have "length (pending s1) < length (pending s)" using p ne by simp
      from less.hyps [OF this ok1, of "acc @ bs"] True len show ?thesis
        by (auto simp: read_loop_more [OF True rd] p not_le diff_diff_left split: if_splits)
    qed
  qed
qed

lemma ReadFull_pending:
  assumes "ok s" "n \<le> length (pending s)"
  shows "\<exists>s'. ReadFull io n s = Some ((take n (pending s), None), s') \<and> ok s' \<and>
    pending s' = drop n (pending s)"
  using read_loop_pending [OF assms(1), of n "[]"] assms(2) by (auto simp: ReadFull_def)

lemma ReadFull_short:
  assumes "ok s" "length (pending s) < n"
  shows "\<exists>s'. ReadFull io n s =
      Some ((pending s, Some (if pending s = [] then EOF else ErrUnexpectedEOF)), s') \<and>
    ok s' \<and> pending s' = []"
  using read_loop_pending [OF assms(1), of n "[]"] assms(2) by (auto simp: ReadFull_def)

end

subsection \<open>A reader that keeps to its buffer\<close>

text \<open>The contract of \<^verbatim>\<open>io.Reader\<close>: a \<^verbatim>\<open>Read\<close> returns at most as many bytes as it was given room for.\<close>

lemma read_loop_len:
  assumes "read_loop io want acc s = Some r"
    and "\<forall>n s x. io_Read io n s = Some x \<longrightarrow> length (fst (fst x)) \<le> n" "length acc \<le> want"
  shows "length (fst (fst r)) \<le> want"
proof -
  define P where "P = (\<lambda>(io :: 'a io_object) want (acc :: byte list) (s :: 'a) (r :: (byte list \<times> go_error option) \<times> 'a).
    (\<forall>n s x. io_Read io n s = Some x \<longrightarrow> length (fst (fst x)) \<le> n) \<longrightarrow> length acc \<le> want \<longrightarrow>
    length (fst (fst r)) \<le> want)"
  have "P io want acc s r"
  proof (rule read_loop.raw_induct [OF _ assms(1)])
    fix rec and io :: "'a io_object" and want and acc :: "byte list" and s r
    assume IH: "\<And>io want acc s r. rec io want acc s = Some r \<Longrightarrow> P io want acc s r"
      and r: "(if length acc < want
        then case io_Read io (want - length acc) s of None \<Rightarrow> None
           | Some x \<Rightarrow>
               case snd (fst x) of None \<Rightarrow> rec io want (acc @ fst (fst x)) (snd x)
               | Some e \<Rightarrow> Some ((acc @ fst (fst x), Some e), snd x)
        else Some ((acc, None), s)) = Some r"
    show "P io want acc s r"
    proof (cases "length acc < want")
      case True
      with r obtain x where x: "io_Read io (want - length acc) s = Some x"
        by (auto split: option.splits)
      show ?thesis
        unfolding P_def
      proof (intro impI)
        assume honest: "\<forall>n s x. io_Read io n s = Some x \<longrightarrow> length (fst (fst x)) \<le> n"
        then have "length (fst (fst x)) \<le> want - length acc" using x by blast
        with True have "length (acc @ fst (fst x)) \<le> want" by simp
        with honest r x True IH [of io want "acc @ fst (fst x)" "snd x" r] show "length (fst (fst r)) \<le> want"
          by (cases "snd (fst x)") (auto simp: P_def)
      qed
    qed (use r in \<open>auto simp: P_def\<close>)
  qed
  with assms show ?thesis by (simp add: P_def)
qed

locale honest_reader =
  fixes io :: "'s io_object"
  assumes read_len: "io_Read io n s = Some x \<Longrightarrow> length (fst (fst x)) \<le> n"
begin

lemma ReadFull_len: "ReadFull io n s = Some ((bs, e), s') \<Longrightarrow> length bs \<le> n"
  using read_loop_len [of io n "[]" s] read_len by (fastforce simp: ReadFull_def split: option.splits)

end

subsection \<open>A sink that accepts every byte\<close>

locale byte_sink =
  fixes io :: "'s io_object" and ok :: "'s \<Rightarrow> bool" and sent :: "'s \<Rightarrow> byte list"
  assumes write_all: "ok s \<Longrightarrow> bs \<noteq> [] \<Longrightarrow>
      \<exists>s'. io_Write io bs s = Some ((length bs, None), s') \<and> ok s' \<and> sent s' = sent s @ bs"

subsection \<open>A reader that obeys a deadline\<close>

text \<open>
  \<open>dl s\<close> is the armed deadline.  Every \<^verbatim>\<open>Read\<close> returns before it; a \<^verbatim>\<open>Read\<close> that returns
  fewer bytes than asked for, and no error, uses up some of the finite behaviour \<open>fuel s\<close> of the
  peer.
\<close>

locale timed_reader =
  fixes io :: "'s io_object" and dl :: "'s \<Rightarrow> time option" and fuel :: "'s \<Rightarrow> nat"
  assumes read_by: "dl s = Some d \<Longrightarrow> io_Now io s \<le> d \<Longrightarrow> 0 < n \<Longrightarrow>
      \<exists>bs e s'. io_Read io n s = Some ((bs, e), s') \<and> length bs \<le> n \<and> dl s' = Some d \<and>
        io_Now io s \<le> io_Now io s' \<and> io_Now io s' \<le> d \<and>
        (e = None \<longrightarrow> length bs < n \<longrightarrow> fuel s' < fuel s)"
begin

lemma read_loop_by:
  assumes "dl s = Some d" "io_Now io s \<le> d" "length acc \<le> want"
  shows "\<exists>bs e s'. read_loop io want acc s = Some ((bs, e), s') \<and> length bs \<le> want \<and> dl s' = Some d \<and>
    io_Now io s \<le> io_Now io s' \<and> io_Now io s' \<le> d"
  using assms
proof (induction "fuel s" arbitrary: acc s rule: less_induct)
  case less
  show ?case
  proof (cases "length acc < want")
    case False
    with less.prems show ?thesis by auto
  next
    case True
    with read_by [OF less.prems(1,2), of "want - length acc"] obtain bs e s1 where
      rd: "io_Read io (want - length acc) s = Some ((bs, e), s1)"
      and len: "length bs \<le> want - length acc" and dl1: "dl s1 = Some d"
      and now: "io_Now io s \<le> io_Now io s1" "io_Now io s1 \<le> d"
      and fuel: "e = None \<longrightarrow> length bs < want - length acc \<longrightarrow> fuel s1 < fuel s"
      by auto
    show ?thesis
    proof (cases e)
      case (Some err)
      with rd True len now dl1 show ?thesis by (auto simp: read_loop_error)
    next
      case None
      note more = read_loop_more [OF True rd [unfolded None]]
      show ?thesis
      proof (cases "length bs < want - length acc")
        case True
        with less.hyps [of s1 "acc @ bs"] None fuel dl1 now len more show ?thesis
          by (fastforce intro: order_trans)
      next
        case False
        with \<open>length acc < want\<close> len now dl1 more show ?thesis by auto
      qed
    qed
  qed
qed

lemma ReadFull_by:
  assumes "dl s = Some d" "io_Now io s \<le> d"
  shows "\<exists>bs e s'. ReadFull io n s = Some ((bs, e), s') \<and> length bs \<le> n \<and> dl s' = Some d \<and>
    io_Now io s \<le> io_Now io s' \<and> io_Now io s' \<le> d"
  using read_loop_by [OF assms, of "[]" n] by (auto simp: ReadFull_def)

end

text \<open>The deadline is one that \<^verbatim>\<open>SetReadDeadline\<close> sets.\<close>

locale deadline_reader = timed_reader io dl fuel
  for io :: "'s io_object" and dl :: "'s \<Rightarrow> time option" and fuel :: "'s \<Rightarrow> nat" +
  fixes set_dl :: "time \<Rightarrow> 's \<Rightarrow> 's"
  assumes deadliner: "io_SetReadDeadline io = Some set_dl"
    and set_dl: "dl (set_dl t s) = Some t" "io_Now io (set_dl t s) = io_Now io s"

end
