(* ===== verification/Codec_Frame.thy ===== *)
theory Codec_Frame
  imports Codec_Pool Go_IO
begin

text \<open>
  The frame codec, \<^verbatim>\<open>src/codec/frame.go\<close>: a four-byte big-endian length followed by the payload,
  read and written in chunks with the deadline refreshed before each.  \<open>encode_frame\<close> and
  \<open>parse_frame\<close> are the wire format as functions on byte sequences; the lemmas of this theory show
  that the chunked, deadline-driven code implements them on every stream that delivers the bytes,
  and that it returns within a bounded time on every stream that obeys its deadline.
\<close>

definition LengthPrefixSize :: nat where [forge_defs]: "LengthPrefixSize = 4"
definition MaxFrameSize :: nat where [forge_defs]: "MaxFrameSize = 10 * 1024 * 1024"
definition chunkSize :: nat where [forge_defs]: "chunkSize = 64 * 1024"

lemma frame_sizes [simp]:
  "LengthPrefixSize = 4" "MaxFrameSize = 10485760" "chunkSize = 65536"
  by (simp_all add: forge_defs)

definition armRead :: "'s io_object \<Rightarrow> duration \<Rightarrow> 's \<Rightarrow> 's" where
  "armRead r idle s =
     (if idle \<le> 0 then s
      else case io_SetReadDeadline r of
             Some d \<Rightarrow> d (io_Now r s + idle) s
           | None \<Rightarrow> s)"

definition armWrite :: "'s io_object \<Rightarrow> duration \<Rightarrow> 's \<Rightarrow> 's" where
  "armWrite w idle s =
     (if idle \<le> 0 then s
      else case io_SetWriteDeadline w of
             Some d \<Rightarrow> d (io_Now w s + idle) s
           | None \<Rightarrow> s)"

definition frame_too_large :: "nat \<Rightarrow> go_error" where
  "frame_too_large n =
     ErrorString (''frame too large: '' @ dec_nat n @ '' > '' @ dec_nat MaxFrameSize)"

definition readFrameLength :: "'s io_object \<Rightarrow> duration \<Rightarrow> 's \<Rightarrow> (32 word, 's) io_result" where
  "readFrameLength r idle s =
     (case ReadFull r LengthPrefixSize (armRead r idle s) of
        None \<Rightarrow> None
      | Some ((lenBuf, Some e), s') \<Rightarrow> Some (Inl (WrapError ''read frame length'' e), s')
      | Some ((lenBuf, None), s') \<Rightarrow>
          (let len = be32_get lenBuf in
           if len = 0 then Some (Inl (ErrorString ''empty frame''), s')
           else if word_of_nat MaxFrameSize < len then Some (Inl (frame_too_large (unat len)), s')
           else Some (Inr len, s')))"

text \<open>\<^verbatim>\<open>readLargeBody\<close>: the accumulator \<open>acc\<close> is the source's \<^verbatim>\<open>data\<close>.\<close>

function readLargeBody_loop ::
  "'s io_object \<Rightarrow> nat \<Rightarrow> duration \<Rightarrow> byte list \<Rightarrow> 's \<Rightarrow> (byte list, 's) io_result" where
  "readLargeBody_loop r len idle acc s =
     (if length acc < len then
        (case ReadFull r (min chunkSize (len - length acc)) (armRead r idle s) of
           None \<Rightarrow> None
         | Some ((chunk, Some e), s') \<Rightarrow> Some (Inl (WrapError ''read frame data'' e), s')
         | Some ((chunk, None), s') \<Rightarrow> readLargeBody_loop r len idle (acc @ chunk) s')
      else Some (Inr acc, s))"
  by pat_completeness auto
termination
  by (relation "measure (\<lambda>(r, len, idle, acc, s). len - length acc)")
    (auto dest!: ReadFull_full)

declare readLargeBody_loop.simps [simp del]

definition readLargeBody :: "'s io_object \<Rightarrow> nat \<Rightarrow> duration \<Rightarrow> 's \<Rightarrow> (byte list, 's) io_result" where
  "readLargeBody r len idle s = readLargeBody_loop r len idle [] s"

text \<open>
  \<^verbatim>\<open>readBodyInto\<close>: the destination is the bytes of the pooled buffer \<open>b\<close>, \<open>n\<close> of them.  A short
  read leaves the bytes it did get in the buffer.
\<close>

function readBodyInto_loop ::
  "'s io_object \<Rightarrow> nat \<Rightarrow> nat \<Rightarrow> duration \<Rightarrow> nat \<Rightarrow> 's \<Rightarrow> pool_state \<Rightarrow> (unit, 's \<times> pool_state) io_result" where
  "readBodyInto_loop r b n idle off s ps =
     (if off < n then
        (case ReadFull r (min (off + chunkSize) n - off) (armRead r idle s) of
           None \<Rightarrow> None
         | Some ((chunk, Some e), s') \<Rightarrow>
             Some (Inl (WrapError ''read frame data'' e), s', buf_write b off chunk ps)
         | Some ((chunk, None), s') \<Rightarrow>
             readBodyInto_loop r b n idle (off + chunkSize) s' (buf_write b off chunk ps))
      else Some (Inr (), s, ps))"
  by pat_completeness auto
termination
  by (relation "measure (\<lambda>(r, b, n, idle, off, s, ps). n - off)") auto

declare readBodyInto_loop.simps [simp del]

definition readBodyInto ::
  "'s io_object \<Rightarrow> nat \<Rightarrow> duration \<Rightarrow> 's \<Rightarrow> pool_state \<Rightarrow> (unit, 's \<times> pool_state) io_result" where
  "readBodyInto r b idle s ps = readBodyInto_loop r b (Len b ps) idle 0 s ps"

definition ReadFrameWithTimeout :: "'s io_object \<Rightarrow> duration \<Rightarrow> 's \<Rightarrow> (byte list, 's) io_result" where
  "ReadFrameWithTimeout r idle s =
     (case readFrameLength r idle s of
        None \<Rightarrow> None
      | Some (Inl e, s') \<Rightarrow> Some (Inl e, s')
      | Some (Inr len, s') \<Rightarrow> readLargeBody r (unat len) idle s')"

definition ReadFrame :: "'s io_object \<Rightarrow> 's \<Rightarrow> (byte list, 's) io_result" where
  "ReadFrame r s = ReadFrameWithTimeout r 0 s"

text \<open>The chunk loop of \<^verbatim>\<open>WriteFrameWithTimeout\<close>.\<close>

function write_chunks ::
  "'s io_object \<Rightarrow> byte list \<Rightarrow> duration \<Rightarrow> nat \<Rightarrow> 's \<Rightarrow> (unit, 's) io_result" where
  "write_chunks w d idle off s =
     (if off < length d then
        (case io_Write w (take (min (off + chunkSize) (length d) - off) (drop off d)) (armWrite w idle s) of
           None \<Rightarrow> None
         | Some ((n, Some e), s') \<Rightarrow> Some (Inl (WrapError ''write frame data'' e), s')
         | Some ((n, None), s') \<Rightarrow> write_chunks w d idle (off + chunkSize) s')
      else Some (Inr (), s))"
  by pat_completeness auto
termination
  by (relation "measure (\<lambda>(w, d, idle, off, s). length d - off)") auto

declare write_chunks.simps [simp del]

definition WriteFrameWithTimeout ::
  "'s io_object \<Rightarrow> byte list \<Rightarrow> duration \<Rightarrow> 's \<Rightarrow> (unit, 's) io_result" where
  "WriteFrameWithTimeout w d idle s =
     (if MaxFrameSize < length d then Some (Inl (frame_too_large (length d)), s)
      else case io_Write w (be32_put (word_of_nat (length d))) (armWrite w idle s) of
             None \<Rightarrow> None
           | Some ((n, Some e), s') \<Rightarrow> Some (Inl (WrapError ''write frame length'' e), s')
           | Some ((n, None), s') \<Rightarrow> write_chunks w d idle 0 s')"

definition WriteFrame :: "'s io_object \<Rightarrow> byte list \<Rightarrow> 's \<Rightarrow> (unit, 's) io_result" where
  "WriteFrame w d s = WriteFrameWithTimeout w d 0 s"

text \<open>
  \<^verbatim>\<open>ReadFramePooledWithTimeout\<close>.  \<open>ch\<close> is the choice of \<^verbatim>\<open>sync.Pool\<close>.  A large frame gets an
  unmanaged buffer around the slice \<^verbatim>\<open>readLargeBody\<close> grew.  \<open>Get\<close> cannot panic here, since the
  length is positive; that branch is kept as an error value.
\<close>

definition ReadFramePooledWithTimeout ::
  "'s io_object \<Rightarrow> nat option \<Rightarrow> duration \<Rightarrow> 's \<Rightarrow> pool_state \<Rightarrow> (nat, 's \<times> pool_state) io_result" where
  "ReadFramePooledWithTimeout r ch idle s ps =
     (case readFrameLength r idle s of
        None \<Rightarrow> None
      | Some (Inl e, s1) \<Rightarrow> Some (Inl e, s1, ps)
      | Some (Inr len, s1) \<Rightarrow>
          if tierLarge < int (unat len) then
            (case readLargeBody r (unat len) idle s1 of
               None \<Rightarrow> None
             | Some (Inl e, s2) \<Rightarrow> Some (Inl e, s2, ps)
             | Some (Inr d, s2) \<Rightarrow>
                 (let (b, ps') = unmanaged_buffer d ps in Some (Inr b, s2, ps')))
          else
            (case Get ch (int (unat len)) ps of
               (None, ps1) \<Rightarrow> Some (Inl (ExternalError ''panic: slice bounds out of range''), s1, ps1)
             | (Some b, ps1) \<Rightarrow>
                 (case readBodyInto r b idle s1 ps1 of
                    None \<Rightarrow> None
                  | Some (Inl e, s2, ps2) \<Rightarrow> Some (Inl e, s2, Release b ps2)
                  | Some (Inr _, s2, ps2) \<Rightarrow> Some (Inr b, s2, ps2))))"

definition ReadFramePooled ::
  "'s io_object \<Rightarrow> nat option \<Rightarrow> 's \<Rightarrow> pool_state \<Rightarrow> (nat, 's \<times> pool_state) io_result" where
  "ReadFramePooled r ch s ps = ReadFramePooledWithTimeout r ch 0 s ps"

subsection \<open>The wire format\<close>

definition encode_frame :: "byte list \<Rightarrow> byte list" where
  "encode_frame d = be32_put (word_of_nat (length d)) @ d"

text \<open>What a read of one frame makes of the byte sequence ahead of it, and what it leaves.\<close>

definition parse_frame :: "byte list \<Rightarrow> (go_error + byte list) \<times> byte list" where
  "parse_frame bs =
     (if length bs < 4 then
        (Inl (WrapError ''read frame length'' (if bs = [] then EOF else ErrUnexpectedEOF)), [])
      else let n = unat (be32_get (take 4 bs)); body = drop 4 bs in
        if n = 0 then (Inl (ErrorString ''empty frame''), body)
        else if MaxFrameSize < n then (Inl (frame_too_large n), body)
        else if length body < n then
          (Inl (WrapError ''read frame data''
             (if length body mod chunkSize = 0 then EOF else ErrUnexpectedEOF)), [])
        else (Inr (take n body), drop n body))"

lemma unat_be32_len [simp]: "length d \<le> 10485760 \<Longrightarrow> unat (word_of_nat (length d) :: 32 word) = length d"
  by (simp add: unat_of_nat take_bit_nat_eq_self)

lemma parse_encode:
  assumes "d \<noteq> []" "length d \<le> MaxFrameSize"
  shows "parse_frame (encode_frame d @ rest) = (Inr d, rest)"
  using assms by (simp add: parse_frame_def encode_frame_def Let_def)

lemma parse_encode_empty: "parse_frame (encode_frame [] @ rest) = (Inl (ErrorString ''empty frame''), rest)"
  by (simp add: parse_frame_def encode_frame_def Let_def)

subsection \<open>Reading implements the format\<close>

lemma Bytes_buf_write:
  assumes "pool_inv ps" "b < length (ps_bufs ps)" "\<not> pb_released (ps_bufs ps ! b)"
    and "off + length bs \<le> Len b ps"
  shows "Bytes b (buf_write b off bs ps) =
    take off (Bytes b ps) @ bs @ drop (off + length bs) (Bytes b ps)"
proof -
  have "ps_bufs ps ! b \<in># live ps" using assms by (auto simp: live_def)
  with assms(1) have "slice_ok (ps_mem ps) (pb_data (ps_bufs ps ! b))"
    by (auto simp: pool_inv_def own_inv_def buf_ok_def)
  with assms(4) show ?thesis
    by (simp add: Bytes_def slice_bytes_def buf_write_def slice_write_def slice_ok_def Len_def
        take_drop min_absorb1)
qed

text \<open>\<open>only_writes b ps ps'\<close>: some writes of the holder of \<open>b\<close> into its bytes, nothing else.\<close>

inductive only_writes :: "nat \<Rightarrow> pool_state \<Rightarrow> pool_state \<Rightarrow> bool" for b where
  none: "only_writes b ps ps"
| one: "only_writes b (buf_write b off bs ps) ps' \<Longrightarrow> off + length bs \<le> Len b ps \<Longrightarrow> only_writes b ps ps'"

lemma only_writes_frame:
  assumes "only_writes b ps ps'"
  shows "ps_bufs ps' = ps_bufs ps" "ps_pool ps' = ps_pool ps" "live ps' = live ps"
  using assms by (induction rule: only_writes.induct) auto

lemma Len_buf_write [simp]: "Len b' (buf_write b off bs ps) = Len b' ps"
  by (simp add: Len_def)

lemma only_writes_reachable:
  assumes "only_writes b ps ps'" "pool_reachable ps" "b < length (ps_bufs ps)"
    "\<not> pb_released (ps_bufs ps ! b)"
  shows "pool_reachable ps'"
  using assms
proof (induction rule: only_writes.induct)
  case (one off bs ps ps')
  then have "pool_reachable (buf_write b off bs ps)"
    by (blast intro: pool_reachable.step pool_step.holder_write)
  with one show ?case by simp
qed

text \<open>
  Whatever the stream delivers, a pooled read keeps the accounts of the pool: on success one new
  unreleased buffer and nothing else, on an error none.
\<close>

definition one_more :: "pool_state \<Rightarrow> nat \<Rightarrow> pool_state \<Rightarrow> bool" where
  "one_more ps b ps' \<longleftrightarrow> b < length (ps_bufs ps') \<and> \<not> pb_released (ps_bufs ps' ! b) \<and>
     live ps' = add_mset (ps_bufs ps' ! b) (live ps)"

lemma one_more_Release: "one_more ps b ps' \<Longrightarrow> live (Release b ps') = live ps"
  using live_Release [of b ps'] by (auto simp: one_more_def)

lemma one_more_Get:
  assumes "pool_reachable ps" "0 < n" "Get ch (int n) ps = (r, ps')"
  shows "\<exists>b. r = Some b \<and> one_more ps b ps' \<and> Len b ps' = n"
proof -
  have "got (int n) (tier_of (int n)) ps (r, ps')"
    using Get_got [OF pool_reachable_inv [OF assms(1)], of "int n" ch] assms(3) by simp
  with live_got [OF this] show ?thesis by (auto simp: got_def one_more_def Len_def)
qed

lemma one_more_unmanaged: "unmanaged_buffer d ps = (b, ps') \<Longrightarrow> one_more ps b ps'"
  by (auto simp: unmanaged_buffer_def new_buffer_def one_more_def live_def)

context honest_reader
begin

lemma readBodyInto_only_writes:
  assumes "readBodyInto_loop io b n idle off s ps = Some (r, s', ps')" "Len b ps = n"
  shows "only_writes b ps ps'"
  using assms
proof (induction "n - off" arbitrary: off s ps rule: less_induct)
  case less
  show ?case
  proof (cases "off < n")
    case False
    with less.prems show ?thesis by (simp add: readBodyInto_loop.simps only_writes.none)
  next
    case True
    let ?m = "min (off + chunkSize) n - off"
    from less.prems(1) True obtain chunk e s1 where
      rd: "ReadFull io ?m (armRead io idle s) = Some ((chunk, e), s1)"
      by (subst (asm) readBodyInto_loop.simps) (auto split: option.splits)
    let ?ps1 = "buf_write b off chunk ps"
    from ReadFull_len [OF rd] True have fits: "off + length chunk \<le> Len b ps" using less.prems(2) by simp
    show ?thesis
    proof (cases e)
      case (Some err)
      with less.prems(1) True rd have "ps' = ?ps1" by (simp add: readBodyInto_loop.simps [of io b n])
      with fits show ?thesis by (auto intro: only_writes.intros)
    next
      case None
      with less.prems(1) True rd have "readBodyInto_loop io b n idle (off + chunkSize) s1 ?ps1 = Some (r, s', ps')"
        by (simp add: readBodyInto_loop.simps [of io b n idle off])
      moreover have "n - (off + chunkSize) < n - off" using True by simp
      ultimately have "only_writes b ?ps1 ps'" using less.hyps less.prems(2) by simp
      then show ?thesis using fits by (rule only_writes.one)
    qed
  qed
qed

lemma pooled_read_accounts:
  assumes "pool_reachable ps" "ReadFramePooledWithTimeout io ch idle s ps = Some (r, s', ps')"
  shows "pool_reachable ps' \<and> (case r of Inl e \<Rightarrow> live ps' = live ps | Inr b \<Rightarrow> one_more ps b ps')"
proof -
  obtain h s1 where len: "readFrameLength io idle s = Some (h, s1)"
    using assms(2) by (auto simp: ReadFramePooledWithTimeout_def split: option.splits)
  show ?thesis
  proof (cases h)
    case (Inl e)
    with assms len show ?thesis by (auto simp: ReadFramePooledWithTimeout_def)
  next
    case (Inr w)
    show ?thesis
    proof (cases "tierLarge < int (unat w)")
      case True
      with assms len Inr show ?thesis
        using pool_reachable_unmanaged [OF assms(1)] one_more_unmanaged
        by (auto simp: ReadFramePooledWithTimeout_def split: option.splits sum.splits prod.splits)
          (metis snd_conv)
    next
      case False
      have "0 < unat w"
        using len Inr by (auto simp: readFrameLength_def Let_def unat_gt_0 split: option.splits if_splits)
      obtain r1 ps1 where get: "Get ch (int (unat w)) ps = (r1, ps1)" by force
      from one_more_Get [OF assms(1) \<open>0 < unat w\<close> get] obtain b where
        b: "r1 = Some b" "one_more ps b ps1" "Len b ps1 = unat w" by blast
      have reach1: "pool_reachable ps1" using pool_reachable_Get [OF assms(1), of ch "int (unat w)"] get by simp
      from assms(2) len Inr False get b obtain r2 s2 ps2 where
        rd: "readBodyInto io b idle s1 ps1 = Some (r2, s2, ps2)"
        and fin: "(r, s', ps') = (case r2 of Inl e \<Rightarrow> (Inl e, s2, Release b ps2) | Inr _ \<Rightarrow> (Inr b, s2, ps2))"
        by (auto simp: ReadFramePooledWithTimeout_def split: option.splits sum.splits)
      have ow: "only_writes b ps1 ps2"
        using rd b(3) readBodyInto_only_writes by (auto simp: readBodyInto_def)
      have "pool_reachable ps2" "one_more ps b ps2"
        using only_writes_reachable [OF ow reach1] only_writes_frame [OF ow] b(2) by (auto simp: one_more_def)
      with fin show ?thesis
        by (auto simp: one_more_Release one_more_def intro: pool_reachable_Release split: sum.splits)
    qed
  qed
qed

end

text \<open>Taking one chunk off what is still to be read: \<open>N\<close> bytes are wanted, \<open>P\<close> are coming.\<close>

lemma chunk_split:
  fixes P :: "'x list"
  assumes "w \<le> length P" "w \<le> N" "w = chunkSize \<or> w = N"
  shows "take w P @ take (N - w) (drop w P) = take N P" "(N - w \<le> length (drop w P)) = (N \<le> length P)"
    and "drop (N - w) (drop w P) = drop N P" "N \<le> length P \<or> length (drop w P) mod chunkSize = length P mod chunkSize"
proof -
  show "take w P @ take (N - w) (drop w P) = take N P" using assms(2) by (metis take_add le_add_diff_inverse)
  show "(N - w \<le> length (drop w P)) = (N \<le> length P)" unfolding length_drop using assms(1,2) by arith
  show "drop (N - w) (drop w P) = drop N P" using assms(2) by simp
  show "N \<le> length P \<or> length (drop w P) mod chunkSize = length P mod chunkSize"
    using assms by (auto simp: le_mod_geq)
qed

locale frame_source = byte_source io ok pending
  for io :: "'s io_object" and ok :: "'s \<Rightarrow> bool" and pending :: "'s \<Rightarrow> byte list" +
  fixes idle :: duration
  assumes arm_ok: "ok s \<Longrightarrow> ok (armRead io idle s)"
    and arm_pending: "ok s \<Longrightarrow> pending (armRead io idle s) = pending s"
begin

lemma arm_full:
  assumes "ok s" "n \<le> length (pending s)"
  obtains s' where "ReadFull io n (armRead io idle s) = Some ((take n (pending s), None), s')"
    and "ok s'" and "pending s' = drop n (pending s)"
  using ReadFull_pending [OF arm_ok [OF assms(1)], of n] assms arm_pending by auto

lemma arm_short:
  assumes "ok s" "length (pending s) < n"
  obtains s' where "ReadFull io n (armRead io idle s) =
      Some ((pending s, Some (if pending s = [] then EOF else ErrUnexpectedEOF)), s')"
    and "ok s'" and "pending s' = []"
  using ReadFull_short [OF arm_ok [OF assms(1)], of n] assms arm_pending by auto

lemma readFrameLength_parse:
  assumes "ok s"
  shows "\<exists>s'. ok s' \<and>
    (if length (pending s) < 4
     then readFrameLength io idle s = Some (Inl (WrapError ''read frame length''
            (if pending s = [] then EOF else ErrUnexpectedEOF)), s') \<and> pending s' = []
     else pending s' = drop 4 (pending s) \<and>
       readFrameLength io idle s =
         Some (let w = be32_get (take 4 (pending s)) in
               if unat w = 0 then Inl (ErrorString ''empty frame'')
               else if MaxFrameSize < unat w then Inl (frame_too_large (unat w)) else Inr w, s'))"
proof (cases "length (pending s) < 4")
  case True
  from arm_short [OF assms this] obtain s' where
    "ReadFull io 4 (armRead io idle s) =
       Some ((pending s, Some (if pending s = [] then EOF else ErrUnexpectedEOF)), s')"
    "ok s'" "pending s' = []" .
  with True show ?thesis by (auto simp: readFrameLength_def)
next
  case False
  then have "4 \<le> length (pending s)" by simp
  from arm_full [OF assms this] obtain s' where
    "ReadFull io 4 (armRead io idle s) = Some ((take 4 (pending s), None), s')"
    "ok s'" "pending s' = drop 4 (pending s)" .
  with False show ?thesis
    by (intro exI [of _ s'])
      (simp add: readFrameLength_def Let_def word_less_nat_alt unat_eq_zero)
qed

text \<open>One turn of the loop: the chunk does not come in full, or it does.\<close>

lemma readLargeBody_short:
  assumes "ok s" "length acc < len" "length (pending s) < min chunkSize (len - length acc)"
  shows "\<exists>s'. ok s' \<and> pending s' = [] \<and> readLargeBody_loop io len idle acc s = Some (Inl (WrapError ''read frame data''
    (if length (pending s) mod chunkSize = 0 then EOF else ErrUnexpectedEOF)), s')"
proof -
  from arm_short [OF assms(1,3)] obtain s' where
    "ReadFull io (min chunkSize (len - length acc)) (armRead io idle s) =
       Some ((pending s, Some (if pending s = [] then EOF else ErrUnexpectedEOF)), s')" "ok s'" "pending s' = []" .
  moreover have "length (pending s) mod chunkSize = 0 \<longleftrightarrow> pending s = []" using assms(3) by simp
  ultimately show ?thesis using assms(2) by (subst readLargeBody_loop.simps) auto
qed

lemma readLargeBody_more:
  assumes "ok s" "length acc < len" "w = min chunkSize (len - length acc)" "w \<le> length (pending s)"
  obtains s1 where "readLargeBody_loop io len idle acc s = readLargeBody_loop io len idle (acc @ take w (pending s)) s1"
    and "ok s1" "pending s1 = drop w (pending s)"
proof -
  from arm_full [OF assms(1,4)] obtain s1 where
    "ReadFull io w (armRead io idle s) = Some ((take w (pending s), None), s1)" "ok s1" "pending s1 = drop w (pending s)" .
  with assms(2,3) show thesis by (intro that [of s1]) (simp_all add: readLargeBody_loop.simps [of io len idle acc s])
qed

lemma readLargeBody_loop_parse:
  assumes "ok s" "length acc \<le> len"
  shows "\<exists>s'. ok s' \<and>
    (if len - length acc \<le> length (pending s)
     then readLargeBody_loop io len idle acc s = Some (Inr (acc @ take (len - length acc) (pending s)), s')
        \<and> pending s' = drop (len - length acc) (pending s)
     else readLargeBody_loop io len idle acc s = Some (Inl (WrapError ''read frame data''
          (if length (pending s) mod chunkSize = 0 then EOF else ErrUnexpectedEOF)), s')
        \<and> pending s' = [])"
  using assms
proof (induction "len - length acc" arbitrary: acc s rule: less_induct)
  case less
  let ?w = "min chunkSize (len - length acc)"
  consider "length acc = len" | "length acc < len" "length (pending s) < ?w" | "length acc < len" "?w \<le> length (pending s)"
    using less.prems(2) by linarith
  then show ?case
  proof cases
    case 1
    with less.prems show ?thesis by (auto simp: readLargeBody_loop.simps)
  next
    case 2
    with readLargeBody_short [OF less.prems(1) 2] show ?thesis by auto
  next
    case 3
    obtain s1 where eq: "readLargeBody_loop io len idle acc s = readLargeBody_loop io len idle (acc @ take ?w (pending s)) s1"
      and s1: "ok s1" "pending s1 = drop ?w (pending s)"
      using readLargeBody_more [OF less.prems(1) 3(1) refl 3(2)] by blast
    have len: "length (acc @ take ?w (pending s)) = length acc + ?w" "length acc + ?w \<le> len"
      "len - (length acc + ?w) < len - length acc" "len - (length acc + ?w) = (len - length acc) - ?w"
      using 3 by simp_all
    note cut = chunk_split [OF 3(2), of "len - length acc"]
    from less.hyps [of "acc @ take ?w (pending s)" s1] len s1(1) obtain s' where "ok s'"
      "if len - length acc - ?w \<le> length (pending s1)
       then readLargeBody_loop io len idle acc s = Some (Inr ((acc @ take ?w (pending s)) @ take (len - length acc - ?w) (pending s1)), s')
         \<and> pending s' = drop (len - length acc - ?w) (pending s1)
       else readLargeBody_loop io len idle acc s = Some (Inl (WrapError ''read frame data''
           (if length (pending s1) mod chunkSize = 0 then EOF else ErrUnexpectedEOF)), s') \<and> pending s' = []"
      unfolding eq len(1) len(4) by blast
    with cut s1(2) show ?thesis by (intro exI [of _ s']) (auto simp: min_def split: if_splits)
  qed
qed

lemma ReadFrameWithTimeout_parse:
  assumes "ok s"
  shows "\<exists>s'. ReadFrameWithTimeout io idle s = Some (fst (parse_frame (pending s)), s') \<and>
    ok s' \<and> pending s' = snd (parse_frame (pending s))"
proof -
  let ?w = "be32_get (take 4 (pending s))"
  from readFrameLength_parse [OF assms] obtain s1 where ok1: "ok s1" and
    len: "if length (pending s) < 4
      then readFrameLength io idle s = Some (Inl (WrapError ''read frame length''
            (if pending s = [] then EOF else ErrUnexpectedEOF)), s1) \<and> pending s1 = []
      else pending s1 = drop 4 (pending s) \<and> readFrameLength io idle s =
         Some (let w = ?w in if unat w = 0 then Inl (ErrorString ''empty frame'')
               else if MaxFrameSize < unat w then Inl (frame_too_large (unat w)) else Inr w, s1)"
    by blast
  show ?thesis
  proof (cases "4 \<le> length (pending s) \<and> unat ?w \<noteq> 0 \<and> unat ?w \<le> MaxFrameSize")
    case False
    with len ok1 show ?thesis
      by (auto simp: ReadFrameWithTimeout_def parse_frame_def Let_def split: if_splits)
  next
    case True
    from readLargeBody_loop_parse [OF ok1, of "[]" "unat ?w"] obtain s2 where "ok s2"
      "if unat ?w \<le> length (pending s1)
       then readLargeBody_loop io (unat ?w) idle [] s1 = Some (Inr (take (unat ?w) (pending s1)), s2)
          \<and> pending s2 = drop (unat ?w) (pending s1)
       else readLargeBody_loop io (unat ?w) idle [] s1 = Some (Inl (WrapError ''read frame data''
            (if length (pending s1) mod chunkSize = 0 then EOF else ErrUnexpectedEOF)), s2)
          \<and> pending s2 = []"
      by auto
    with True len show ?thesis
      by (intro exI [of _ s2])
        (auto simp: ReadFrameWithTimeout_def readLargeBody_def parse_frame_def Let_def split: if_splits)
  qed
qed

lemma readBodyInto_short:
  assumes "ok s" "Len b ps = n" "off < n" "length (pending s) < min (off + chunkSize) n - off"
  shows "\<exists>s' ps'. ok s' \<and> only_writes b ps ps' \<and> pending s' = [] \<and>
    readBodyInto_loop io b n idle off s ps = Some (Inl (WrapError ''read frame data''
      (if length (pending s) mod chunkSize = 0 then EOF else ErrUnexpectedEOF)), s', ps')"
proof -
  from arm_short [OF assms(1,4)] obtain s' where
    "ReadFull io (min (off + chunkSize) n - off) (armRead io idle s) =
       Some ((pending s, Some (if pending s = [] then EOF else ErrUnexpectedEOF)), s')" "ok s'" "pending s' = []" .
  moreover have "only_writes b ps (buf_write b off (pending s) ps)"
    using assms by (intro only_writes.one [OF only_writes.none]) auto
  moreover have "length (pending s) mod chunkSize = 0 \<longleftrightarrow> pending s = []" using assms(4) by auto
  ultimately show ?thesis using assms(3) by (subst readBodyInto_loop.simps) auto
qed

lemma readBodyInto_more:
  assumes "ok s" and pool: "pool_inv ps" "b < length (ps_bufs ps)" "\<not> pb_released (ps_bufs ps ! b)" "Len b ps = n"
    and "off < n" "w = min (off + chunkSize) n - off" "w \<le> length (pending s)"
  obtains s1 ps1 where "readBodyInto_loop io b n idle off s ps = readBodyInto_loop io b n idle (off + chunkSize) s1 ps1"
    and "ok s1" "pending s1 = drop w (pending s)"
    and "pool_inv ps1" "b < length (ps_bufs ps1)" "\<not> pb_released (ps_bufs ps1 ! b)" "Len b ps1 = n"
    and "\<And>ps'. only_writes b ps1 ps' \<Longrightarrow> only_writes b ps ps'"
    and "take (off + chunkSize) (Bytes b ps1) = take off (Bytes b ps) @ take w (pending s)"
proof -
  from arm_full [OF assms(1,8)] obtain s1 where
    rd: "ReadFull io w (armRead io idle s) = Some ((take w (pending s), None), s1)" "ok s1" "pending s1 = drop w (pending s)" .
  let ?ps1 = "buf_write b off (take w (pending s)) ps"
  have fits: "off + length (take w (pending s)) \<le> Len b ps" using assms(5-8) by simp
  have "length (Bytes b ps) = n" using pool by (simp add: Bytes_length)
  then have "take (off + chunkSize) (Bytes b ?ps1) = take off (Bytes b ps) @ take w (pending s)"
    using Bytes_buf_write [OF pool(1-3) fits] assms(6-8) by (auto simp: min_def split: if_splits)
  then show thesis
    using rd pool fits assms(6,7)
    by (intro that [of s1 ?ps1]) (auto simp: pool_inv_buf_write readBodyInto_loop.simps [of io b n idle off s ps] intro: only_writes.one)
qed

lemma readBodyInto_loop_parse:
  assumes "ok s" "pool_inv ps" "b < length (ps_bufs ps)" "\<not> pb_released (ps_bufs ps ! b)"
    and "Len b ps = n"
  shows "\<exists>s' ps'. ok s' \<and> only_writes b ps ps' \<and>
    (if n - off \<le> length (pending s)
     then readBodyInto_loop io b n idle off s ps = Some (Inr (), s', ps') \<and>
        pending s' = drop (n - off) (pending s) \<and>
        Bytes b ps' = take off (Bytes b ps) @ take (n - off) (pending s)
     else readBodyInto_loop io b n idle off s ps = Some (Inl (WrapError ''read frame data''
          (if length (pending s) mod chunkSize = 0 then EOF else ErrUnexpectedEOF)), s', ps')
        \<and> pending s' = [])"
  using assms
proof (induction "n - off" arbitrary: off s ps rule: less_induct)
  case less
  define w where "w = min (off + chunkSize) n - off"
  have lenb: "length (Bytes b ps) = n" using less.prems by (simp add: Bytes_length)
  consider "n \<le> off" | "off < n" "length (pending s) < w" | "off < n" "w \<le> length (pending s)" by linarith
  then show ?case
  proof cases
    case 1
    with less.prems lenb show ?thesis
      by (auto simp: readBodyInto_loop.simps intro: only_writes.none exI [of _ s] exI [of _ ps])
  next
    case 2
    with readBodyInto_short [OF less.prems(1,5) 2(1), folded w_def] show ?thesis by (fastforce simp: w_def)
  next
    case 3
    obtain s1 ps1 where eq: "readBodyInto_loop io b n idle off s ps = readBodyInto_loop io b n idle (off + chunkSize) s1 ps1"
      and s1: "ok s1" "pending s1 = drop w (pending s)"
      and inv1: "pool_inv ps1" "b < length (ps_bufs ps1)" "\<not> pb_released (ps_bufs ps1 ! b)" "Len b ps1 = n"
      and step: "\<And>ps'. only_writes b ps1 ps' \<Longrightarrow> only_writes b ps ps'"
      and bytes: "take (off + chunkSize) (Bytes b ps1) = take off (Bytes b ps) @ take w (pending s)"
      using readBodyInto_more [OF less.prems 3(1) w_def 3(2)] by blast
    have w: "w \<le> n - off" "w = chunkSize \<or> w = n - off" "n - (off + chunkSize) = n - off - w" "n - (off + chunkSize) < n - off"
      using 3(1) by (auto simp: w_def min_def)
    note cut = chunk_split [OF 3(2) w(1,2)]
    from less.hyps [OF w(4) s1(1) inv1] obtain s' ps' where "ok s'" "only_writes b ps1 ps'"
      "if n - off - w \<le> length (pending s1)
       then readBodyInto_loop io b n idle off s ps = Some (Inr (), s', ps') \<and> pending s' = drop (n - off - w) (pending s1) \<and>
         Bytes b ps' = (take off (Bytes b ps) @ take w (pending s)) @ take (n - off - w) (pending s1)
       else readBodyInto_loop io b n idle off s ps = Some (Inl (WrapError ''read frame data''
         (if length (pending s1) mod chunkSize = 0 then EOF else ErrUnexpectedEOF)), s', ps') \<and> pending s' = []"
      unfolding eq bytes w(3) by blast
    with step cut s1(2) show ?thesis by (intro exI [of _ s'] exI [of _ ps']) (auto split: if_splits)
  qed
qed

text \<open>
  What a pooled read leaves behind: on success one more buffer, unreleased, holding the payload;
  on an error no more unreleased buffers than before.
\<close>

lemma pooled_body:
  assumes ok: "ok s" and reach: "pool_reachable ps" and len: "0 < len"
  shows "\<exists>s' ps'. ok s' \<and> pool_reachable ps' \<and>
    (if len \<le> length (pending s)
     then (case Get ch (int len) ps of (None, _) \<Rightarrow> False | (Some b, ps1) \<Rightarrow>
        readBodyInto io b idle s ps1 = Some (Inr (), s', ps') \<and> b = length (ps_bufs ps) \<and>
        pending s' = drop len (pending s) \<and> Bytes b ps' = take len (pending s) \<and>
        length (ps_bufs ps') = Suc b \<and> \<not> pb_released (ps_bufs ps' ! b))
     else (case Get ch (int len) ps of (None, _) \<Rightarrow> False | (Some b, ps1) \<Rightarrow>
        readBodyInto io b idle s ps1 = Some (Inl (WrapError ''read frame data''
          (if length (pending s) mod chunkSize = 0 then EOF else ErrUnexpectedEOF)), s', ps') \<and>
        pending s' = [] \<and> pool_reachable (Release b ps') \<and> live (Release b ps') = live ps))"
proof -
  let ?b = "length (ps_bufs ps)" and ?ps1 = "snd (Get ch (int len) ps)"
  have inv: "pool_inv ps" using reach by (rule pool_reachable_inv)
  have g: "got (int len) (tier_of (int len)) ps (Get ch (int len) ps)"
    using inv by (rule Get_got) simp
  then have get: "Get ch (int len) ps = (Some ?b, ?ps1)"
    and b: "?b < length (ps_bufs ?ps1)" "length (ps_bufs ?ps1) = Suc ?b"
      "\<not> pb_released (ps_bufs ?ps1 ! ?b)" "Len ?b ?ps1 = len"
    by (auto simp: got_def Len_def prod_eq_iff)
  from live_got [OF g] have lv: "live ?ps1 = add_mset (ps_bufs ?ps1 ! ?b) (live ps)" by auto
  have reach1: "pool_reachable ?ps1" using reach by (rule pool_reachable_Get)
  from readBodyInto_loop_parse [OF ok pool_reachable_inv [OF reach1] b(1,3,4), of 0]
  obtain s' ps' where res: "ok s'" "only_writes ?b ?ps1 ps'"
    "if len \<le> length (pending s)
     then readBodyInto io ?b idle s ?ps1 = Some (Inr (), s', ps') \<and>
        pending s' = drop len (pending s) \<and> Bytes ?b ps' = take len (pending s)
     else readBodyInto io ?b idle s ?ps1 = Some (Inl (WrapError ''read frame data''
          (if length (pending s) mod chunkSize = 0 then EOF else ErrUnexpectedEOF)), s', ps')
        \<and> pending s' = []"
    using b(4) by (auto simp: readBodyInto_def)
  note fr = only_writes_frame [OF res(2)]
  have reach': "pool_reachable ps'"
    using res(2) reach1 b(1,3) by (rule only_writes_reachable)
  have "live ps' = add_mset (ps_bufs ps' ! ?b) (live (Release ?b ps'))"
    using b fr by (intro live_Release) auto
  then have "live (Release ?b ps') = live ps" using lv fr by simp
  moreover have "pool_reachable (Release ?b ps')"
    using reach' by (rule pool_reachable_Release) (use b fr in simp)
  ultimately show ?thesis
    using res reach' b fr get by (intro exI [of _ s'] exI [of _ ps']) (auto split: if_splits)
qed

lemma pooled_large_body:
  assumes "pool_reachable ps"
  shows "\<exists>ps'. unmanaged_buffer d ps = (length (ps_bufs ps), ps') \<and> pool_reachable ps' \<and>
    Bytes (length (ps_bufs ps)) ps' = d \<and> length (ps_bufs ps') = Suc (length (ps_bufs ps)) \<and>
    \<not> pb_released (ps_bufs ps' ! length (ps_bufs ps))"
  using pool_reachable_unmanaged [OF assms, of d]
  by (auto simp: unmanaged_buffer_def new_buffer_def Bytes_def slice_bytes_def)

lemma ReadFramePooledWithTimeout_parse:
  assumes ok: "ok s" and reach: "pool_reachable ps"
  shows "\<exists>r s' ps'. ReadFramePooledWithTimeout io ch idle s ps = Some (r, s', ps') \<and> ok s' \<and>
    pending s' = snd (parse_frame (pending s)) \<and> pool_reachable ps' \<and>
    (case fst (parse_frame (pending s)) of
       Inl e \<Rightarrow> r = Inl e \<and> live ps' = live ps
     | Inr d \<Rightarrow> r = Inr (length (ps_bufs ps)) \<and> Bytes (length (ps_bufs ps)) ps' = d \<and>
         length (ps_bufs ps') = Suc (length (ps_bufs ps)) \<and>
         \<not> pb_released (ps_bufs ps' ! length (ps_bufs ps)))"
proof -
  let ?w = "be32_get (take 4 (pending s))"
  from readFrameLength_parse [OF ok] obtain s1 where ok1: "ok s1" and
    len: "if length (pending s) < 4
      then readFrameLength io idle s = Some (Inl (WrapError ''read frame length''
            (if pending s = [] then EOF else ErrUnexpectedEOF)), s1) \<and> pending s1 = []
      else pending s1 = drop 4 (pending s) \<and> readFrameLength io idle s =
         Some (let w = ?w in if unat w = 0 then Inl (ErrorString ''empty frame'')
               else if MaxFrameSize < unat w then Inl (frame_too_large (unat w)) else Inr w, s1)"
    by blast
  consider (bad) "\<not> (4 \<le> length (pending s) \<and> unat ?w \<noteq> 0 \<and> unat ?w \<le> MaxFrameSize)"
    | (big) "4 \<le> length (pending s)" "unat ?w \<noteq> 0" "unat ?w \<le> MaxFrameSize" "tierLarge < int (unat ?w)"
    | (small) "4 \<le> length (pending s)" "unat ?w \<noteq> 0" "unat ?w \<le> MaxFrameSize" "\<not> tierLarge < int (unat ?w)"
    by blast
  then show ?thesis
  proof cases
    case bad
    with len ok1 reach show ?thesis
      by (auto simp: ReadFramePooledWithTimeout_def parse_frame_def Let_def split: if_splits)
  next
    case big
    from readLargeBody_loop_parse [OF ok1, of "[]" "unat ?w"] obtain s2 where "ok s2"
      "if unat ?w \<le> length (pending s1)
       then readLargeBody_loop io (unat ?w) idle [] s1 = Some (Inr (take (unat ?w) (pending s1)), s2)
          \<and> pending s2 = drop (unat ?w) (pending s1)
       else readLargeBody_loop io (unat ?w) idle [] s1 = Some (Inl (WrapError ''read frame data''
            (if length (pending s1) mod chunkSize = 0 then EOF else ErrUnexpectedEOF)), s2)
          \<and> pending s2 = []"
      by auto
    with big len reach pooled_large_body [OF reach, of "take (unat ?w) (pending s1)"] show ?thesis
      by (auto simp: ReadFramePooledWithTimeout_def readLargeBody_def parse_frame_def Let_def
          split: if_splits)
  next
    case small
    then have "0 < unat ?w" by simp
    from pooled_body [OF ok1 reach this, of ch] small len show ?thesis
      by (auto simp: ReadFramePooledWithTimeout_def parse_frame_def Let_def split: if_splits option.splits)
  qed
qed

end

subsection \<open>Writing implements the format\<close>

locale frame_sink = byte_sink io ok sent
  for io :: "'s io_object" and ok :: "'s \<Rightarrow> bool" and sent :: "'s \<Rightarrow> byte list" +
  fixes idle :: duration
  assumes arm_ok: "ok s \<Longrightarrow> ok (armWrite io idle s)"
    and arm_sent: "ok s \<Longrightarrow> sent (armWrite io idle s) = sent s"
begin

lemma arm_write:
  assumes "ok s" "bs \<noteq> []"
  obtains s' where "io_Write io bs (armWrite io idle s) = Some ((length bs, None), s')"
    and "ok s'" and "sent s' = sent s @ bs"
  using write_all [OF arm_ok [OF assms(1)] assms(2)] arm_sent [OF assms(1)] by auto

lemma write_chunks_sent:
  assumes "ok s"
  shows "\<exists>s'. write_chunks io d idle off s = Some (Inr (), s') \<and> ok s' \<and> sent s' = sent s @ drop off d"
  using assms
proof (induction "length d - off" arbitrary: off s rule: less_induct)
  case less
  show ?case
  proof (cases "off < length d")
    case False
    with less.prems show ?thesis by (simp add: write_chunks.simps)
  next
    case True
    let ?bs = "take (min (off + chunkSize) (length d) - off) (drop off d)"
    have "?bs \<noteq> []" using True by simp
    from arm_write [OF less.prems this] obtain s1 where
      wr: "io_Write io ?bs (armWrite io idle s) = Some ((length ?bs, None), s1)"
      and ok1: "ok s1" and sent1: "sent s1 = sent s @ ?bs" .
    have "length d - (off + chunkSize) < length d - off" using True by simp
    from less.hyps [OF this ok1] obtain s' where
      rest: "write_chunks io d idle (off + chunkSize) s1 = Some (Inr (), s')" "ok s'"
        "sent s' = sent s1 @ drop (off + chunkSize) d"
      by blast
    have "?bs @ drop (off + chunkSize) d = drop off d"
      using True by (cases "off + chunkSize \<le> length d")
        (simp_all add: min_def, metis append_take_drop_id drop_drop add.commute)
    with wr rest sent1 True show ?thesis by (subst write_chunks.simps) simp
  qed
qed

lemma WriteFrameWithTimeout_sent:
  assumes "ok s"
  shows "\<exists>s'. ok s' \<and>
    (if length d \<le> MaxFrameSize
     then WriteFrameWithTimeout io d idle s = Some (Inr (), s') \<and> sent s' = sent s @ encode_frame d
     else WriteFrameWithTimeout io d idle s = Some (Inl (frame_too_large (length d)), s') \<and> s' = s)"
proof (cases "length d \<le> MaxFrameSize")
  case False
  with assms show ?thesis by (auto simp: WriteFrameWithTimeout_def)
next
  case True
  have "be32_put (word_of_nat (length d)) \<noteq> []" by (simp add: be32_put_def)
  from arm_write [OF assms this] obtain s1 where
    "io_Write io (be32_put (word_of_nat (length d))) (armWrite io idle s) = Some ((4, None), s1)"
    "ok s1" "sent s1 = sent s @ be32_put (word_of_nat (length d))" by auto
  with write_chunks_sent [of s1 d 0] True show ?thesis
    by (auto simp: WriteFrameWithTimeout_def encode_frame_def)
qed

end

subsection \<open>Reading ends when the deadline says so\<close>

context deadline_reader
begin

lemma arm_ReadFull_by:
  assumes "0 < idle"
  obtains bs e s' where "ReadFull io n (armRead io idle s) = Some ((bs, e), s')" "length bs \<le> n"
    "io_Now io s \<le> io_Now io s'" "io_Now io s' \<le> io_Now io s + idle"
proof -
  have "dl (armRead io idle s) = Some (io_Now io s + idle)" "io_Now io (armRead io idle s) = io_Now io s"
    using assms by (simp_all add: armRead_def deadliner set_dl)
  with ReadFull_by [of "armRead io idle s" "io_Now io s + idle" n] assms that show ?thesis by auto
qed

lemma readFrameLength_by:
  assumes "0 < idle"
  shows "\<exists>r s'. readFrameLength io idle s = Some (r, s') \<and>
    io_Now io s \<le> io_Now io s' \<and> io_Now io s' \<le> io_Now io s + idle \<and>
    (\<forall>len. r = Inr len \<longrightarrow> unat len \<le> MaxFrameSize)"
proof -
  from arm_ReadFull_by [OF assms, of LengthPrefixSize s] obtain bs e s' where
    "ReadFull io LengthPrefixSize (armRead io idle s) = Some ((bs, e), s')"
    "io_Now io s \<le> io_Now io s'" "io_Now io s' \<le> io_Now io s + idle" by blast
  then show ?thesis
    by (cases e) (auto simp: readFrameLength_def Let_def word_less_nat_alt)
qed

lemma readLargeBody_loop_by:
  assumes "0 < idle"
  shows "\<exists>r s'. readLargeBody_loop io len idle acc s = Some (r, s') \<and> io_Now io s \<le> io_Now io s' \<and>
    io_Now io s' \<le> io_Now io s + idle * int ((len - length acc + 65535) div 65536)"
proof (induction "len - length acc" arbitrary: acc s rule: less_induct)
  case less
  show ?case
  proof (cases "length acc < len")
    case False
    then show ?thesis by (simp add: readLargeBody_loop.simps)
  next
    case True
    define w where "w = min chunkSize (len - length acc)"
    define k where "k = (len - length acc + 65535) div 65536"
    from arm_ReadFull_by [OF assms, of w s] obtain bs e s1 where
      rd: "ReadFull io w (armRead io idle s) = Some ((bs, e), s1)" and len: "length bs \<le> w"
      and now: "io_Now io s \<le> io_Now io s1" "io_Now io s1 \<le> io_Now io s + idle" by blast
    have k: "0 < k" using True by (auto simp: k_def)
    show ?thesis
    proof (cases e)
      case (Some err)
      have "idle * 1 \<le> idle * int k" using k assms by (intro mult_left_mono) auto
      with Some rd now True show ?thesis
        unfolding k_def by (subst readLargeBody_loop.simps) (auto simp: w_def)
    next
      case None
      then have "length bs = w" using rd len ReadFull_full by fastforce
      then have lt: "len - length (acc @ bs) < len - length acc"
        and kk: "Suc ((len - length (acc @ bs) + 65535) div 65536) = k"
        using True by (auto simp: w_def k_def min_def split: if_splits)
      from less.hyps [OF lt, of s1] obtain r s' where
        IH: "readLargeBody_loop io len idle (acc @ bs) s1 = Some (r, s')" "io_Now io s1 \<le> io_Now io s'"
        "io_Now io s' \<le> io_Now io s1 + idle * int ((len - length (acc @ bs) + 65535) div 65536)" by blast
      have "idle * int k = idle * int ((len - length (acc @ bs) + 65535) div 65536) + idle"
        unfolding kk [symmetric] by (simp add: algebra_simps)
      with IH None rd now True show ?thesis
        unfolding k_def by (subst readLargeBody_loop.simps) (auto simp: w_def)
    qed
  qed
qed

lemma ReadFrameWithTimeout_by:
  assumes "0 < idle"
  shows "\<exists>r s'. ReadFrameWithTimeout io idle s = Some (r, s') \<and> io_Now io s' \<le> io_Now io s + 161 * idle"
proof -
  from readFrameLength_by [OF assms] obtain r s1 where
    len: "readFrameLength io idle s = Some (r, s1)" "io_Now io s1 \<le> io_Now io s + idle"
      "\<forall>len. r = Inr len \<longrightarrow> unat len \<le> MaxFrameSize" by blast
  show ?thesis
  proof (cases r)
    case (Inl e)
    with len assms show ?thesis by (simp add: ReadFrameWithTimeout_def)
  next
    case (Inr w)
    from readLargeBody_loop_by [OF assms, of "unat w" "[]" s1] obtain r' s2 where
      body: "readLargeBody_loop io (unat w) idle [] s1 = Some (r', s2)"
        "io_Now io s2 \<le> io_Now io s1 + idle * int ((unat w + 65535) div 65536)" by auto
    have "unat w \<le> 10485760" using len(3) Inr by simp
    then have "(unat w + 65535) div 65536 \<le> (10485760 + 65535) div 65536" by (intro div_le_mono) simp
    then have "idle * int ((unat w + 65535) div 65536) \<le> idle * 160"
      using assms by (intro mult_left_mono) auto
    with body len Inr show ?thesis by (auto simp: ReadFrameWithTimeout_def readLargeBody_def)
  qed
qed

end

text \<open>
  A deadline the codec does not move, such as the instant at which the pipeline resets the stream:
  every part of a frame read is over by then.
\<close>

locale reset_reader = timed_reader io dl fuel
  for io :: "'s io_object" and dl :: "'s \<Rightarrow> time option" and fuel :: "'s \<Rightarrow> nat" +
  fixes idle :: duration
  assumes arm_dl: "dl (armRead io idle s) = dl s" "io_Now io (armRead io idle s) = io_Now io s"
begin

lemma arm_ReadFull_before:
  assumes "dl s = Some d" "io_Now io s \<le> d"
  obtains bs e s' where "ReadFull io n (armRead io idle s) = Some ((bs, e), s')"
    and "dl s' = Some d" and "io_Now io s' \<le> d"
  using ReadFull_by [of "armRead io idle s" d n] assms by (auto simp: arm_dl)

lemma readFrameLength_before:
  assumes "dl s = Some d" "io_Now io s \<le> d"
  shows "\<exists>r s'. readFrameLength io idle s = Some (r, s') \<and> dl s' = Some d \<and> io_Now io s' \<le> d"
  by (rule arm_ReadFull_before [OF assms, of LengthPrefixSize])
    (auto simp: readFrameLength_def Let_def split: option.split)

lemma readLargeBody_loop_before:
  assumes "dl s = Some d" "io_Now io s \<le> d"
  shows "\<exists>r s'. readLargeBody_loop io len idle acc s = Some (r, s') \<and> io_Now io s' \<le> d"
  using assms
proof (induction "len - length acc" arbitrary: acc s rule: less_induct)
  case less
  show ?case
  proof (cases "length acc < len")
    case True
    define m where "m = min chunkSize (len - length acc)"
    obtain bs e s' where rd: "ReadFull io m (armRead io idle s) = Some ((bs, e), s')" "dl s' = Some d" "io_Now io s' \<le> d"
      using less.prems by (rule arm_ReadFull_before)
    have more: "readLargeBody_loop io len idle acc s = (case e of
        None \<Rightarrow> readLargeBody_loop io len idle (acc @ bs) s'
      | Some err \<Rightarrow> Some (Inl (WrapError ''read frame data'' err), s'))"
      using rd True by (subst readLargeBody_loop.simps) (cases e; simp add: m_def)
    show ?thesis
    proof (cases e)
      case None
      then have "m \<le> length bs" using rd ReadFull_full by fastforce
      then have "len - length (acc @ bs) < len - length acc" using True by (auto simp: m_def min_def split: if_splits)
      from less.hyps [OF this rd(2,3)] None more show ?thesis by simp
    qed (use rd more in simp)
  qed (use less.prems in \<open>simp add: readLargeBody_loop.simps\<close>)
qed

lemma readBodyInto_loop_before:
  assumes "dl s = Some d" "io_Now io s \<le> d"
  shows "\<exists>r s' ps'. readBodyInto_loop io b n idle off s ps = Some (r, s', ps') \<and> io_Now io s' \<le> d"
  using assms
proof (induction "n - off" arbitrary: off s ps rule: less_induct)
  case less
  show ?case
  proof (cases "off < n")
    case True
    obtain bs e s' where
      rd: "ReadFull io (min (off + chunkSize) n - off) (armRead io idle s) = Some ((bs, e), s')"
        "dl s' = Some d" "io_Now io s' \<le> d"
      using less.prems by (rule arm_ReadFull_before)
    have "n - (off + chunkSize) < n - off" using True by simp
    from less.hyps [OF this rd(2,3), of "buf_write b off bs ps"] show ?thesis
      using rd True by (subst readBodyInto_loop.simps) (cases e; simp)
  qed (use less.prems in \<open>simp add: readBodyInto_loop.simps\<close>)
qed

lemma pooled_read_before:
  assumes "dl s = Some d" "io_Now io s \<le> d"
  shows "\<exists>r s' ps'. ReadFramePooledWithTimeout io ch idle s ps = Some (r, s', ps') \<and> io_Now io s' \<le> d"
proof -
  obtain h s1 where len: "readFrameLength io idle s = Some (h, s1)" "dl s1 = Some d" "io_Now io s1 \<le> d"
    using readFrameLength_before [OF assms] by blast
  show ?thesis
  proof (cases h)
    case (Inl e)
    with len show ?thesis by (simp add: ReadFramePooledWithTimeout_def)
  next
    case (Inr w)
    obtain rl sl where large: "readLargeBody io (unat w) idle s1 = Some (rl, sl)" "io_Now io sl \<le> d"
      using readLargeBody_loop_before [OF len(2,3), of "unat w" "[]"] unfolding readLargeBody_def by blast
    obtain gb ps1 where get: "Get ch (int (unat w)) ps = (gb, ps1)" by force
    have body: "\<exists>r s' ps'. readBodyInto io b idle s1 ps1 = Some (r, s', ps') \<and> io_Now io s' \<le> d" for b
      using readBodyInto_loop_before [OF len(2,3), of b "Len b ps1" 0 ps1] unfolding readBodyInto_def by blast
    show ?thesis
    proof (cases "tierLarge < int (unat w)")
      case True
      with len Inr large show ?thesis
        by (cases rl) (auto simp: ReadFramePooledWithTimeout_def split: prod.split)
    next
      case False
      show ?thesis
      proof (cases gb)
        case None
        with len Inr False get show ?thesis by (simp add: ReadFramePooledWithTimeout_def)
      next
        case (Some b)
        from body [of b] obtain r s' ps' where "readBodyInto io b idle s1 ps1 = Some (r, s', ps')" "io_Now io s' \<le> d"
          by blast
        with len Inr False get Some show ?thesis
          by (cases r) (auto simp: ReadFramePooledWithTimeout_def)
      qed
    qed
  qed
qed

end

end
