(* ===== verification/Forge_Test.thy ===== *)
theory Forge_Test
  imports Codec_Frame
begin

text \<open>
  The streams of \<^verbatim>\<open>src/forgetest\<close>: \<^verbatim>\<open>MockStream\<close> over two \<^verbatim>\<open>bytes.Buffer\<close>s (\<^verbatim>\<open>mock.go\<close>) and
  \<^verbatim>\<open>PipeStream\<close> over one end of a \<^verbatim>\<open>net.Pipe\<close> (\<^verbatim>\<open>pipe.go\<close>).  The peer of a pipe is a script of
  timed writes and a script of timed reads, so the model has a clock and the deadlines of the
  frame codec mean something.  Both streams interpret the locales of \<^verbatim>\<open>Go_IO\<close> and
  \<^verbatim>\<open>Codec_Frame\<close>; the properties of the codec are stated on them.
\<close>

subsection \<open>bytes.Buffer and MockStream\<close>

definition Buffer_Read :: "nat \<Rightarrow> byte list \<Rightarrow> ((byte list \<times> go_error option) \<times> byte list)" where
  "Buffer_Read n buf =
     (if buf = [] then (if n = 0 then (([], None), []) else (([], Some EOF), []))
      else ((take n buf, None), drop n buf))"

definition buffer_io :: "byte list io_object" where
  "buffer_io = \<lparr>io_Read = (\<lambda>n buf. Some (Buffer_Read n buf)),
     io_Write = (\<lambda>bs buf. Some ((length bs, None), buf @ bs)),
     io_SetReadDeadline = None, io_SetWriteDeadline = None, io_Now = (\<lambda>_. 0)\<rparr>"

text \<open>
  The connection of both test streams: it knows its remote peer and nothing happens on it.  Interface values
  that are nil are \<^const>\<open>None\<close>; the zero structs \<^verbatim>\<open>Stat\<close>, \<^verbatim>\<open>ConnState\<close> and \<^verbatim>\<open>Scope\<close> return are left out.
\<close>

record MockConn =
  mc_remotePeer :: peer_id

definition mc_RemotePeer :: "MockConn \<Rightarrow> peer_id" where [simp]: "mc_RemotePeer mc = mc_remotePeer mc"
definition mc_ID :: "MockConn \<Rightarrow> string" where "mc_ID mc = ''mock-conn-1''"
definition mc_Close :: "MockConn \<Rightarrow> go_error option \<times> MockConn" where "mc_Close mc = (None, mc)"
definition mc_CloseWithError :: "nat \<Rightarrow> MockConn \<Rightarrow> go_error option \<times> MockConn" where "mc_CloseWithError code mc = (None, mc)"
definition mc_IsClosed :: "MockConn \<Rightarrow> bool" where "mc_IsClosed mc = False"
definition mc_NewStream :: "MockConn \<Rightarrow> go_error + 's" where "mc_NewStream mc = Inl ErrClosedPipe"
definition mc_GetStreams :: "MockConn \<Rightarrow> 's list" where "mc_GetStreams mc = []"
definition mc_LocalPeer :: "MockConn \<Rightarrow> peer_id" where "mc_LocalPeer mc = []"
definition mc_RemotePublicKey :: "MockConn \<Rightarrow> 'k option" where "mc_RemotePublicKey mc = None"
definition mc_LocalMultiaddr :: "MockConn \<Rightarrow> 'ma option" where "mc_LocalMultiaddr mc = None"
definition mc_RemoteMultiaddr :: "MockConn \<Rightarrow> 'ma option" where "mc_RemoteMultiaddr mc = None"
definition mc_As :: "MockConn \<Rightarrow> bool" where "mc_As mc = False"

text \<open>
  \<^verbatim>\<open>GenerateTestPeerID\<close> drops the errors of libp2p's crypto package: \<open>GenerateEd25519Key\<close> is the key and error
  a call returns, \<open>IDFromPrivateKey\<close> maps a key to an id and an error.
\<close>

definition GenerateTestPeerID :: "'k \<times> go_error option \<Rightarrow> ('k \<Rightarrow> peer_id \<times> go_error option) \<Rightarrow> peer_id" where
  "GenerateTestPeerID GenerateEd25519Key IDFromPrivateKey = (let (priv, _) = GenerateEd25519Key; (i, _) = IDFromPrivateKey priv in i)"

record mock_stream =
  ReadBuf :: "byte list"
  WriteBuf :: "byte list"
  ms_conn :: MockConn
  ms_proto :: string
  ms_closed :: bool
  ms_now :: time

abbreviation ms_remotePeer :: "mock_stream \<Rightarrow> peer_id" where
  "ms_remotePeer ms \<equiv> mc_RemotePeer (ms_conn ms)"

definition NewMockStream :: "peer_id \<Rightarrow> byte list \<Rightarrow> time \<Rightarrow> mock_stream" where
  "NewMockStream peerID requestData t =
     \<lparr>ReadBuf = requestData, WriteBuf = [], ms_conn = \<lparr>mc_remotePeer = peerID\<rparr>, ms_proto = [],
      ms_closed = False, ms_now = t\<rparr>"

definition NewMockStreamWithFrame :: "peer_id \<Rightarrow> byte list \<Rightarrow> time \<Rightarrow> mock_stream option" where
  "NewMockStreamWithFrame peerID payload t =
     map_option (\<lambda>(r, buf). NewMockStream peerID buf t) (WriteFrame buffer_io payload [])"

definition ReadResponseFrame :: "mock_stream \<Rightarrow> (byte list, mock_stream) io_result" where
  "ReadResponseFrame ms =
     map_option (\<lambda>(r, buf). (r, ms\<lparr>WriteBuf := buf\<rparr>)) (ReadFrame buffer_io (WriteBuf ms))"

definition mock_Read :: "nat \<Rightarrow> mock_stream \<Rightarrow> ((byte list \<times> go_error option) \<times> mock_stream) option" where
  "mock_Read n ms = (let (r, buf) = Buffer_Read n (ReadBuf ms) in Some (r, ms\<lparr>ReadBuf := buf\<rparr>))"

definition mock_Write :: "byte list \<Rightarrow> mock_stream \<Rightarrow> ((nat \<times> go_error option) \<times> mock_stream) option" where
  "mock_Write bs ms = Some ((length bs, None), ms\<lparr>WriteBuf := WriteBuf ms @ bs\<rparr>)"

definition mock_Close :: "mock_stream \<Rightarrow> mock_stream" where
  "mock_Close ms = ms\<lparr>ms_closed := True\<rparr>"

definition mock_SetProtocol :: "string \<Rightarrow> mock_stream \<Rightarrow> mock_stream" where
  "mock_SetProtocol proto ms = ms\<lparr>ms_proto := proto\<rparr>"

definition mock_IsClosed :: "mock_stream \<Rightarrow> bool" where
  "mock_IsClosed ms = ms_closed ms"

text \<open>\<^verbatim>\<open>CloseRead\<close>, \<^verbatim>\<open>CloseWrite\<close>, \<^verbatim>\<open>Reset\<close> and \<^verbatim>\<open>ResetWithError\<close> do nothing on a mock stream.\<close>

definition mock_Reset :: "mock_stream \<Rightarrow> mock_stream" where
  "mock_Reset ms = ms"

definition mock_SetDeadline :: "time \<Rightarrow> mock_stream \<Rightarrow> mock_stream" where
  "mock_SetDeadline t ms = ms"

definition mock_io :: "mock_stream io_object" where
  "mock_io = \<lparr>io_Read = mock_Read, io_Write = mock_Write,
     io_SetReadDeadline = Some mock_SetDeadline, io_SetWriteDeadline = Some mock_SetDeadline,
     io_Now = ms_now\<rparr>"

interpretation buffer_honest: honest_reader buffer_io
  by unfold_locales (auto simp: buffer_io_def Buffer_Read_def split: if_splits)

interpretation mock_honest: honest_reader mock_io
  by unfold_locales (auto simp: mock_io_def mock_Read_def Buffer_Read_def split: if_splits)

interpretation buffer_source: frame_source buffer_io "\<lambda>_. True" "\<lambda>buf. buf" idle for idle
  by unfold_locales (auto simp: buffer_io_def Buffer_Read_def armRead_def)

interpretation buffer_sink: frame_sink buffer_io "\<lambda>_. True" "\<lambda>buf. buf" idle for idle
  by unfold_locales (auto simp: buffer_io_def armWrite_def)

text \<open>Reading a mock stream touches \<^verbatim>\<open>ReadBuf\<close> only, writing it touches \<^verbatim>\<open>WriteBuf\<close> only.\<close>

interpretation mock_source: frame_source mock_io "\<lambda>s. s\<lparr>ReadBuf := []\<rparr> = s0\<lparr>ReadBuf := []\<rparr>" ReadBuf idle for s0 idle
  by unfold_locales (auto simp: mock_io_def mock_Read_def Buffer_Read_def armRead_def mock_SetDeadline_def)

interpretation mock_sink: frame_sink mock_io "\<lambda>s. s\<lparr>WriteBuf := []\<rparr> = s0\<lparr>WriteBuf := []\<rparr>" WriteBuf idle for s0 idle
  by unfold_locales (auto simp: mock_io_def mock_Write_def armWrite_def mock_SetDeadline_def)

subsection \<open>PipeStream\<close>

datatype peer_event = PeerWrite time "byte list" | PeerClose time

text \<open>
  \<open>pp_in\<close> is what the peer does in order: writes, each issued at the given instant or when the
  write before it has been read, and possibly a close; a peer whose script is used up is silent.
  \<open>pp_accept\<close> are the peer's reads.  \<open>pp_reset\<close> is the instant at which somebody closes our end.
\<close>

record pipe_stream =
  pp_now :: time
  pp_in :: "peer_event list"
  pp_rdl :: "time option"
  pp_accept :: "(time \<times> nat) list"
  pp_wdl :: "time option"
  pp_out :: "byte list"
  pp_reset :: "time option"
  pp_conn :: MockConn
  pp_proto :: string

abbreviation pp_remotePeer :: "pipe_stream \<Rightarrow> peer_id" where
  "pp_remotePeer ps \<equiv> mc_RemotePeer (pp_conn ps)"

definition NewPipeStream :: "peer_id \<Rightarrow> peer_event list \<Rightarrow> (time \<times> nat) list \<Rightarrow> time \<Rightarrow> pipe_stream" where
  "NewPipeStream peerID script reads t =
     \<lparr>pp_now = t, pp_in = script, pp_rdl = None, pp_accept = reads, pp_wdl = None, pp_out = [],
      pp_reset = None, pp_conn = \<lparr>mc_remotePeer = peerID\<rparr>, pp_proto = []\<rparr>"

fun before :: "time option \<Rightarrow> time option \<Rightarrow> bool" where
  "before None _ = False"
| "before (Some a) None = True"
| "before (Some a) (Some b) = (a \<le> b)"

fun event_time :: "peer_event list \<Rightarrow> time option" where
  "event_time [] = None"
| "event_time (PeerWrite t bs # _) = Some t"
| "event_time (PeerClose t # _) = Some t"

fun close_time :: "peer_event list \<Rightarrow> time option" where
  "close_time (PeerClose t # _) = Some t"
| "close_time _ = None"

definition passed :: "time option \<Rightarrow> time \<Rightarrow> bool" where
  "passed d now = (case d of None \<Rightarrow> False | Some t \<Rightarrow> t \<le> now)"

definition first_of :: "time option \<Rightarrow> time option \<Rightarrow> time option" where
  "first_of a b = (if before a b then a else b)"

text \<open>What a blocked \<^verbatim>\<open>select\<close> of \<^verbatim>\<open>net.Pipe\<close> wakes up for.\<close>

datatype wake = Event time | Deadline time | Closed time | Never

definition pipe_wake :: "time \<Rightarrow> time option \<Rightarrow> time option \<Rightarrow> time option \<Rightarrow> wake" where
  "pipe_wake now cl d ev =
     (let e = map_option (max now) ev in
      if before cl d \<and> before cl e then Closed (max now (the cl))
      else if before d e then Deadline (the d)
      else case e of Some t \<Rightarrow> Event t | None \<Rightarrow> Never)"

definition pipe_Read :: "nat \<Rightarrow> pipe_stream \<Rightarrow> ((byte list \<times> go_error option) \<times> pipe_stream) option" where
  "pipe_Read n s =
     (if passed (pp_reset s) (pp_now s) then Some (([], Some ErrClosedPipe), s)
      else if passed (close_time (pp_in s)) (pp_now s) then Some (([], Some EOF), s)
      else if passed (pp_rdl s) (pp_now s) then Some (([], Some ErrDeadlineExceeded), s)
      else case pipe_wake (pp_now s) (pp_reset s) (pp_rdl s) (event_time (pp_in s)) of
        Never \<Rightarrow> None
      | Closed t \<Rightarrow> Some (([], Some ErrClosedPipe), s\<lparr>pp_now := t\<rparr>)
      | Deadline t \<Rightarrow> Some (([], Some ErrDeadlineExceeded), s\<lparr>pp_now := t\<rparr>)
      | Event t \<Rightarrow>
          (case pp_in s of
             PeerWrite _ bs # rest \<Rightarrow>
               Some ((take n bs, None),
                 s\<lparr>pp_now := t, pp_in := (if n < length bs then PeerWrite t (drop n bs) # rest else rest)\<rparr>)
           | _ \<Rightarrow> Some (([], Some EOF), s\<lparr>pp_now := t\<rparr>)))"

fun pipe_write_loop ::
  "(time \<times> nat) list \<Rightarrow> byte list \<Rightarrow> nat \<Rightarrow> pipe_stream \<Rightarrow> ((nat \<times> go_error option) \<times> pipe_stream) option" where
  "pipe_write_loop reads bs n s =
     (case pipe_wake (pp_now s) (first_of (pp_reset s) (close_time (pp_in s))) (pp_wdl s)
             (case reads of [] \<Rightarrow> None | r # _ \<Rightarrow> Some (fst r)) of
        Never \<Rightarrow> None
      | Closed t \<Rightarrow> Some ((n, Some ErrClosedPipe), s\<lparr>pp_now := t\<rparr>)
      | Deadline t \<Rightarrow> Some ((n, Some ErrDeadlineExceeded), s\<lparr>pp_now := t\<rparr>)
      | Event t \<Rightarrow>
          (case reads of
             [] \<Rightarrow> None
           | r # rest \<Rightarrow>
               (let m = min (snd r) (length bs);
                    s' = s\<lparr>pp_now := t, pp_accept := rest, pp_out := pp_out s @ take m bs\<rparr>
                in if m = length bs then Some ((n + m, None), s')
                   else pipe_write_loop rest (drop m bs) (n + m) s')))"

declare pipe_write_loop.simps [simp del]

definition pipe_Write :: "byte list \<Rightarrow> pipe_stream \<Rightarrow> ((nat \<times> go_error option) \<times> pipe_stream) option" where
  "pipe_Write bs s =
     (if passed (pp_reset s) (pp_now s) then Some ((0, Some ErrClosedPipe), s)
      else if passed (close_time (pp_in s)) (pp_now s) then Some ((0, Some ErrClosedPipe), s)
      else if passed (pp_wdl s) (pp_now s) then Some ((0, Some ErrDeadlineExceeded), s)
      else pipe_write_loop (pp_accept s) bs 0 s)"

definition pipe_SetReadDeadline :: "time \<Rightarrow> pipe_stream \<Rightarrow> pipe_stream" where
  "pipe_SetReadDeadline t s = s\<lparr>pp_rdl := Some t\<rparr>"

definition pipe_SetWriteDeadline :: "time \<Rightarrow> pipe_stream \<Rightarrow> pipe_stream" where
  "pipe_SetWriteDeadline t s = s\<lparr>pp_wdl := Some t\<rparr>"

definition pipe_SetDeadline :: "time \<Rightarrow> pipe_stream \<Rightarrow> pipe_stream" where
  "pipe_SetDeadline t s = s\<lparr>pp_rdl := Some t, pp_wdl := Some t\<rparr>"

definition pipe_SetProtocol :: "string \<Rightarrow> pipe_stream \<Rightarrow> pipe_stream" where
  "pipe_SetProtocol proto s = s\<lparr>pp_proto := proto\<rparr>"

definition pipe_IsClosed :: "pipe_stream \<Rightarrow> bool" where
  "pipe_IsClosed s = False"

definition pipe_Close :: "pipe_stream \<Rightarrow> pipe_stream" where
  "pipe_Close s = s\<lparr>pp_reset := first_of (pp_reset s) (Some (pp_now s))\<rparr>"

definition pipe_Reset :: "pipe_stream \<Rightarrow> pipe_stream" where
  "pipe_Reset s = pipe_Close s"

definition pipe_io :: "pipe_stream io_object" where
  "pipe_io = \<lparr>io_Read = pipe_Read, io_Write = pipe_Write,
     io_SetReadDeadline = Some pipe_SetReadDeadline,
     io_SetWriteDeadline = Some pipe_SetWriteDeadline, io_Now = pp_now\<rparr>"

lemma pipe_io_simps [simp]:
  "io_Read pipe_io = pipe_Read" "io_Write pipe_io = pipe_Write" "io_Now pipe_io = pp_now"
  "io_SetReadDeadline pipe_io = Some pipe_SetReadDeadline"
  "io_SetWriteDeadline pipe_io = Some pipe_SetWriteDeadline"
  by (simp_all add: pipe_io_def)

lemma pipe_Read_by:
  assumes "pp_rdl s = Some d" "pp_now s \<le> d"
  shows "\<exists>bs e s'. pipe_Read n s = Some ((bs, e), s') \<and> length bs \<le> n \<and> pp_rdl s' = Some d \<and>
    pp_now s \<le> pp_now s' \<and> pp_now s' \<le> d \<and>
    (e = None \<longrightarrow> length bs < n \<longrightarrow> length (pp_in s') < length (pp_in s))"
proof (cases "pp_in s")
  case Nil
  with assms show ?thesis
    by (cases "pp_reset s") (auto simp: pipe_Read_def pipe_wake_def passed_def Let_def)
next
  case (Cons ev rest)
  then show ?thesis
    using assms by (cases ev; cases "pp_reset s") (auto simp: pipe_Read_def pipe_wake_def passed_def Let_def)
qed

interpretation pipe_deadline: deadline_reader pipe_io pp_rdl "\<lambda>s. length (pp_in s)" pipe_SetReadDeadline
  by unfold_locales (use pipe_Read_by in \<open>auto simp: pipe_SetReadDeadline_def\<close>)

text \<open>The instant at which our end is closed bounds every read too, armed deadline or not.\<close>

lemma pipe_Read_before_reset:
  assumes "pp_reset s = Some d" "pp_now s \<le> d"
  shows "\<exists>bs e s'. pipe_Read n s = Some ((bs, e), s') \<and> length bs \<le> n \<and> pp_reset s' = Some d \<and>
    pp_now s \<le> pp_now s' \<and> pp_now s' \<le> d \<and>
    (e = None \<longrightarrow> length bs < n \<longrightarrow> length (pp_in s') < length (pp_in s))"
proof (cases "pp_in s")
  case Nil
  with assms show ?thesis
    by (cases "pp_rdl s") (auto simp: pipe_Read_def pipe_wake_def passed_def Let_def)
next
  case (Cons ev rest)
  then show ?thesis
    using assms by (cases ev; cases "pp_rdl s") (auto simp: pipe_Read_def pipe_wake_def passed_def Let_def)
qed

interpretation pipe_reset: reset_reader pipe_io pp_reset "\<lambda>s. length (pp_in s)" idle for idle
  by unfold_locales (use pipe_Read_before_reset in \<open>auto simp: armRead_def pipe_SetReadDeadline_def\<close>)

interpretation pipe_honest: honest_reader pipe_io
  by unfold_locales
    (auto simp: pipe_Read_def split: if_splits wake.splits list.splits peer_event.splits)

text \<open>A peer that writes some non-empty pieces and closes, on a pipe without a deadline.\<close>

fun script_ok :: "peer_event list \<Rightarrow> bool" where
  "script_ok [] = False"
| "script_ok (PeerClose t # rest) = True"
| "script_ok (PeerWrite t bs # rest) = (bs \<noteq> [] \<and> script_ok rest)"

fun script_bytes :: "peer_event list \<Rightarrow> byte list" where
  "script_bytes [] = []"
| "script_bytes (PeerClose t # rest) = []"
| "script_bytes (PeerWrite t bs # rest) = bs @ script_bytes rest"

definition patient_pipe :: "pipe_stream \<Rightarrow> bool" where
  "patient_pipe s \<longleftrightarrow> pp_rdl s = None \<and> pp_reset s = None \<and> script_ok (pp_in s)"

abbreviation pipe_pending :: "pipe_stream \<Rightarrow> byte list" where
  "pipe_pending s \<equiv> script_bytes (pp_in s)"

lemma pipe_Read_some:
  assumes "patient_pipe s" "pipe_pending s \<noteq> []" "0 < n"
  shows "\<exists>bs s'. pipe_Read n s = Some ((bs, None), s') \<and> patient_pipe s' \<and> length bs \<le> n \<and>
    pipe_pending s = bs @ pipe_pending s' \<and> bs \<noteq> []"
  using assms
  by (cases "pp_in s" rule: script_ok.cases)
    (auto simp: pipe_Read_def pipe_wake_def passed_def patient_pipe_def Let_def)

lemma pipe_Read_eof:
  assumes "patient_pipe s" "pipe_pending s = []"
  shows "\<exists>s'. pipe_Read n s = Some (([], Some EOF), s') \<and> patient_pipe s' \<and> pipe_pending s' = []"
  using assms
  by (cases "pp_in s" rule: script_ok.cases)
    (auto simp: pipe_Read_def pipe_wake_def passed_def patient_pipe_def Let_def)

interpretation pipe_source: frame_source pipe_io patient_pipe pipe_pending 0
  by unfold_locales (auto simp: pipe_Read_some pipe_Read_eof armRead_def)

subsection \<open>Sequences of frames\<close>

fun write_frames :: "'s io_object \<Rightarrow> byte list list \<Rightarrow> 's \<Rightarrow> 's option" where
  "write_frames io [] s = Some s"
| "write_frames io (d # ds) s =
     (case WriteFrame io d s of Some (Inr _, s') \<Rightarrow> write_frames io ds s' | _ \<Rightarrow> None)"

fun read_frames :: "'s io_object \<Rightarrow> nat \<Rightarrow> 's \<Rightarrow> (byte list list \<times> 's) option" where
  "read_frames io 0 s = Some ([], s)"
| "read_frames io (Suc n) s =
     (case ReadFrame io s of
        Some (Inr d, s') \<Rightarrow> map_option (apfst ((#) d)) (read_frames io n s')
      | _ \<Rightarrow> None)"

definition frame_ok :: "byte list \<Rightarrow> bool" where
  "frame_ok d \<longleftrightarrow> d \<noteq> [] \<and> length d \<le> MaxFrameSize"

lemma buffer_WriteFrame:
  "length d \<le> MaxFrameSize \<Longrightarrow> WriteFrame buffer_io d buf = Some (Inr (), buf @ encode_frame d)"
  using buffer_sink.WriteFrameWithTimeout_sent [where idle = 0 and s = buf and d = d] by (auto simp: WriteFrame_def)

lemma buffer_ReadFrame:
  "ReadFrame buffer_io buf = Some (parse_frame buf)"
  using buffer_source.ReadFrameWithTimeout_parse [where idle = 0 and s = buf] by (auto simp: ReadFrame_def prod_eq_iff)

lemma write_frames_buffer:
  "\<forall>d \<in> set ds. frame_ok d \<Longrightarrow>
   write_frames buffer_io ds buf = Some (buf @ concat (map encode_frame ds))"
  by (induction ds arbitrary: buf) (auto simp: buffer_WriteFrame frame_ok_def)

lemma read_frames_buffer:
  "\<forall>d \<in> set ds. frame_ok d \<Longrightarrow>
   read_frames buffer_io (length ds) (concat (map encode_frame ds) @ rest) = Some (ds, rest)"
  by (induction ds) (auto simp: buffer_ReadFrame parse_encode frame_ok_def)

subsection \<open>Peers and the clock\<close>

lemmas frame_eval = ReadFrameWithTimeout_def readFrameLength_def readLargeBody_def ReadFull_def armRead_def
  pipe_SetReadDeadline_def pipe_Read_def passed_def pipe_wake_def Let_def NewPipeStream_def

text \<open>
  \<open>chunked d cs\<close>: the pieces \<open>cs\<close> are the 64 KB chunks of \<open>d\<close>.  \<open>timed idle now ts\<close>: each of the
  instants comes less than \<open>idle\<close> after the one before.
\<close>

fun chunked :: "byte list \<Rightarrow> byte list list \<Rightarrow> bool" where
  "chunked d [] = (d = [])"
| "chunked d (c # cs) = (d \<noteq> [] \<and> c = take chunkSize d \<and> chunked (drop chunkSize d) cs)"

fun timed :: "duration \<Rightarrow> time \<Rightarrow> time list \<Rightarrow> bool" where
  "timed idle now [] = True"
| "timed idle now (t # ts) = (t < now + idle \<and> now \<le> t \<and> timed idle t ts)"

lemma ReadFull_whole_write:
  assumes "0 < idle" "pp_reset s = None" "pp_in s = PeerWrite t bs # rest" "pp_now s \<le> t"
    "t < pp_now s + idle" "length bs = n" "0 < n"
  shows "ReadFull pipe_io n (armRead pipe_io idle s) =
    Some ((bs, None), s\<lparr>pp_rdl := Some (pp_now s + idle), pp_now := t, pp_in := rest\<rparr>)"
  using assms by (auto simp: ReadFull_def read_loop.simps frame_eval)

lemma readLargeBody_on_time:
  assumes "0 < idle" "pp_reset s = None" "pp_in s = map2 PeerWrite ts cs" "length ts = length cs"
    "timed idle (pp_now s) ts" "chunked d cs"
  shows "\<exists>s'. readLargeBody_loop pipe_io (length acc + length d) idle acc s = Some (Inr (acc @ d), s') \<and> pp_in s' = []"
  using assms
proof (induction cs arbitrary: d acc s ts)
  case Nil
  then show ?case by (simp add: readLargeBody_loop.simps)
next
  case (Cons c cs)
  from Cons.prems obtain t ts' where ts: "ts = t # ts'" by (cases ts) auto
  let ?n = "min chunkSize (length d)"
  let ?s1 = "s\<lparr>pp_rdl := Some (pp_now s + idle), pp_now := t, pp_in := map2 PeerWrite ts' cs\<rparr>"
  have d: "d \<noteq> []" "c = take chunkSize d" "length c = ?n" "0 < ?n" "chunked (drop chunkSize d) cs" using Cons.prems by auto
  have rd: "ReadFull pipe_io ?n (armRead pipe_io idle s) = Some ((c, None), ?s1)"
    using Cons.prems ts d by (intro ReadFull_whole_write) auto
  have eq: "readLargeBody_loop pipe_io (length acc + length d) idle acc s =
      readLargeBody_loop pipe_io (length (acc @ c) + length (drop chunkSize d)) idle (acc @ c) ?s1"
    using rd d(1,3) by (subst readLargeBody_loop.simps) (simp add: min_def)
  have "\<exists>s'. readLargeBody_loop pipe_io (length (acc @ c) + length (drop chunkSize d)) idle (acc @ c) ?s1 =
      Some (Inr ((acc @ c) @ drop chunkSize d), s') \<and> pp_in s' = []"
    using Cons.prems ts d by (intro Cons.IH) auto
  moreover have "(acc @ c) @ drop chunkSize d = acc @ d" using d(2) by simp
  ultimately show ?case unfolding eq by simp
qed

text \<open>A peer that sends a two-byte frame one byte at a time, each just inside the idle interval.\<close>

definition slow_peer :: "duration \<Rightarrow> (time \<times> byte list) list" where
  "slow_peer idle = [(0, [0, 0, 0, 2]), (idle - 1, [7]), (2 * (idle - 1), [8])]"

subsection \<open>Properties of the frame codec\<close>

text \<open>
  C2.  Round trip of the framing: a sequence of non-empty payloads of at most \<^verbatim>\<open>MaxFrameSize\<close>
  bytes written with \<^verbatim>\<open>WriteFrame\<close> and read back with as many \<^verbatim>\<open>ReadFrame\<close>s comes out unchanged
  and in order, and nothing is left over.
\<close>

theorem frame_sequence_roundtrip:
  assumes "\<forall>d \<in> set ds. frame_ok d"
  shows "\<exists>buf. write_frames buffer_io ds [] = Some buf \<and>
    read_frames buffer_io (length ds) buf = Some (ds, [])"
  using write_frames_buffer [OF assms, of "[]"] read_frames_buffer [OF assms, of "[]"] by simp

theorem frame_sequence_roundtrip_witness:
  "\<exists>buf. write_frames buffer_io [[1], [2, 3]] [] = Some buf \<and>
    read_frames buffer_io (Suc (Suc 0)) buf = Some ([[1], [2, 3]], [])"
  using frame_sequence_roundtrip [of "[[1], [2, 3]]"] by (simp add: frame_ok_def)

text \<open>
  C5.  Reading is independent of how the bytes arrive.  On a pipe with no read deadline and no reset, whose
  peer writes non-empty pieces and closes its end some time, whatever these pieces are and whenever
  they are written, \<^verbatim>\<open>ReadFrame\<close> returns exactly what \<open>parse_frame\<close> makes of the whole byte sequence,
  errors included, and leaves exactly the bytes after the frame.
\<close>

theorem ReadFrame_refines_parse_frame:
  assumes "patient_pipe s"
  shows "\<exists>s'. ReadFrame pipe_io s = Some (fst (parse_frame (pipe_pending s)), s') \<and>
    patient_pipe s' \<and> pipe_pending s' = snd (parse_frame (pipe_pending s))"
  using pipe_source.ReadFrameWithTimeout_parse [OF assms] by (auto simp: ReadFrame_def)

theorem ReadFrame_refines_parse_frame_witness:
  "\<exists>s'. ReadFrame pipe_io (NewPipeStream ''p''
      [PeerWrite 5 [0, 0], PeerWrite 9 [0, 2, 7], PeerWrite 9 [8, 9], PeerClose 10] [] 0) =
    Some (Inr [7, 8], s') \<and> pipe_pending s' = [9]"
  using ReadFrame_refines_parse_frame [of "NewPipeStream ''p''
      [PeerWrite 5 [0, 0], PeerWrite 9 [0, 2, 7], PeerWrite 9 [8, 9], PeerClose 10] [] 0"]
  by (auto simp: NewPipeStream_def patient_pipe_def parse_frame_def Let_def)

text \<open>
  C26.  A pooled read agrees with the same specification and keeps the pool sound.  On a pipe with no read
  deadline and no reset, whose peer writes non-empty pieces and closes its end some time: on success there
  is exactly one more buffer, unreleased, whose bytes are the payload; on any error the buffers
  still unreleased are the ones that were before, so an error leaks no buffer.
\<close>

theorem ReadFramePooled_spec:
  assumes "patient_pipe s" "pool_reachable ps"
  shows "\<exists>r s' ps'. ReadFramePooled pipe_io ch s ps = Some (r, s', ps') \<and> pool_reachable ps' \<and>
    pipe_pending s' = snd (parse_frame (pipe_pending s)) \<and>
    (case fst (parse_frame (pipe_pending s)) of
       Inl e \<Rightarrow> r = Inl e \<and> live ps' = live ps
     | Inr d \<Rightarrow> r = Inr (length (ps_bufs ps)) \<and> Bytes (length (ps_bufs ps)) ps' = d \<and>
         length (ps_bufs ps') = Suc (length (ps_bufs ps)) \<and>
         \<not> pb_released (ps_bufs ps' ! length (ps_bufs ps)))"
  using pipe_source.ReadFramePooledWithTimeout_parse [OF assms, of ch]
  unfolding ReadFramePooled_def by blast

theorem ReadFramePooled_spec_witness:
  "\<exists>s' ps'. ReadFramePooled pipe_io None
      (NewPipeStream ''p'' [PeerWrite 5 [0, 0], PeerWrite 9 [0, 2, 7], PeerClose 10] [] 0) init_pool_state =
    Some (Inl (WrapError ''read frame data'' ErrUnexpectedEOF), s', ps') \<and> live ps' = {#}"
  using ReadFramePooled_spec [of "NewPipeStream ''p'' [PeerWrite 5 [0, 0], PeerWrite 9 [0, 2, 7], PeerClose 10] [] 0",
      OF _ pool_reachable.start, of None]
  by (auto simp: NewPipeStream_def patient_pipe_def parse_frame_def Let_def init_pool_state_def live_def)

text \<open>
  C25.  With an idle timeout no peer can hold a reader: whatever the peer does or does not send,
  \<^verbatim>\<open>ReadFrameWithTimeout\<close> on a stream that honours deadlines returns, at most \<open>161\<close> idle
  intervals after it was called (one for the prefix and one per 64 KB chunk of a maximal frame).
\<close>

theorem ReadFrameWithTimeout_returns:
  assumes "0 < idle"
  shows "\<exists>r s'. ReadFrameWithTimeout pipe_io idle s = Some (r, s') \<and> pp_now s' \<le> pp_now s + 161 * idle"
  using pipe_deadline.ReadFrameWithTimeout_by [OF assms, of s] by simp

theorem ReadFrameWithTimeout_returns_witness:
  "\<exists>r s'. ReadFrameWithTimeout pipe_io Second (NewPipeStream ''p'' [] [] 0) = Some (r, s') \<and>
     pp_now s' \<le> 161 * Second"
  using ReadFrameWithTimeout_returns [of Second "NewPipeStream ''p'' [] [] 0"]
  by (simp add: NewPipeStream_def Second_def)

text \<open>
  C27.  A peer that delivers the prefix and then every 64 KB chunk of a frame less than the idle
  interval after the piece before it is never cut off, however long the transfer takes.
\<close>

theorem timely_chunks_are_read:
  assumes "0 < idle" "frame_ok d" "chunked d cs" "length ts = length cs" "timed idle t0 ts"
  shows "\<exists>s'. ReadFrameWithTimeout pipe_io idle
      (NewPipeStream p (PeerWrite t0 (be32_put (word_of_nat (length d))) # map2 PeerWrite ts cs) [] t0)
    = Some (Inr d, s') \<and> pp_in s' = []"
proof -
  let ?w = "word_of_nat (length d) :: 32 word"
  let ?s = "NewPipeStream p (PeerWrite t0 (be32_put ?w) # map2 PeerWrite ts cs) [] t0"
  let ?s1 = "?s\<lparr>pp_rdl := Some (t0 + idle), pp_now := t0, pp_in := map2 PeerWrite ts cs\<rparr>"
  have w: "unat ?w = length d" "length d \<noteq> 0" "length d \<le> 10485760" using assms(2) by (simp_all add: frame_ok_def)
  then have w0: "?w \<noteq> 0" by (metis unat_0)
  have "ReadFull pipe_io 4 (armRead pipe_io idle ?s) = Some ((be32_put ?w, None), ?s1)"
    using assms ReadFull_whole_write [of idle ?s t0 "be32_put ?w" "map2 PeerWrite ts cs" 4] by (simp add: NewPipeStream_def)
  then have len: "readFrameLength pipe_io idle ?s = Some (Inr ?w, ?s1)"
    using w w0 by (simp add: readFrameLength_def word_less_nat_alt)
  have "\<exists>s'. readLargeBody_loop pipe_io (length ([] :: byte list) + length d) idle [] ?s1 = Some (Inr ([] @ d), s') \<and> pp_in s' = []"
    using assms by (intro readLargeBody_on_time) (auto simp: NewPipeStream_def)
  then show ?thesis using len w by (simp add: ReadFrameWithTimeout_def readLargeBody_def)
qed

theorem timely_chunks_are_read_witness:
  "\<exists>s'. ReadFrameWithTimeout pipe_io Second
      (NewPipeStream ''p'' (PeerWrite 0 (be32_put (word_of_nat (length [5 :: byte, 6]))) #
         map2 PeerWrite [999999999] [[5, 6]]) [] 0) = Some (Inr [5, 6], s') \<and> pp_in s' = []"
  by (rule timely_chunks_are_read) (simp_all add: frame_ok_def Second_def)

text \<open>
  C30.  The idle deadline is refreshed per 64 KB chunk, not per byte received: for every idle
  timeout there is a peer that never pauses as long as the idle interval and is nevertheless cut
  off with a deadline error, one interval after the prefix.
\<close>

theorem slow_live_peer_is_cut_off:
  assumes "2 \<le> idle"
  shows "timed idle 0 (map fst (slow_peer idle)) \<and>
    parse_frame (concat (map snd (slow_peer idle))) = (Inr [7, 8], []) \<and>
    (\<exists>s'. ReadFrameWithTimeout pipe_io idle
        (NewPipeStream p (map (\<lambda>(t, bs). PeerWrite t bs) (slow_peer idle)) [] 0) =
      Some (Inl (WrapError ''read frame data'' ErrDeadlineExceeded), s') \<and> pp_now s' = idle)"
proof (intro conjI)
  show "timed idle 0 (map fst (slow_peer idle))"
    using assms by (simp add: slow_peer_def)
  show "parse_frame (concat (map snd (slow_peer idle))) = (Inr [7, 8], [])"
    by (simp add: slow_peer_def parse_frame_def)
  show "\<exists>s'. ReadFrameWithTimeout pipe_io idle
        (NewPipeStream p (map (\<lambda>(t, bs). PeerWrite t bs) (slow_peer idle)) [] 0) =
      Some (Inl (WrapError ''read frame data'' ErrDeadlineExceeded), s') \<and> pp_now s' = idle"
    using assms
    by (simp add: frame_eval slow_peer_def read_loop.simps readLargeBody_loop.simps)
qed

theorem slow_live_peer_is_cut_off_witness:
  "\<exists>s'. ReadFrameWithTimeout pipe_io (30 * Second)
        (NewPipeStream ''p'' (map (\<lambda>(t, bs). PeerWrite t bs) (slow_peer (30 * Second))) [] 0) =
      Some (Inl (WrapError ''read frame data'' ErrDeadlineExceeded), s') \<and> pp_now s' = 30 * Second"
proof -
  have "2 \<le> 30 * Second" by (simp add: Second_def)
  from slow_live_peer_is_cut_off [OF this, of "''p''"] show ?thesis by blast
qed

end
