(* ===== verification/Float64.thy ===== *)
theory Float64
  imports Complex_Main "HOL-Library.Log_Nat" Forge_Prelude
begin

text \<open>
  Go's \<^verbatim>\<open>float64\<close> as the token bucket uses it: a value is the rational number it denotes and every
  arithmetic operation is the exact result rounded to 53 significant bits, ties to even
  (\<open>fl64\<close>).  The exponent is unbounded: the quantities of the limiter, counts and nanoseconds of at
  most 64 bits and their quotients, stay far from overflow and underflow.  The locale \<open>rounding\<close>
  holds what the proofs use of it: monotone, exact on small integers and on its own results, and
  within half a unit in the last place.
\<close>

definition pow2 :: "int \<Rightarrow> rat" where
  "pow2 k = (if 0 \<le> k then 2 ^ nat k else 1 / 2 ^ nat (- k))"

lemma pow2_powi: "pow2 k = 2 powi k"
proof (cases "0 \<le> k")
  case True
  then show ?thesis unfolding pow2_def power_int_def by simp
next
  case False
  then show ?thesis unfolding pow2_def power_int_def by (simp only: if_False power_one_over inverse_eq_divide)
qed

lemma pow2_pos [simp]: "0 < pow2 k"
  by (simp add: pow2_powi)

lemma abs_pow2 [simp]: "\<bar>pow2 k\<bar> = pow2 k"
  using pow2_pos [of k] by linarith

lemma pow2_add: "pow2 (a + b) = pow2 a * pow2 b"
  by (simp add: pow2_powi power_int_add)

lemma pow2_minus: "pow2 (- k) * pow2 k = 1"
  using pow2_add [of "- k" k] by (simp add: pow2_def)

lemma pow2_mono: "a \<le> b \<Longrightarrow> pow2 a \<le> pow2 b"
  by (simp add: pow2_powi power_int_increasing)

text \<open>The binary exponent of a positive rational.\<close>

definition expo :: "rat \<Rightarrow> int" where
  "expo x =
     (let (n, d) = quotient_of x;
          e = int (floorlog 2 (nat n)) - int (floorlog 2 (nat d))
      in if pow2 e \<le> x then e else e - 1)"

lemma floorlog2_bounds:
  assumes "0 < n"
  shows "pow2 (int (floorlog 2 (nat n)) - 1) \<le> of_int n" and "of_int n < pow2 (int (floorlog 2 (nat n)))"
proof -
  let ?f = "floorlog 2 (nat n)"
  have b: "2 ^ (?f - 1) \<le> nat n" "nat n < 2 ^ ?f"
    using floorlog_bounds [of "nat n" 2] assms by auto
  have f: "0 < ?f" using assms by (simp add: floorlog_def)
  have "(2::rat) ^ (?f - 1) = of_nat (2 ^ (?f - 1))" by simp
  also have "\<dots> \<le> of_nat (nat n)" using b(1) of_nat_le_iff by blast
  also have "\<dots> = of_int n" using assms by simp
  finally show "pow2 (int ?f - 1) \<le> of_int n"
    using f by (simp add: pow2_def nat_diff_distrib)
  have "of_int n = (of_nat (nat n) :: rat)" using assms by simp
  also have "\<dots> < of_nat (2 ^ ?f)" using b(2) of_nat_less_iff by blast
  finally show "of_int n < pow2 (int ?f)" by (simp add: pow2_def)
qed

lemma expo_bounds:
  assumes "0 < x"
  shows "pow2 (expo x) \<le> x" and "x < pow2 (expo x + 1)"
proof -
  obtain n d where q: "quotient_of x = (n, d)" by force
  have d: "0 < d" and x: "x = of_int n / of_int d"
    using q quotient_of_denom_pos quotient_of_div by blast+
  with assms have n: "0 < n" by (simp add: zero_less_divide_iff)
  let ?a = "int (floorlog 2 (nat n))" and ?b = "int (floorlog 2 (nat d))"
  note bn = floorlog2_bounds [OF n] and bd = floorlog2_bounds [OF d]
  have dpos: "(0::rat) < of_int d" using d by simp
  have up: "x < pow2 (?a - ?b + 1)"
  proof -
    have "pow2 (?a - ?b + 1) * pow2 (?b - 1) \<le> pow2 (?a - ?b + 1) * of_int d"
      using bd(1) by (intro mult_left_mono) (auto simp: less_imp_le)
    then have "of_int n < pow2 (?a - ?b + 1) * of_int d"
      using bn(2) by (simp add: pow2_add [symmetric])
    then show ?thesis using dpos by (simp add: x pos_divide_less_eq)
  qed
  have lo: "pow2 (?a - ?b - 1) \<le> x"
  proof -
    have "pow2 (?a - ?b - 1) * of_int d \<le> pow2 (?a - ?b - 1) * pow2 ?b"
      using bd(2) by (intro mult_left_mono) (auto simp: less_imp_le)
    also have "\<dots> \<le> of_int n" using bn(1) by (simp add: pow2_add [symmetric])
    finally show ?thesis using dpos by (simp add: x pos_le_divide_eq)
  qed
  from up lo show "pow2 (expo x) \<le> x" and "x < pow2 (expo x + 1)"
    by (auto simp: expo_def q Let_def not_le)
qed

lemma expo_unique:
  assumes "pow2 e \<le> x" "x < pow2 (e + 1)"
  shows "expo x = e"
proof -
  have "0 < x" using assms(1) pow2_pos [of e] by linarith
  note b = expo_bounds [OF this]
  have "\<not> expo x + 1 \<le> e" using b(2) assms(1) pow2_mono by (meson leD order_trans)
  moreover have "\<not> e + 1 \<le> expo x" using b(1) assms(2) pow2_mono by (meson leD order_trans)
  ultimately show ?thesis by simp
qed

text \<open>Rounding to the nearest integer, ties to the even one.\<close>

definition round_even :: "rat \<Rightarrow> int" where
  "round_even x =
     (let f = \<lfloor>x\<rfloor>; r = x - of_int f
      in if r < 1 / 2 then f else if 1 / 2 < r then f + 1 else if even f then f else f + 1)"

lemma round_even_of_int [simp]: "round_even (of_int n) = n"
  by (simp add: round_even_def)

lemma round_even_error: "\<bar>of_int (round_even x) - x\<bar> \<le> 1 / 2"
proof -
  define f r where "f = \<lfloor>x\<rfloor>" and "r = x - of_int f"
  have r: "0 \<le> r" "r < 1" using floor_correct [of x] by (simp_all add: f_def r_def)
  have "round_even x = (if r < 1 / 2 then f else if 1 / 2 < r then f + 1 else if even f then f else f + 1)"
    by (simp add: round_even_def Let_def f_def r_def)
  moreover have "x = of_int f + r" by (simp add: r_def)
  ultimately show ?thesis using r by (auto simp: abs_le_iff)
qed

lemma round_even_mono:
  assumes "x \<le> y"
  shows "round_even x \<le> round_even y"
proof (cases "\<lfloor>x\<rfloor> = \<lfloor>y\<rfloor>")
  case True
  with assms show ?thesis by (auto simp: round_even_def Let_def)
next
  case False
  with assms have "\<lfloor>x\<rfloor> + 1 \<le> \<lfloor>y\<rfloor>" using floor_mono by fastforce
  moreover have "round_even x \<le> \<lfloor>x\<rfloor> + 1" "\<lfloor>y\<rfloor> \<le> round_even y"
    by (auto simp: round_even_def Let_def)
  ultimately show ?thesis by linarith
qed

definition fl_pos :: "rat \<Rightarrow> rat" where
  "fl_pos x = (let k = expo x - 52 in of_int (round_even (x * pow2 (- k))) * pow2 k)"

definition fl64 :: "rat \<Rightarrow> rat" where
  "fl64 x = (if x = 0 then 0 else if x < 0 then - fl_pos (- x) else fl_pos x)"

lemma pow2_cancel: "x * pow2 (- k) * pow2 k = x"
  using pow2_minus [of k] by (simp add: mult.assoc)

lemma fl_pos_error:
  assumes "0 < x"
  shows "\<bar>fl_pos x - x\<bar> \<le> x / 2 ^ 53"
proof -
  define k y where "k = expo x - 52" and "y = x * pow2 (- k)"
  have "fl_pos x = of_int (round_even y) * pow2 k"
    by (simp add: fl_pos_def Let_def k_def y_def)
  moreover have "x = y * pow2 k" by (simp add: y_def pow2_cancel)
  ultimately have "\<bar>fl_pos x - x\<bar> = \<bar>of_int (round_even y) - y\<bar> * pow2 k"
    using pow2_pos [of k] by (simp add: left_diff_distrib [symmetric] abs_mult)
  also have "\<dots> \<le> 1 / 2 * pow2 k"
    using round_even_error [of y] by (intro mult_right_mono) (auto simp: less_imp_le)
  also have "1 / 2 * pow2 k = pow2 (expo x) / 2 ^ 53"
    using pow2_add [of "expo x" "- 52"] by (simp add: k_def pow2_def [of "- 52"])
  also have "\<dots> \<le> x / 2 ^ 53"
    using expo_bounds(1) [OF assms] by (simp add: divide_right_mono)
  finally show ?thesis .
qed

text \<open>A value with at most 53 significant bits is its own rounding.\<close>

lemma fl_pos_exact:
  assumes "0 < m" "m < 2 ^ 53" "x = of_int m * pow2 e"
  shows "fl_pos x = x"
proof -
  have x: "0 < x" using assms by simp
  have "(of_int m :: rat) < of_int (2 ^ 53)" using assms(2) of_int_less_iff by blast
  then have "of_int m < pow2 53" by (simp add: pow2_def)
  then have "x < pow2 (53 + e)" by (simp add: assms(3) pow2_add)
  with expo_bounds(1) [OF x] have "\<not> 53 + e \<le> expo x"
    using pow2_mono by (meson leD order_trans)
  then have k: "0 \<le> e - (expo x - 52)" by simp
  have "x * pow2 (- (expo x - 52)) = of_int m * pow2 (e - (expo x - 52))"
    using pow2_add [of e "- (expo x - 52)"] by (simp only: assms(3) mult.assoc diff_conv_add_uminus)
  also have "\<dots> = of_int (m * 2 ^ nat (e - (expo x - 52)))" using k by (simp add: pow2_def)
  finally show ?thesis
    unfolding fl_pos_def Let_def by (metis pow2_cancel round_even_of_int)
qed

lemma fl_pos_pow2: "fl_pos (pow2 e) = pow2 e"
  by (rule fl_pos_exact [of 1 _ e]) simp_all

lemma fl_pos_between:
  assumes "0 < x"
  shows "pow2 (expo x) \<le> fl_pos x" and "fl_pos x \<le> pow2 (expo x + 1)"
proof -
  define k where "k = expo x - 52"
  note b = expo_bounds [OF assms]
  have lo: "of_int (2 ^ 52) \<le> x * pow2 (- k)"
  proof -
    have "pow2 (expo x + - k) \<le> x * pow2 (- k)"
      unfolding pow2_add using b(1) by (intro mult_right_mono) (simp_all add: less_imp_le)
    moreover have "pow2 (expo x + - k) = of_int (2 ^ 52)" by (simp add: k_def pow2_def)
    ultimately show ?thesis by simp
  qed
  have up: "x * pow2 (- k) \<le> of_int (2 ^ 53)"
  proof -
    have "x * pow2 (- k) \<le> pow2 (expo x + 1 + - k)"
      unfolding pow2_add [of "expo x + 1"]
      using b(2) by (intro mult_right_mono) (simp_all add: less_imp_le)
    moreover have "pow2 (expo x + 1 + - k) = of_int (2 ^ 53)" by (simp add: k_def pow2_def)
    ultimately show ?thesis by simp
  qed
  have r: "2 ^ 52 \<le> round_even (x * pow2 (- k))" "round_even (x * pow2 (- k)) \<le> 2 ^ 53"
    using round_even_mono [OF lo] round_even_mono [OF up] by (simp_all only: round_even_of_int)
  have f: "fl_pos x = of_int (round_even (x * pow2 (- k))) * pow2 k"
    by (simp add: fl_pos_def Let_def k_def)
  have "(of_int (2 ^ 52) :: rat) \<le> of_int (round_even (x * pow2 (- k)))" using r(1) of_int_le_iff by blast
  from mult_right_mono [OF this, of "pow2 k"] show "pow2 (expo x) \<le> fl_pos x"
    using pow2_add [of 52 k] by (simp add: f k_def pow2_def [of 52] less_imp_le)
  have "(of_int (round_even (x * pow2 (- k))) :: rat) \<le> of_int (2 ^ 53)" using r(2) of_int_le_iff by blast
  from mult_right_mono [OF this, of "pow2 k"] show "fl_pos x \<le> pow2 (expo x + 1)"
    using pow2_add [of 53 k] by (simp add: f k_def pow2_def [of 53] less_imp_le add.commute [of "expo x"])
qed

lemma fl_pos_idem:
  assumes "0 < x"
  shows "fl_pos (fl_pos x) = fl_pos x"
proof -
  define k m where "k = expo x - 52" and "m = round_even (x * pow2 (- k))"
  have f: "fl_pos x = of_int m * pow2 k" by (simp add: fl_pos_def Let_def k_def m_def)
  have "of_int m * pow2 k \<le> of_int (2 ^ 53) * pow2 k"
    using fl_pos_between(2) [OF assms] pow2_add [of 53 k]
    unfolding f by (simp add: k_def pow2_def [of 53] add.commute [of "expo x"])
  then have "(of_int m :: rat) \<le> of_int (2 ^ 53)" by (rule mult_right_le_imp_le) simp
  then have up: "m \<le> 2 ^ 53" by (simp only: of_int_le_iff)
  have "0 < of_int m * pow2 k"
    using fl_pos_between(1) [OF assms] pow2_pos [of "expo x"] unfolding f by linarith
  then have m: "0 < m" using pow2_pos [of k] by (simp add: zero_less_mult_iff)
  show ?thesis
  proof (cases "m = 2 ^ 53")
    case True
    then have "fl_pos x = pow2 (53 + k)" by (simp add: f pow2_add pow2_def [of 53])
    then show ?thesis by (simp add: fl_pos_pow2)
  next
    case False
    with up m f show ?thesis by (intro fl_pos_exact [of m _ k]) simp_all
  qed
qed

lemma fl_pos_int:
  assumes "0 < n" "n \<le> 2 ^ 53"
  shows "fl_pos (of_int n) = of_int n"
proof (cases "n = 2 ^ 53")
  case True
  then have "of_int n = pow2 53" by (simp add: pow2_def)
  then show ?thesis by (simp add: fl_pos_pow2)
next
  case False
  with assms show ?thesis using fl_pos_exact [of n "of_int n" 0] by (simp add: pow2_def)
qed

lemma fl_pos_mono:
  assumes "0 < x" "x \<le> y"
  shows "fl_pos x \<le> fl_pos y"
proof (cases "expo x = expo y")
  case True
  with assms(2) show ?thesis
    unfolding fl_pos_def Let_def
    by (auto intro!: mult_right_mono round_even_mono simp: less_imp_le)
next
  case False
  have y: "0 < y" using assms by simp
  have "\<not> expo y + 1 \<le> expo x"
    using pow2_mono expo_bounds(2) [OF y] expo_bounds(1) [OF assms(1)] assms(2) by (meson leD order_trans)
  with False have "pow2 (expo x + 1) \<le> pow2 (expo y)" by (intro pow2_mono) simp
  with fl_pos_between [OF assms(1)] fl_pos_between [OF y] show ?thesis by linarith
qed

lemma fl_pos_pos: "0 < x \<Longrightarrow> 0 < fl_pos x"
  using fl_pos_between(1) [of x] pow2_pos [of "expo x"] by linarith

subsection \<open>The laws of rounding\<close>

locale rounding =
  fixes fl :: "rat \<Rightarrow> rat"
  assumes fl_mono: "x \<le> y \<Longrightarrow> fl x \<le> fl y"
    and fl_error: "\<bar>fl x - x\<bar> \<le> \<bar>x\<bar> / 2 ^ 53"
    and fl_int: "\<bar>n\<bar> \<le> 2 ^ 53 \<Longrightarrow> fl (of_int n) = of_int n"
    and fl_idem: "fl (fl x) = fl x"
begin

lemma fl_0: "fl 0 = 0"
  using fl_int [of 0] by simp

lemma fl_nonneg: "0 \<le> x \<Longrightarrow> 0 \<le> fl x"
  using fl_mono [of 0 x] by (simp add: fl_0)

lemma fl_lower: "0 \<le> x \<Longrightarrow> (1 - 1 / 2 ^ 53) * x \<le> fl x"
  using fl_error [of x] unfolding abs_le_iff by (simp add: algebra_simps)

lemma fl_upper: "0 \<le> x \<Longrightarrow> fl x \<le> (1 + 1 / 2 ^ 53) * x"
  using fl_error [of x] unfolding abs_le_iff by (simp add: algebra_simps)

end

lemma fl64_cases:
  "fl64 0 = 0" "0 < x \<Longrightarrow> fl64 x = fl_pos x" "x < 0 \<Longrightarrow> fl64 x = - fl_pos (- x)"
  by (simp_all add: fl64_def)

interpretation float64: rounding fl64
proof (unfold_locales, goal_cases)
  case (1 x y)
  consider "0 < x" | "y < 0" | "x \<le> 0" "0 \<le> y" by linarith
  then show ?case
  proof cases
    case 1
    with \<open>x \<le> y\<close> show ?thesis by (simp add: fl64_def fl_pos_mono)
  next
    case 2
    with \<open>x \<le> y\<close> show ?thesis by (simp add: fl64_def fl_pos_mono)
  next
    case 3
    have "fl64 x \<le> 0" using 3(1) fl_pos_pos [of "- x"] by (auto simp: fl64_def)
    moreover have "0 \<le> fl64 y" using 3(2) fl_pos_pos [of y] by (auto simp: fl64_def)
    ultimately show ?thesis by linarith
  qed
next
  case (2 x)
  consider "x = 0" | "0 < x" | "x < 0" by linarith
  then show ?case
  proof cases
    case 2
    then show ?thesis using fl_pos_error [of x] by (simp add: fl64_def)
  next
    case 3
    then show ?thesis using fl_pos_error [of "- x"] by (simp add: fl64_def abs_minus_commute)
  qed (simp add: fl64_def)
next
  case (3 n)
  consider "n = 0" | "0 < n" | "n < 0" by linarith
  then show ?case
  proof cases
    case 2
    with 3 show ?thesis using fl_pos_int [of n] by (simp add: fl64_def)
  next
    case 3
    with \<open>\<bar>n\<bar> \<le> 2 ^ 53\<close> show ?thesis using fl_pos_int [of "- n"] by (simp add: fl64_def)
  qed (simp add: fl64_def)
next
  case (4 x)
  consider "x = 0" | "0 < x" | "x < 0" by linarith
  then show ?case
  proof cases
    case 2
    then show ?thesis using fl_pos_idem [of x] fl_pos_pos [of x] by (simp add: fl64_def)
  next
    case 3
    then show ?thesis using fl_pos_idem [of "- x"] fl_pos_pos [of "- x"] by (simp add: fl64_def)
  qed (simp add: fl64_def)
qed

end
