(* ===== verification/Stream_Context.thy ===== *)
theory Stream_Context
  imports Forge_Test Float64
begin

text \<open>
  The request-scoped state of a stream, \<^verbatim>\<open>src/context.go\<close>, the registry of server singletons,
  \<^verbatim>\<open>src/registry.go\<close>, and the metrics interface, \<^verbatim>\<open>src/metrics.go\<close>.  A value of type \<^verbatim>\<open>any\<close> is a
  string, something that implements \<^verbatim>\<open>FrameIterator\<close>, or some other object of the application.
  \<open>world\<close> extends the context with the state a handler shares with the rest of the server: the
  buffer pool, the counter of the server's \<^verbatim>\<open>sync.WaitGroup\<close> and the application's own state.
  The logger is left out: it is written and never read.
\<close>

subsection \<open>Streams\<close>

text \<open>
  What the pipeline uses of a \<^verbatim>\<open>network.Stream\<close>.  \<open>so_ResetAt t\<close> is a hook that calls \<^verbatim>\<open>Reset\<close> at the
  instant \<open>t\<close> (\<^verbatim>\<open>context.AfterFunc\<close>), \<open>so_StopReset\<close> removes the hook if it has not run.
\<close>

record 's stream_object =
  so_io :: "'s io_object"
  so_Close :: "'s \<Rightarrow> 's"
  so_ResetAt :: "time \<Rightarrow> 's \<Rightarrow> 's"
  so_StopReset :: "'s \<Rightarrow> 's"
  so_RemotePeer :: "'s \<Rightarrow> peer_id"
  so_Protocol :: "'s \<Rightarrow> string"

definition mock_object :: "mock_stream stream_object" where
  "mock_object = \<lparr>so_io = mock_io, so_Close = mock_Close, so_ResetAt = (\<lambda>t s. s), so_StopReset = (\<lambda>s. s),
     so_RemotePeer = ms_remotePeer, so_Protocol = ms_proto\<rparr>"

definition pipe_ResetAt :: "time \<Rightarrow> pipe_stream \<Rightarrow> pipe_stream" where
  "pipe_ResetAt t s = s\<lparr>pp_reset := first_of (pp_reset s) (Some t)\<rparr>"

definition pipe_StopReset :: "pipe_stream \<Rightarrow> pipe_stream" where
  "pipe_StopReset s = (if passed (pp_reset s) (pp_now s) then s else s\<lparr>pp_reset := None\<rparr>)"

definition pipe_object :: "pipe_stream stream_object" where
  "pipe_object = \<lparr>so_io = pipe_io, so_Close = pipe_Close, so_ResetAt = pipe_ResetAt,
     so_StopReset = pipe_StopReset, so_RemotePeer = pp_remotePeer, so_Protocol = pp_proto\<rparr>"

subsection \<open>StreamContext\<close>

datatype ('v, 'i) any = Str string | Iter 'i | Obj 'v

text \<open>The private key type of the routed operation, and the keys of the application.\<close>

datatype value_key = operationKey | UserKey string

type_synonym ('v, 'i) Registry = "string \<rightharpoonup> ('v, 'i) any"

record ('s, 'v, 'i) StreamContext =
  sc_Ctx :: "time option"
  sc_Stream :: 's
  sc_PeerID :: peer_id
  sc_RawBytes :: "slice option"
  sc_Request :: "('v, 'i) any option"
  sc_Response :: "('v, 'i) any option"
  sc_Err :: "go_error option"
  sc_PoolBuf :: "nat option"
  sc_Registry :: "('v, 'i) Registry option"
  sc_IdleTimeout :: duration
  sc_values :: "(value_key \<rightharpoonup> ('v, 'i) any) option"

record ('s, 'v, 'i, 'g) world = "('s, 'v, 'i) StreamContext" +
  g_pool :: pool_state
  g_active :: int
  g_app :: 'g

definition sc_Set ::
  "value_key \<Rightarrow> ('v, 'i) any \<Rightarrow> ('s, 'v, 'i, 'm) StreamContext_scheme \<Rightarrow> ('s, 'v, 'i, 'm) StreamContext_scheme" where
  "sc_Set key val sc =
     (let sc' = (if sc_values sc = None then sc\<lparr>sc_values := Some Map.empty\<rparr> else sc)
      in sc'\<lparr>sc_values := map_option (\<lambda>m. m(key \<mapsto> val)) (sc_values sc')\<rparr>)"

definition sc_Get :: "value_key \<Rightarrow> ('s, 'v, 'i, 'm) StreamContext_scheme \<Rightarrow> ('v, 'i) any option" where
  "sc_Get key sc = (case sc_values sc of None \<Rightarrow> None | Some m \<Rightarrow> m key)"

definition SetOperation ::
  "string \<Rightarrow> ('s, 'v, 'i, 'm) StreamContext_scheme \<Rightarrow> ('s, 'v, 'i, 'm) StreamContext_scheme" where
  "SetOperation op sc = sc_Set operationKey (Str op) sc"

definition Operation :: "('s, 'v, 'i, 'm) StreamContext_scheme \<Rightarrow> string" where
  "Operation sc =
     (case sc_Get operationKey sc of
        None \<Rightarrow> []
      | Some v \<Rightarrow> (case v of Str op \<Rightarrow> op | _ \<Rightarrow> []))"

text \<open>The bytes \<^verbatim>\<open>sc.RawBytes\<close> shows; it aliases the pooled buffer.\<close>

definition raw_bytes :: "('s, 'v, 'i, 'g) world \<Rightarrow> byte list" where
  "raw_bytes w = (case sc_RawBytes w of None \<Rightarrow> [] | Some sl \<Rightarrow> slice_bytes (ps_mem (g_pool w)) sl)"

definition sc_WriteFrame ::
  "'s stream_object \<Rightarrow> byte list \<Rightarrow> ('s, 'v, 'i, 'g) world \<Rightarrow> (unit, ('s, 'v, 'i, 'g) world) io_result" where
  "sc_WriteFrame so d w =
     map_option (apsnd (\<lambda>s. w\<lparr>sc_Stream := s\<rparr>))
       (WriteFrameWithTimeout (so_io so) d (sc_IdleTimeout w) (sc_Stream w))"

lemma sc_Get_Set: "sc_Get k (sc_Set key val sc) = (if k = key then Some val else sc_Get k sc)"
  by (auto simp: sc_Get_def sc_Set_def Let_def split: option.splits)

lemma sc_Set_fields [simp]:
  "sc_Err (sc_Set k v sc) = sc_Err sc" "sc_Stream (sc_Set k v sc) = sc_Stream sc"
  "sc_PoolBuf (sc_Set k v sc) = sc_PoolBuf sc" "sc_PeerID (sc_Set k v sc) = sc_PeerID sc"
  "sc_RawBytes (sc_Set k v sc) = sc_RawBytes sc" "sc_IdleTimeout (sc_Set k v sc) = sc_IdleTimeout sc"
  by (simp_all add: sc_Set_def Let_def)

lemma world_Set [simp]:
  "g_pool (sc_Set k v w) = g_pool w" "g_active (sc_Set k v w) = g_active w" "g_app (sc_Set k v w) = g_app w"
  by (simp_all add: sc_Set_def Let_def)

lemma Operation_SetOperation [simp]: "Operation (SetOperation op sc) = op"
  by (simp add: Operation_def SetOperation_def sc_Get_Set)

lemma SetOperation_fields [simp]:
  "sc_Err (SetOperation op sc) = sc_Err sc" "sc_Stream (SetOperation op sc) = sc_Stream sc"
  "sc_PoolBuf (SetOperation op sc) = sc_PoolBuf sc"
  "g_pool (SetOperation op w) = g_pool w" "g_active (SetOperation op w) = g_active w"
  "g_app (SetOperation op w) = g_app w"
  by (simp_all add: SetOperation_def)

subsection \<open>Registry\<close>

definition NewRegistry :: "('v, 'i) Registry" where
  "NewRegistry = Map.empty"

text \<open>\<^verbatim>\<open>Provide\<close> panics (\<^const>\<open>None\<close>) on a key that is taken.\<close>

definition Provide :: "string \<Rightarrow> ('v, 'i) any \<Rightarrow> ('v, 'i) Registry \<Rightarrow> ('v, 'i) Registry option" where
  "Provide key val r = (case r key of Some _ \<Rightarrow> None | None \<Rightarrow> Some (r(key \<mapsto> val)))"

definition registry_get :: "('v, 'i) Registry \<Rightarrow> string \<Rightarrow> ('v, 'i) any option" where
  "registry_get r key = r key"

text \<open>The type assertion \<^verbatim>\<open>v.(T)\<close> is the function \<open>assert\<close>, the zero value of \<^verbatim>\<open>T\<close> is \<open>zero\<close>.\<close>

definition Service :: "(('v, 'i) any \<Rightarrow> 't option) \<Rightarrow> 't \<Rightarrow> ('v, 'i) Registry \<Rightarrow> string \<Rightarrow> 't \<times> bool" where
  "Service assert zero r key =
     (case registry_get r key of
        None \<Rightarrow> (zero, False)
      | Some v \<Rightarrow> (case assert v of None \<Rightarrow> (zero, False) | Some t \<Rightarrow> (t, True)))"

definition ServiceFrom ::
  "(('v, 'i) any \<Rightarrow> 't option) \<Rightarrow> 't \<Rightarrow> ('s, 'v, 'i, 'm) StreamContext_scheme \<Rightarrow> string \<Rightarrow> 't \<times> bool" where
  "ServiceFrom assert zero sc key =
     (case sc_Registry sc of None \<Rightarrow> (zero, False) | Some r \<Rightarrow> Service assert zero r key)"

text \<open>A sequence of registrations; a panic stops it.\<close>

fun provide_all :: "(string \<times> ('v, 'i) any) list \<Rightarrow> ('v, 'i) Registry \<Rightarrow> ('v, 'i) Registry option" where
  "provide_all [] r = Some r"
| "provide_all ((k, v) # kvs) r =
     (case Provide k v r of None \<Rightarrow> None | Some r' \<Rightarrow> provide_all kvs r')"

lemma provide_all_iff:
  "provide_all kvs r = (if distinct (map fst kvs) \<and> set (map fst kvs) \<inter> dom r = {}
     then Some (r ++ map_of kvs) else None)"
proof (induction kvs arbitrary: r)
  case (Cons kv kvs)
  obtain k v where kv: "kv = (k, v)" by (cases kv)
  show ?case
  proof (cases "r k")
    case None
    have eq: "r(k \<mapsto> v) ++ map_of kvs = r ++ map_of (kv # kvs)" if "k \<notin> set (map fst kvs)"
    proof
      fix x
      have "map_of kvs k = None" using that by (simp add: map_of_eq_None_iff)
      then show "(r(k \<mapsto> v) ++ map_of kvs) x = (r ++ map_of (kv # kvs)) x"
        by (cases "x = k") (simp_all add: kv map_add_def split: option.split)
    qed
    have "provide_all (kv # kvs) r = provide_all kvs (r(k \<mapsto> v))" using None by (simp add: kv Provide_def)
    also have "\<dots> = (if distinct (map fst kvs) \<and> set (map fst kvs) \<inter> dom (r(k \<mapsto> v)) = {}
        then Some (r(k \<mapsto> v) ++ map_of kvs) else None)" by (rule Cons.IH)
    also have "(distinct (map fst kvs) \<and> set (map fst kvs) \<inter> dom (r(k \<mapsto> v)) = {}) \<longleftrightarrow>
        distinct (map fst (kv # kvs)) \<and> set (map fst (kv # kvs)) \<inter> dom r = {}"
      using None by (auto simp: kv)
    finally have step: "provide_all (kv # kvs) r =
        (if distinct (map fst (kv # kvs)) \<and> set (map fst (kv # kvs)) \<inter> dom r = {}
         then Some (r(k \<mapsto> v) ++ map_of kvs) else None)" .
    show ?thesis unfolding step by (intro if_cong refl arg_cong [of _ _ Some] eq) (simp_all add: kv)
  next
    case (Some u)
    then have "k \<in> set (map fst (kv # kvs)) \<inter> dom r" by (simp add: kv domI)
    with Some show ?thesis by (simp add: kv Provide_def)
  qed
qed simp

subsection \<open>Metrics\<close>

text \<open>A call of a \<^verbatim>\<open>MetricsCollector\<close>; a collector turns calls into changes of the application's state.\<close>

datatype metric =
    StreamStarted string string
  | StreamCompleted string string rat "go_error option"
  | RateLimitHit string
  | ActiveStreams int
  | BufferPoolStats int int

type_synonym 'g MetricsCollector = "metric \<Rightarrow> 'g \<Rightarrow> 'g"

definition NoopMetrics :: "'g MetricsCollector" where
  "NoopMetrics m g = g"

end
