(* ===== verification/Pipeline.thy ===== *)
theory Pipeline
  imports Stream_Context
begin

text \<open>
  The middleware pipeline, \<^verbatim>\<open>src/pipeline.go\<close>.  A middleware is a function of its continuation
  \<^verbatim>\<open>next\<close> and the world; it returns, panics (with the world as it was at the panic) or does not
  return at all.  \<open>HandleStream\<close> runs the deferred cleanup on the first two.
\<close>

datatype 'w outcome = Returned 'w | Panicked string 'w | Diverged

type_synonym 'w next_fn = "'w \<Rightarrow> 'w outcome"
type_synonym 'w Middleware = "'w next_fn \<Rightarrow> 'w \<Rightarrow> 'w outcome"

fun outcome_bind :: "'w outcome \<Rightarrow> ('w \<Rightarrow> 'w outcome) \<Rightarrow> 'w outcome" where
  "outcome_bind (Returned w) k = k w"
| "outcome_bind (Panicked v w) k = Panicked v w"
| "outcome_bind Diverged k = Diverged"

text \<open>\<open>all_outcome P r\<close>: whatever world \<open>r\<close> ends in satisfies \<open>P\<close>.\<close>

fun all_outcome :: "('w \<Rightarrow> bool) \<Rightarrow> 'w outcome \<Rightarrow> bool" where
  "all_outcome P (Returned w) = P w"
| "all_outcome P (Panicked v w) = P w"
| "all_outcome P Diverged = True"

lemma all_outcome_bind:
  "all_outcome P r \<Longrightarrow> (\<And>w. P w \<Longrightarrow> all_outcome Q (k w)) \<Longrightarrow> (\<And>w. P w \<Longrightarrow> Q w) \<Longrightarrow>
   all_outcome Q (outcome_bind r k)"
  by (cases r) auto

lemma all_outcome_mono: "all_outcome P r \<Longrightarrow> (\<And>w. P w \<Longrightarrow> Q w) \<Longrightarrow> all_outcome Q r"
  by (cases r) auto

subsection \<open>The pipeline\<close>

record ('s, 'v, 'i, 'g) Pipeline =
  p_middleware :: "('s, 'v, 'i, 'g) world Middleware list"
  p_registry :: "('v, 'i) Registry option"
  p_activeStreams :: bool
  p_idleTimeout :: duration
  p_requestTimeout :: duration

definition DefaultIdleTimeout :: duration where [forge_defs]: "DefaultIdleTimeout = 30 * Second"
definition DefaultRequestTimeout :: duration where [forge_defs]: "DefaultRequestTimeout = 5 * Minute"

definition NewPipeline :: "('s, 'v, 'i, 'g) world Middleware list \<Rightarrow> ('s, 'v, 'i, 'g) Pipeline" where
  "NewPipeline mw = \<lparr>p_middleware = mw, p_registry = None, p_activeStreams = False,
     p_idleTimeout = DefaultIdleTimeout, p_requestTimeout = DefaultRequestTimeout\<rparr>"

text \<open>
  The pipeline keeps a pointer to the registry.  The value in \<open>p_registry\<close> stands for the contents of the
  registry when the stream arrives.
\<close>

definition WithRegistry :: "('v, 'i) Registry \<Rightarrow> ('s, 'v, 'i, 'g) Pipeline \<Rightarrow> ('s, 'v, 'i, 'g) Pipeline" where
  "WithRegistry r p = p\<lparr>p_registry := Some r\<rparr>"

definition WithIdleTimeout :: "duration \<Rightarrow> ('s, 'v, 'i, 'g) Pipeline \<Rightarrow> ('s, 'v, 'i, 'g) Pipeline" where
  "WithIdleTimeout d p = p\<lparr>p_idleTimeout := d\<rparr>"

definition WithRequestTimeout :: "duration \<Rightarrow> ('s, 'v, 'i, 'g) Pipeline \<Rightarrow> ('s, 'v, 'i, 'g) Pipeline" where
  "WithRequestTimeout d p = p\<lparr>p_requestTimeout := d\<rparr>"

definition Use ::
  "('s, 'v, 'i, 'g) world Middleware list \<Rightarrow> ('s, 'v, 'i, 'g) Pipeline \<Rightarrow> ('s, 'v, 'i, 'g) Pipeline" where
  "Use mw p = p\<lparr>p_middleware := p_middleware p @ mw\<rparr>"

definition WithActiveStreams :: "('s, 'v, 'i, 'g) Pipeline \<Rightarrow> ('s, 'v, 'i, 'g) Pipeline" where
  "WithActiveStreams p = p\<lparr>p_activeStreams := True\<rparr>"

text \<open>\<^verbatim>\<open>run\<close> looks at \<^verbatim>\<open>sc.Err\<close> every time it is entered, also when a middleware calls \<^verbatim>\<open>next\<close>.\<close>

function run ::
  "('s, 'v, 'i, 'g) world Middleware list \<Rightarrow> nat \<Rightarrow> ('s, 'v, 'i, 'g) world \<Rightarrow> ('s, 'v, 'i, 'g) world outcome" where
  "run mws idx w =
     (if sc_Err w \<noteq> None \<or> length mws \<le> idx then Returned w
      else (mws ! idx) (\<lambda>w'. run mws (idx + 1) w') w)"
  by pat_completeness auto
termination
  by (relation "measure (\<lambda>(mws, idx, w). length mws - idx)") auto

declare run.simps [simp del]

text \<open>
  \<^verbatim>\<open>requestContext\<close> with the reset hook of \<^verbatim>\<open>HandleStream\<close>: a positive request timeout gives the
  context a deadline and arms the reset of the stream at it.
\<close>

definition requestContext :: "('s, 'v, 'i, 'g) Pipeline \<Rightarrow> time \<Rightarrow> time option" where
  "requestContext p now = (if 0 < p_requestTimeout p then Some (now + p_requestTimeout p) else None)"

definition arm_reset :: "'s stream_object \<Rightarrow> time option \<Rightarrow> 's \<Rightarrow> 's" where
  "arm_reset so ctx s = (case ctx of None \<Rightarrow> s | Some t \<Rightarrow> so_ResetAt so t s)"

definition new_context ::
  "'s stream_object \<Rightarrow> ('s, 'v, 'i, 'g) Pipeline \<Rightarrow> 's \<Rightarrow> pool_state \<Rightarrow> int \<Rightarrow> 'g \<Rightarrow> ('s, 'v, 'i, 'g) world" where
  "new_context so p s pool active app =
     (let ctx = requestContext p (io_Now (so_io so) s)
      in \<lparr>sc_Ctx = ctx, sc_Stream = arm_reset so ctx s, sc_PeerID = so_RemotePeer so s,
          sc_RawBytes = None, sc_Request = None, sc_Response = None, sc_Err = None, sc_PoolBuf = None,
          sc_Registry = p_registry p, sc_IdleTimeout = p_idleTimeout p, sc_values = None,
          g_pool = pool, g_active = active, g_app = app\<rparr>)"

text \<open>The deferred functions of \<^verbatim>\<open>HandleStream\<close>, last registered first.\<close>

definition finish ::
  "'s stream_object \<Rightarrow> ('s, 'v, 'i, 'g) Pipeline \<Rightarrow> ('s, 'v, 'i, 'g) world \<Rightarrow> ('s, 'v, 'i, 'g) world" where
  "finish so p w =
     (let w1 = (case sc_PoolBuf w of None \<Rightarrow> w | Some b \<Rightarrow> w\<lparr>g_pool := Release b (g_pool w)\<rparr>);
          w2 = w1\<lparr>sc_Stream := so_Close so (so_StopReset so (sc_Stream w1))\<rparr>
      in if p_activeStreams p then w2\<lparr>g_active := g_active w2 - 1\<rparr> else w2)"

fun with_defer :: "('w \<Rightarrow> 'w) \<Rightarrow> 'w outcome \<Rightarrow> 'w outcome" where
  "with_defer f (Returned w) = Returned (f w)"
| "with_defer f (Panicked v w) = Panicked v (f w)"
| "with_defer f Diverged = Diverged"

definition HandleStream ::
  "'s stream_object \<Rightarrow> ('s, 'v, 'i, 'g) Pipeline \<Rightarrow> 's \<Rightarrow> pool_state \<Rightarrow> int \<Rightarrow> 'g \<Rightarrow>
   ('s, 'v, 'i, 'g) world outcome" where
  "HandleStream so p s pool active app =
     with_defer (finish so p)
       (run (p_middleware p) 0
          (new_context so p s pool (if p_activeStreams p then active + 1 else active) app))"

definition StreamHandler where
  "StreamHandler so p = HandleStream so p"

subsection \<open>Running a list\<close>

lemma run_err [simp]: "sc_Err w \<noteq> None \<Longrightarrow> run mws idx w = Returned w"
  by (subst run.simps) simp

lemma run_end [simp]: "length mws \<le> idx \<Longrightarrow> run mws idx w = Returned w"
  by (subst run.simps) simp

lemma run_step: "sc_Err w = None \<Longrightarrow> idx < length mws \<Longrightarrow> run mws idx w = (mws ! idx) (run mws (idx + 1)) w"
  by (subst run.simps) simp

text \<open>The same by recursion on the list.\<close>

fun run_list ::
  "('s, 'v, 'i, 'g) world Middleware list \<Rightarrow> ('s, 'v, 'i, 'g) world \<Rightarrow> ('s, 'v, 'i, 'g) world outcome" where
  "run_list [] w = Returned w"
| "run_list (mw # mws) w = (if sc_Err w \<noteq> None then Returned w else mw (run_list mws) w)"

lemma run_run_list: "run mws idx = run_list (drop idx mws)"
proof (induction "length mws - idx" arbitrary: idx)
  case 0
  then show ?case by (simp add: fun_eq_iff)
next
  case (Suc n)
  then have idx: "idx < length mws" by simp
  have "run mws (idx + 1) = run_list (drop (idx + 1) mws)" using Suc by (intro Suc.hyps) simp
  then show ?case
    using idx by (intro ext) (simp add: run.simps Cons_nth_drop_Suc [symmetric])
qed

lemma run_0: "run mws 0 = run_list mws"
  by (simp add: run_run_list)

text \<open>One link of the chain: the middleware runs unless an error is already recorded.\<close>

definition guarded :: "('s, 'v, 'i, 'g) world Middleware \<Rightarrow> ('s, 'v, 'i, 'g) world Middleware" where
  "guarded mw k w = (if sc_Err w \<noteq> None then Returned w else mw k w)"

lemma run_list_Cons: "run_list (mw # mws) = guarded mw (run_list mws)"
  by (simp add: fun_eq_iff guarded_def)

lemma run_list_append: "run_list (xs @ ys) = foldr guarded xs (run_list ys)"
  by (induction xs) (simp_all add: run_list_Cons del: run_list.simps(2))

subsection \<open>Contracts of middleware\<close>

text \<open>
  A preorder on worlds that a middleware respects whenever its continuation does; then a pipeline of
  such middleware respects it, with or without a panic.
\<close>

definition keeps_order :: "('w \<Rightarrow> 'w \<Rightarrow> bool) \<Rightarrow> 'w Middleware \<Rightarrow> bool" where
  "keeps_order R mw \<longleftrightarrow>
     (\<forall>next w. (\<forall>w'. R w w' \<longrightarrow> all_outcome (R w) (next w')) \<longrightarrow> all_outcome (R w) (mw next w))"

locale world_order =
  fixes R :: "('s, 'v, 'i, 'g) world \<Rightarrow> ('s, 'v, 'i, 'g) world \<Rightarrow> bool"
  assumes rel_refl: "R w w" and rel_trans: "R u v \<Longrightarrow> R v w \<Longrightarrow> R u w"
begin

lemma run_list_keeps:
  assumes "\<forall>mw \<in> set mws. keeps_order R mw"
  shows "all_outcome (R w) (run_list mws w)"
  using assms
proof (induction mws arbitrary: w)
  case (Cons mw mws)
  have "all_outcome (R w) (run_list mws w')" if "R w w'" for w'
    using all_outcome_mono [OF Cons.IH] Cons.prems rel_trans [OF that] by simp
  with Cons.prems show ?case by (auto simp: keeps_order_def rel_refl)
qed (simp add: rel_refl)

lemma HandleStream_keeps:
  assumes "\<forall>mw \<in> set (p_middleware p). keeps_order R mw"
    and "HandleStream so p s pool active app = Returned w' \<or> HandleStream so p s pool active app = Panicked v w'"
  shows "\<exists>w. R (new_context so p s pool (if p_activeStreams p then active + 1 else active) app) w \<and> w' = finish so p w"
  using assms run_list_keeps [OF assms(1)]
  by (cases "run_list (p_middleware p) (new_context so p s pool (if p_activeStreams p then active + 1 else active) app)")
    (auto simp: HandleStream_def run_0, (metis all_outcome.simps)+)

end

text \<open>
  A second contract, for properties that hold only if each stage runs at most once: \<open>N\<close> relates
  worlds that do not differ in what the property is about, and \<open>P\<close> is any condition that \<open>N\<close>
  preserves.  A middleware that makes \<open>N\<close>-changes only and calls its continuation at most once
  establishes every such \<open>P\<close> that its continuation establishes and that its early exits satisfy.
\<close>

definition calls_once :: "('w \<Rightarrow> 'w \<Rightarrow> bool) \<Rightarrow> 'w Middleware \<Rightarrow> bool" where
  "calls_once N mw \<longleftrightarrow>
     (\<forall>k w P. (\<forall>u v. P u \<longrightarrow> N u v \<longrightarrow> P v) \<longrightarrow> (\<forall>w'. N w w' \<longrightarrow> P w') \<longrightarrow>
        (\<forall>w'. N w w' \<longrightarrow> all_outcome P (k w')) \<longrightarrow> all_outcome P (mw k w))"

lemma calls_onceI:
  assumes "\<And>k w P. (\<And>u v. P u \<Longrightarrow> N u v \<Longrightarrow> P v) \<Longrightarrow> (\<And>w'. N w w' \<Longrightarrow> P w') \<Longrightarrow>
    (\<And>w'. N w w' \<Longrightarrow> all_outcome P (k w')) \<Longrightarrow> all_outcome P (mw k w)"
  shows "calls_once N mw"
  unfolding calls_once_def using assms by blast

lemma calls_onceD:
  assumes "calls_once N mw" "\<And>u v. P u \<Longrightarrow> N u v \<Longrightarrow> P v" "\<And>w'. N w w' \<Longrightarrow> P w'"
    and "\<And>w'. N w w' \<Longrightarrow> all_outcome P (k w')"
  shows "all_outcome P (mw k w)"
  using assms unfolding calls_once_def by blast

context world_order
begin

lemma run_list_once:
  assumes "\<forall>mw \<in> set pre. calls_once R mw" "\<And>u v. P u \<Longrightarrow> R u v \<Longrightarrow> P v"
    and "\<And>w'. R w w' \<Longrightarrow> P w'" "\<And>w'. R w w' \<Longrightarrow> all_outcome P (run_list post w')"
  shows "all_outcome P (run_list (pre @ post) w)"
  using assms
proof (induction pre arbitrary: w)
  case Nil
  then show ?case by (simp add: rel_refl)
next
  case (Cons mw mws)
  show ?case
  proof (cases "sc_Err w = None")
    case True
    have rest: "all_outcome P (run_list (mws @ post) w')" if w': "R w w'" for w'
      by (rule Cons.IH [OF _ Cons.prems(2) Cons.prems(3) [OF rel_trans [OF w']] Cons.prems(4) [OF rel_trans [OF w']]])
        (use Cons.prems(1) in auto)
    have "calls_once R mw" using Cons.prems(1) by simp
    from calls_onceD [OF this Cons.prems(2,3) rest] True show ?thesis by simp
  next
    case False
    with Cons.prems(3) [OF rel_refl] show ?thesis by simp
  qed
qed

lemma run_list_stays:
  assumes "\<forall>mw \<in> set mws. calls_once R mw" "\<And>u v. P u \<Longrightarrow> R u v \<Longrightarrow> P v" "P w"
  shows "all_outcome P (run_list mws w)"
  using run_list_once [OF assms(1), of P w "[]"] assms(2,3) by auto

lemma guarded_once: "calls_once R mw \<Longrightarrow> calls_once R (guarded mw)"
  by (auto simp: calls_once_def guarded_def rel_refl)

lemma foldr_once: "\<forall>mw \<in> set mws. calls_once R mw \<Longrightarrow> calls_once R (foldr guarded mws)"
proof (induction mws)
  case Nil
  then show ?case by (auto simp: calls_once_def rel_refl)
next
  case (Cons mw mws)
  have IH: "calls_once R (foldr guarded mws)" and mw: "calls_once R (guarded mw)"
    using Cons guarded_once by auto
  show ?case
  proof (rule calls_onceI)
    fix k w P
    assume P: "\<And>u v. P u \<Longrightarrow> R u v \<Longrightarrow> P v" "\<And>w'. R w w' \<Longrightarrow> P w'" "\<And>w'. R w w' \<Longrightarrow> all_outcome P (k w')"
    have "all_outcome P (guarded mw (foldr guarded mws k) w)"
      using mw P(1,2)
    proof (rule calls_onceD)
      fix w' assume w': "R w w'"
      show "all_outcome P (foldr guarded mws k w')"
        by (rule calls_onceD [OF IH P(1) P(2) [OF rel_trans [OF w']] P(3) [OF rel_trans [OF w']]])
    qed
    then show "all_outcome P (foldr guarded (mw # mws) k w)" by simp
  qed
qed

end

end
