(* ===== verification/Rate_Limiter.thy ===== *)
theory Rate_Limiter
  imports Forge_Prelude
begin

text \<open>
  What the two rate limiters of \<^verbatim>\<open>src/middleware\<close> have in common.  Both keep their per-peer state
  in shards chosen by the FNV-1a hash of the peer's key; \<open>sharded\<close> is that table, with its
  refinement to a flat map.  The locale \<open>peer_limiter\<close> is the contract of the \<^verbatim>\<open>Limiter\<close> interface
  (\<^verbatim>\<open>tokenbucket.go\<close>): deciding about a peer reads and writes that peer's state only.  Its client
  lemma is non-interference between peers.
\<close>

subsection \<open>Shards\<close>

text \<open>\<^verbatim>\<open>hash/fnv\<close>'s 64-bit FNV-1a.\<close>

definition fnv_step :: "64 word \<Rightarrow> char \<Rightarrow> 64 word" where
  "fnv_step h c = (h XOR word_of_nat (of_char c)) * 1099511628211"

definition fnvHash :: "string \<Rightarrow> 64 word" where
  "fnvHash s = foldl fnv_step 14695981039346656037 s"

definition defaultShardCount :: nat where
  "defaultShardCount = 64"

type_synonym 'v shards = "(string \<Rightarrow> 'v option) list"

definition shard_index :: "'v shards \<Rightarrow> string \<Rightarrow> nat" where
  "shard_index sh key = unat (fnvHash key mod word_of_nat (length sh))"

definition shard_get :: "'v shards \<Rightarrow> string \<Rightarrow> 'v option" where
  "shard_get sh key = (sh ! shard_index sh key) key"

definition shard_put :: "'v shards \<Rightarrow> string \<Rightarrow> 'v \<Rightarrow> 'v shards" where
  "shard_put sh key v =
     sh[shard_index sh key := (sh ! shard_index sh key)(key \<mapsto> v)]"

definition new_shards :: "'v shards" where
  "new_shards = replicate defaultShardCount (\<lambda>_. None)"

definition shards_ok :: "'v shards \<Rightarrow> bool" where
  "shards_ok sh \<longleftrightarrow> length sh = defaultShardCount"

lemma shards_ok_new [simp]: "shards_ok new_shards"
  by (simp add: shards_ok_def new_shards_def)

lemma shards_ok_put [simp]: "shards_ok (shard_put sh key v) = shards_ok sh"
  by (simp add: shards_ok_def shard_put_def)

lemma shard_index_less: "shards_ok sh \<Longrightarrow> shard_index sh key < length sh"
  by (simp add: shard_index_def shards_ok_def defaultShardCount_def unat_mod)

lemma shard_index_put [simp]: "shard_index (shard_put sh key v) k = shard_index sh k"
  by (simp add: shard_index_def shard_put_def)

text \<open>The table refines a flat map.\<close>

lemma shard_get_put: "shards_ok sh \<Longrightarrow> shard_get (shard_put sh key v) = (shard_get sh)(key \<mapsto> v)"
  using shard_index_less [of sh key]
  by (auto simp: fun_eq_iff shard_get_def) (auto simp: shard_put_def nth_list_update)

lemma shard_get_new [simp]: "shard_get (new_shards :: 'v shards) key = None"
proof -
  have "shard_index (new_shards :: 'v shards) key < length (new_shards :: 'v shards)"
    by (rule shard_index_less) simp
  then show ?thesis by (simp add: shard_get_def new_shards_def)
qed

text \<open>Rewriting every entry of every shard, as the background cleanups do.\<close>

definition shard_map :: "('v \<Rightarrow> 'v option) \<Rightarrow> 'v shards \<Rightarrow> 'v shards" where
  "shard_map f sh = map (\<lambda>s key. Option.bind (s key) f) sh"

lemma shards_ok_map [simp]: "shards_ok (shard_map f sh) = shards_ok sh"
  by (simp add: shards_ok_def shard_map_def)

lemma shard_get_map: "shards_ok sh \<Longrightarrow> shard_get (shard_map f sh) key = Option.bind (shard_get sh key) f"
  using shard_index_less [of sh key]
  by (simp add: shard_get_def shard_map_def shard_index_def)

subsection \<open>The contract of a per-peer limiter\<close>

text \<open>
  A request is the peer, the units it asks for, and the instant of the decision.  \<open>view b k\<close> is
  what the limiter knows of a key and \<open>step\<close> decides on that alone; the answer is a verdict, or a
  verdict with a retry time.
\<close>

datatype 'p request = Request (req_time: time) (req_peer: 'p) (req_units: int)

text \<open>The answers to a sequence of requests, and those of a single key's state to its own.\<close>

fun decisions :: "(time \<Rightarrow> 'p \<Rightarrow> int \<Rightarrow> 'b \<Rightarrow> 'r \<times> 'b) \<Rightarrow> 'p request list \<Rightarrow> 'b \<Rightarrow> ('p \<times> 'r) list" where
  "decisions allow [] b = []"
| "decisions allow (Request t p n # rs) b =
     (p, fst (allow t p n b)) # decisions allow rs (snd (allow t p n b))"

fun own_decisions :: "(time \<Rightarrow> int \<Rightarrow> 'v \<Rightarrow> 'r \<times> 'v) \<Rightarrow> 'p request list \<Rightarrow> 'v \<Rightarrow> 'r list" where
  "own_decisions step [] v = []"
| "own_decisions step (Request t p n # rs) v =
     fst (step t n v) # own_decisions step rs (snd (step t n v))"

definition about :: "'p \<Rightarrow> ('p \<times> 'r) list \<Rightarrow> 'r list" where
  "about p ds = map snd (filter (\<lambda>d. fst d = p) ds)"

text \<open>
  A history of one limiter: requests and background sweeps, each with its instant; the answers it
  gives, the state it ends in, and the requests in it.
\<close>

datatype 'p limiter_event = Ask time 'p int | Sweep time

fun event_at :: "'p limiter_event \<Rightarrow> time" where
  "event_at (Ask t p n) = t"
| "event_at (Sweep t) = t"

fun answers ::
  "(time \<Rightarrow> 'p \<Rightarrow> int \<Rightarrow> 'b \<Rightarrow> 'r \<times> 'b) \<Rightarrow> (time \<Rightarrow> 'b \<Rightarrow> 'b) \<Rightarrow> 'p limiter_event list \<Rightarrow> 'b \<Rightarrow> ('p \<times> 'r) list" where
  "answers allow sweep [] b = []"
| "answers allow sweep (Ask t p n # es) b =
     (p, fst (allow t p n b)) # answers allow sweep es (snd (allow t p n b))"
| "answers allow sweep (Sweep t # es) b = answers allow sweep es (sweep t b)"

fun history_end ::
  "(time \<Rightarrow> 'p \<Rightarrow> int \<Rightarrow> 'b \<Rightarrow> 'r \<times> 'b) \<Rightarrow> (time \<Rightarrow> 'b \<Rightarrow> 'b) \<Rightarrow> 'p limiter_event list \<Rightarrow> 'b \<Rightarrow> 'b" where
  "history_end allow sweep [] b = b"
| "history_end allow sweep (Ask t p n # es) b = history_end allow sweep es (snd (allow t p n b))"
| "history_end allow sweep (Sweep t # es) b = history_end allow sweep es (sweep t b)"

fun asks :: "'p limiter_event list \<Rightarrow> 'p request list" where
  "asks [] = []"
| "asks (Ask t p n # es) = Request t p n # asks es"
| "asks (Sweep t # es) = asks es"

locale peer_limiter =
  fixes allow :: "time \<Rightarrow> 'p \<Rightarrow> int \<Rightarrow> 'b \<Rightarrow> 'r \<times> 'b"
    and key :: "'p \<Rightarrow> string"
    and inv :: "'b \<Rightarrow> bool"
    and view :: "'b \<Rightarrow> string \<Rightarrow> 'v"
    and step :: "time \<Rightarrow> int \<Rightarrow> 'v \<Rightarrow> 'r \<times> 'v"
  assumes allow_inv: "inv b \<Longrightarrow> inv (snd (allow t p n b))"
    and allow_answer: "inv b \<Longrightarrow> fst (allow t p n b) = fst (step t n (view b (key p)))"
    and allow_view: "inv b \<Longrightarrow> view (snd (allow t p n b)) = (view b)(key p := snd (step t n (view b (key p))))"
begin

lemma decisions_local:
  assumes "inv b" "inj key"
  shows "about p (decisions allow rs b) =
    own_decisions step (filter (\<lambda>r. req_peer r = p) rs) (view b (key p))"
  using assms(1)
proof (induction rs arbitrary: b)
  case (Cons r rs)
  obtain t q n where r: "r = Request t q n" by (cases r)
  have "key p = key q \<longleftrightarrow> q = p" using assms(2) by (auto dest: injD)
  then have "view (snd (allow t q n b)) (key p) =
      (if q = p then snd (step t n (view b (key p))) else view b (key p))"
    by (simp add: allow_view [OF Cons.prems])
  with Cons.IH [OF allow_inv [OF Cons.prems, of t q n]] show ?case
    by (cases "q = p") (simp_all add: r about_def allow_answer [OF Cons.prems])
qed (simp add: about_def)

text \<open>Non-interference: what other peers do has no bearing on the decisions about a peer.\<close>

lemma decisions_noninterference:
  assumes "inj key" "inv b" "inv b'" "view b (key p) = view b' (key p)"
    and "filter (\<lambda>r. req_peer r = p) rs = filter (\<lambda>r. req_peer r = p) rs'"
  shows "about p (decisions allow rs b) = about p (decisions allow rs' b')"
  using assms by (simp add: decisions_local)

end

text \<open>
  A limiter with a background sweep.  \<open>agree t v v'\<close> says that two records of a peer cannot be told
  apart by any request from the instant \<open>t\<close> on; a sweep leaves a record that agrees with the one it
  found.  Then sweeps are invisible.
\<close>

locale sweeping_limiter = peer_limiter +
  fixes sweep :: "time \<Rightarrow> 'b \<Rightarrow> 'b"
    and agree :: "time \<Rightarrow> 'v \<Rightarrow> 'v \<Rightarrow> bool"
  assumes sweep_inv: "inv b \<Longrightarrow> inv (sweep t b)"
    and sweep_agree: "inv b \<Longrightarrow> agree t (view (sweep t b) k) (view b k)"
    and agree_refl: "agree t v v"
    and agree_trans: "agree t u v \<Longrightarrow> agree t v w \<Longrightarrow> agree t u w"
    and agree_later: "agree s u v \<Longrightarrow> s \<le> t \<Longrightarrow> agree t u v"
    and agree_answer: "agree t u v \<Longrightarrow> fst (step t n u) = fst (step t n v)"
    and agree_step: "agree t u v \<Longrightarrow> agree t (snd (step t n u)) (snd (step t n v))"
begin

lemma sweeps_invisible_from:
  assumes "inv b" "inv b'" "sorted (s # map event_at es)" "\<forall>k. agree s (view b k) (view b' k)"
  shows "answers allow sweep es b = decisions allow (asks es) b'"
  using assms
proof (induction es arbitrary: b b' s)
  case (Cons e es)
  have later: "\<forall>k. agree (event_at e) (view b k) (view b' k)"
    using Cons.prems(3,4) agree_later by (metis list.simps(9) sorted_simps(2) list.set_intros(1))
  from Cons.prems(3) have srt: "sorted (event_at e # map event_at es)" by simp
  show ?case
  proof (cases e)
    case (Sweep t)
    have "\<forall>k. agree t (view (sweep t b) k) (view b' k)"
      using later Sweep sweep_agree [OF Cons.prems(1)] by (auto intro: agree_trans)
    from Cons.IH [OF sweep_inv [OF Cons.prems(1)] Cons.prems(2) _ this] srt Sweep show ?thesis by simp
  next
    case (Ask t p n)
    have "\<forall>k. agree t (view (snd (allow t p n b)) k) (view (snd (allow t p n b')) k)"
      using later Ask agree_step by (simp add: allow_view [OF Cons.prems(1)] allow_view [OF Cons.prems(2)])
    moreover have "fst (allow t p n b) = fst (allow t p n b')"
      using later Ask agree_answer
      by (simp add: allow_answer [OF Cons.prems(1)] allow_answer [OF Cons.prems(2)])
    ultimately show ?thesis
      using Cons.IH [OF allow_inv [OF Cons.prems(1)] allow_inv [OF Cons.prems(2)], of t t p n t p n] srt Ask
      by simp
  qed
qed simp

text \<open>A history without requests for a key leaves what later requests see of it.\<close>

lemma untouched_agree:
  assumes "inv b" "sorted (map event_at es)" "\<forall>e \<in> set es. event_at e \<le> t"
    and "\<forall>r \<in> set (asks es). key (req_peer r) \<noteq> k"
  shows "inv (history_end allow sweep es b) \<and> agree t (view (history_end allow sweep es b) k) (view b k)"
  using assms
proof (induction es arbitrary: b)
  case (Cons e es)
  show ?case
  proof (cases e)
    case (Sweep s)
    have "agree t (view (sweep s b) k) (view b k)"
      using Cons.prems(3) Sweep by (intro agree_later [OF sweep_agree [OF Cons.prems(1)]]) simp
    moreover have "inv (history_end allow sweep es (sweep s b)) \<and>
        agree t (view (history_end allow sweep es (sweep s b)) k) (view (sweep s b) k)"
      by (rule Cons.IH [OF sweep_inv [OF Cons.prems(1)]]) (use Cons.prems(2-4) Sweep in simp_all)
    ultimately show ?thesis using Sweep agree_trans by auto
  next
    case (Ask s p n)
    have "view (snd (allow s p n b)) k = view b k"
      using Cons.prems(4) Ask by (auto simp: allow_view [OF Cons.prems(1)])
    with Cons.IH [OF allow_inv [OF Cons.prems(1)], of s p n] Cons.prems Ask show ?thesis by simp
  qed
qed (simp add: agree_refl)

lemma sweeps_invisible:
  assumes "inv b" "sorted (map event_at es)"
  shows "answers allow sweep es b = decisions allow (asks es) b"
proof (cases es)
  case (Cons e es')
  with assms show ?thesis
    by (intro sweeps_invisible_from [where s = "event_at e"]) (simp_all add: agree_refl)
qed simp

end

end
