(* ===== verification/Rate_Window.thy ===== *)
theory Rate_Window
  imports Rate_Limiter
begin

text \<open>
  The sliding-window limiter, \<^verbatim>\<open>src/middleware/ratelimit.go\<close>: \<^verbatim>\<open>SingleBucket\<close> and \<^verbatim>\<open>DualBucket\<close>.
  The instant \<^verbatim>\<open>time.Now()\<close> returns is an argument of every operation, and so is the function
  \<^verbatim>\<open>peer.ID.String\<close> of libp2p (\<open>str\<close>).  Each operation runs under its shard's mutex, so a history
  of the limiter is a sequence of them.  The loop that appends \<open>n\<close> instants is a \<^const>\<open>replicate\<close>: memory is
  taken to be unbounded.  With an \<open>n\<close> near \<^verbatim>\<open>math.MaxInt\<close> the sum in the guard of \<^verbatim>\<open>AllowN\<close> wraps, and the code
  enters a loop that cannot end in any real memory; the theorems about admission exclude such an \<open>n\<close>.
\<close>

record SingleBucket =
  sb_shards :: "time list shards"
  sb_window :: duration
  sb_maxRequests :: int
  sb_stopped :: bool

definition NewSingleBucket :: "duration \<Rightarrow> int \<Rightarrow> SingleBucket" where
  "NewSingleBucket window maxRequests =
     \<lparr>sb_shards = new_shards, sb_window = window, sb_maxRequests = maxRequests, sb_stopped = False\<rparr>"

definition AllowN :: "(peer_id \<Rightarrow> string) \<Rightarrow> time \<Rightarrow> peer_id \<Rightarrow> int \<Rightarrow> SingleBucket \<Rightarrow> bool \<times> SingleBucket" where
  "AllowN str now peerID n b =
     (if n \<le> 0 then (True, b)
      else
        let key = str peerID;
            cutoff = now - sb_window b;
            history = (case shard_get (sb_shards b) key of None \<Rightarrow> [] | Some h \<Rightarrow> h);
            filtered = filter (\<lambda>ts. cutoff < ts) history
        in if sb_maxRequests b < wrap64 (int (length filtered) + n)
           then (False, b\<lparr>sb_shards := shard_put (sb_shards b) key filtered\<rparr>)
           else (True, b\<lparr>sb_shards := shard_put (sb_shards b) key (filtered @ replicate (nat n) now)\<rparr>))"

definition Allow :: "(peer_id \<Rightarrow> string) \<Rightarrow> time \<Rightarrow> peer_id \<Rightarrow> SingleBucket \<Rightarrow> bool \<times> SingleBucket" where
  "Allow str now peerID b = AllowN str now peerID 1 b"

text \<open>\<^verbatim>\<open>Close\<close> closes the channel \<^verbatim>\<open>stopCleanup\<close>; a second close is a run-time panic (\<^const>\<open>None\<close>).\<close>

definition Close :: "SingleBucket \<Rightarrow> SingleBucket option" where
  "Close b = (if sb_stopped b then None else Some (b\<lparr>sb_stopped := True\<rparr>))"

definition cleanup_entry :: "time \<Rightarrow> time list \<Rightarrow> time list option" where
  "cleanup_entry cutoff hist =
     (let filtered = filter (\<lambda>ts. cutoff < ts) hist in if filtered = [] then None else Some filtered)"

definition cleanup :: "time \<Rightarrow> SingleBucket \<Rightarrow> SingleBucket" where
  "cleanup now b = b\<lparr>sb_shards := shard_map (cleanup_entry (now - sb_window b)) (sb_shards b)\<rparr>"

text \<open>The ticker interval of \<^verbatim>\<open>cleanupLoop\<close>, and one iteration of its \<^verbatim>\<open>select\<close>.\<close>

definition cleanup_interval :: "SingleBucket \<Rightarrow> duration" where
  "cleanup_interval b =
     (let interval = wrap64 (sb_window b * 2) in if interval < Second then Second else interval)"

datatype loop_event = Tick time | Stopped

fun cleanupLoop :: "loop_event list \<Rightarrow> SingleBucket \<Rightarrow> SingleBucket" where
  "cleanupLoop [] b = b"
| "cleanupLoop (Tick now # es) b = cleanupLoop es (cleanup now b)"
| "cleanupLoop (Stopped # es) b = b"

record DualBucket =
  db_read :: SingleBucket
  db_write :: SingleBucket

definition NewDualBucket :: "duration \<Rightarrow> int \<Rightarrow> int \<Rightarrow> DualBucket" where
  "NewDualBucket window maxRead maxWrite =
     \<lparr>db_read = NewSingleBucket window maxRead, db_write = NewSingleBucket window maxWrite\<rparr>"

definition Dual_AllowN ::
  "(peer_id \<Rightarrow> string) \<Rightarrow> time \<Rightarrow> peer_id \<Rightarrow> int \<Rightarrow> bool \<Rightarrow> DualBucket \<Rightarrow> bool \<times> DualBucket" where
  "Dual_AllowN str now peerID n isWrite d =
     (if isWrite then
        (let (ok, b) = AllowN str now peerID n (db_write d) in (ok, d\<lparr>db_write := b\<rparr>))
      else
        (let (ok, b) = AllowN str now peerID n (db_read d) in (ok, d\<lparr>db_read := b\<rparr>)))"

definition Dual_Allow ::
  "(peer_id \<Rightarrow> string) \<Rightarrow> time \<Rightarrow> peer_id \<Rightarrow> bool \<Rightarrow> DualBucket \<Rightarrow> bool \<times> DualBucket" where
  "Dual_Allow str now peerID isWrite d = Dual_AllowN str now peerID 1 isWrite d"

definition Dual_Close :: "DualBucket \<Rightarrow> DualBucket option" where
  "Dual_Close d =
     (case Close (db_read d) of
        None \<Rightarrow> None
      | Some r \<Rightarrow>
          (case Close (db_write d) of
             None \<Rightarrow> None
           | Some w \<Rightarrow> Some (d\<lparr>db_read := r, db_write := w\<rparr>)))"

subsection \<open>One peer's window\<close>

definition window_of :: "SingleBucket \<Rightarrow> string \<Rightarrow> time list" where
  "window_of b key = (case shard_get (sb_shards b) key of None \<Rightarrow> [] | Some h \<Rightarrow> h)"

definition bucket_ok :: "duration \<Rightarrow> int \<Rightarrow> SingleBucket \<Rightarrow> bool" where
  "bucket_ok window maxRequests b \<longleftrightarrow>
     shards_ok (sb_shards b) \<and> sb_window b = window \<and> sb_maxRequests b = maxRequests"

text \<open>What one request does to the recorded instants of the peer that makes it.\<close>

definition window_step :: "duration \<Rightarrow> int \<Rightarrow> time \<Rightarrow> int \<Rightarrow> time list \<Rightarrow> bool \<times> time list" where
  "window_step window maxRequests now n h =
     (if n \<le> 0 then (True, h)
      else let f = filter (\<lambda>ts. now - window < ts) h in
        if maxRequests < wrap64 (int (length f) + n) then (False, f)
        else (True, f @ replicate (nat n) now))"

lemma bucket_ok_New [simp]: "bucket_ok w m (NewSingleBucket w m)"
  by (simp add: bucket_ok_def NewSingleBucket_def)

lemma window_of_New [simp]: "window_of (NewSingleBucket w m) key = []"
  by (simp add: window_of_def NewSingleBucket_def)

lemma bucket_ok_AllowN: "bucket_ok w m b \<Longrightarrow> bucket_ok w m (snd (AllowN str now p n b))"
  by (simp add: AllowN_def Let_def bucket_ok_def)

lemma AllowN_step:
  assumes "bucket_ok w m b"
  shows "fst (AllowN str now p n b) = fst (window_step w m now n (window_of b (str p)))"
    and "window_of (snd (AllowN str now p n b)) =
      (window_of b)(str p := snd (window_step w m now n (window_of b (str p))))"
  using assms
  by (auto simp: AllowN_def window_step_def Let_def bucket_ok_def window_of_def shard_get_put fun_eq_iff)

lemma window_of_cleanup:
  "bucket_ok w m b \<Longrightarrow> window_of (cleanup now b) key = filter (\<lambda>ts. now - w < ts) (window_of b key)"
  by (auto simp: cleanup_def bucket_ok_def window_of_def shard_get_map cleanup_entry_def Let_def
      split: option.splits)

lemma bucket_ok_cleanup: "bucket_ok w m b \<Longrightarrow> bucket_ok w m (cleanup now b)"
  by (simp add: cleanup_def bucket_ok_def)

lemma filter_later:
  fixes T t w :: int
  assumes "filter (\<lambda>a. T - w < a) h = filter (\<lambda>a. T - w < a) h'" and "T \<le> t"
  shows "filter (\<lambda>a. t - w < a) h = filter (\<lambda>a. t - w < a) h'"
proof -
  have "filter (\<lambda>a. t - w < a) X = filter (\<lambda>a. t - w < a) (filter (\<lambda>a. T - w < a) X)" for X
    using filter_filter_le [of "T - w" "t - w" X] assms(2) by simp
  with assms(1) show ?thesis by metis
qed

text \<open>
  Two records of a peer's instants cannot be told apart once they agree on the current window; the
  sweep keeps the window.
\<close>

interpretation window_limiter:
  sweeping_limiter "AllowN str" str "bucket_ok w m" window_of "window_step w m" cleanup
    "\<lambda>t h h'. filter (\<lambda>a. t - w < a) h = filter (\<lambda>a. t - w < a) h'"
  for str w m
proof (unfold_locales, goal_cases)
  case (1 b t p n)
  then show ?case by (rule bucket_ok_AllowN)
next
  case (2 b t p n)
  then show ?case by (rule AllowN_step(1))
next
  case (3 b t p n)
  then show ?case by (rule AllowN_step(2))
next
  case (4 b t)
  then show ?case by (rule bucket_ok_cleanup)
next
  case (5 b t k)
  then show ?case by (simp add: window_of_cleanup [of w m])
next
  case (8 s u v t)
  then show ?case by (rule filter_later)
next
  case (9 t u v n)
  then show ?case by (simp add: window_step_def Let_def)
next
  case (10 t u v n)
  then show ?case by (auto simp: window_step_def Let_def)
qed simp_all

subsection \<open>Histories\<close>

text \<open>
  \<open>admitted str key es b\<close> are the instants of the units admitted for one key, in order.
\<close>

fun admitted :: "(peer_id \<Rightarrow> string) \<Rightarrow> string \<Rightarrow> peer_id limiter_event list \<Rightarrow> SingleBucket \<Rightarrow> time list" where
  "admitted str key [] b = []"
| "admitted str key (Ask t p n # es) b =
     (if fst (AllowN str t p n b) \<and> str p = key then replicate (nat n) t else []) @
     admitted str key es (snd (AllowN str t p n b))"
| "admitted str key (Sweep t # es) b = admitted str key es (cleanup t b)"

definition within :: "duration \<Rightarrow> time \<Rightarrow> time list \<Rightarrow> time list" where
  "within w t ts = filter (\<lambda>a. t - w < a \<and> a \<le> t) ts"

definition no_overflow :: "int \<Rightarrow> peer_id limiter_event list \<Rightarrow> bool" where
  "no_overflow m es = list_all (\<lambda>e. case e of Ask t p n \<Rightarrow> max 0 m + n \<le> MaxInt | Sweep t \<Rightarrow> True) es"

text \<open>
  \<open>tracks w m b key A T\<close>: the limiter's record of the key and the instants \<open>A\<close> admitted for it so
  far agree on the window ending at \<open>T\<close>, and no window over \<open>A\<close> holds more than \<open>m\<close>.
\<close>

definition tracks :: "duration \<Rightarrow> int \<Rightarrow> time list \<Rightarrow> time list \<Rightarrow> time \<Rightarrow> bool" where
  "tracks w m h A T \<longleftrightarrow> (\<forall>a \<in> set A. a \<le> T) \<and>
     filter (\<lambda>a. T - w < a) h = filter (\<lambda>a. T - w < a) A \<and> (\<forall>t. length (within w t A) \<le> nat m)"

lemma tracks_later:
  assumes "tracks w m h A T" "T \<le> t"
  shows "tracks w m h A t" and "filter (\<lambda>a. t - w < a) h = filter (\<lambda>a. t - w < a) A"
    and "length (filter (\<lambda>a. t - w < a) h) \<le> nat m"
proof -
  show eq: "filter (\<lambda>a. t - w < a) h = filter (\<lambda>a. t - w < a) A"
    using assms by (auto simp: tracks_def intro: filter_later)
  with assms show "tracks w m h A t" by (auto simp: tracks_def)
  have "within w t A = filter (\<lambda>a. t - w < a) A"
    using assms by (auto simp: within_def tracks_def intro!: filter_cong)
  with eq assms(1) show "length (filter (\<lambda>a. t - w < a) h) \<le> nat m"
    by (auto simp: tracks_def dest: spec [of _ t])
qed

lemma within_append: "within w t (A @ B) = within w t A @ within w t B"
  by (simp add: within_def)

lemma tracks_step:
  assumes tr: "tracks w m h A T" and T: "T \<le> t" and n: "max 0 m + n \<le> MaxInt"
  shows "tracks w m (snd (window_step w m t n h))
    (A @ (if fst (window_step w m t n h) then replicate (nat n) t else [])) t"
proof -
  note later = tracks_later [OF tr T]
  let ?f = "filter (\<lambda>a. t - w < a) h"
  consider "n \<le> 0" | "0 < n" "m < int (length ?f) + n" | "0 < n" "int (length ?f) + n \<le> m"
    by linarith
  then show ?thesis
  proof cases
    case 1
    with later(1) show ?thesis by (simp add: window_step_def)
  next
    case 2
    moreover have "in_int64 (int (length ?f) + n)"
      using 2 later(3) n by (auto simp: go_defs)
    ultimately show ?thesis
      using later(1) by (simp add: window_step_def tracks_def)
  next
    case 3
    moreover have "in_int64 (int (length ?f) + n)"
      using 3 later(3) n by (auto simp: go_defs)
    moreover have "length (within w u (A @ replicate (nat n) t)) \<le> nat m" for u
    proof (cases "t \<le> u")
      case True
      then have "length (within w u A) \<le> length (filter (\<lambda>a. t - w < a) A)"
        unfolding within_def by (intro length_filter_mono) auto
      moreover have "length (within w u (replicate (nat n) t)) \<le> nat n"
        unfolding within_def by (metis length_filter_le length_replicate)
      ultimately show ?thesis using 3 later(2) by (simp add: within_append)
    next
      case False
      then have "within w u (replicate (nat n) t) = []" by (simp add: within_def)
      with later(1) show ?thesis by (simp add: within_append tracks_def)
    qed
    ultimately show ?thesis
      using later(1,2) by (auto simp: window_step_def tracks_def)
  qed
qed

lemma tracks_run:
  assumes "tracks w m (window_of b key) A T" "bucket_ok w m b" "no_overflow m es"
    and "sorted (T # map event_at es)"
  shows "length (within w t (A @ admitted str key es b)) \<le> nat m"
  using assms
proof (induction es arbitrary: A T b)
  case Nil
  then show ?case by (simp add: tracks_def)
next
  case (Cons e es)
  show ?case
  proof (cases e)
    case (Sweep u)
    have "tracks w m (window_of (cleanup u b) key) A u"
      using tracks_later [OF Cons.prems(1), of u] Cons.prems Sweep
      by (auto simp: window_of_cleanup tracks_def)
    with Cons.IH [of "cleanup u b" A u] Cons.prems Sweep show ?thesis
      by (simp add: bucket_ok_cleanup no_overflow_def)
  next
    case (Ask u p n)
    let ?b = "snd (AllowN str u p n b)"
    let ?new = "if fst (AllowN str u p n b) \<and> str p = key then replicate (nat n) u else []"
    have u: "T \<le> u" "max 0 m + n \<le> MaxInt" "sorted (u # map event_at es)" "no_overflow m es"
      using Cons.prems Ask by (auto simp: no_overflow_def)
    have "tracks w m (window_of ?b key) (A @ ?new) u"
      using tracks_step [OF Cons.prems(1) u(1,2)] tracks_later(1) [OF Cons.prems(1) u(1)]
      by (cases "str p = key") (auto simp: AllowN_step [OF Cons.prems(2)])
    from Cons.IH [OF this bucket_ok_AllowN [OF Cons.prems(2)] u(4,3)] Ask show ?thesis by simp
  qed
qed

lemma cleanup_interval_ge: "Second \<le> cleanup_interval b"
  by (simp add: cleanup_interval_def Let_def)

text \<open>The bound, from the empty limiter on.\<close>

lemma admitted_bound:
  assumes "sorted (map event_at es)" "no_overflow m es"
  shows "length (within w t (admitted str key es (NewSingleBucket w m))) \<le> nat m"
proof (cases es)
  case (Cons e es')
  have "tracks w m (window_of (NewSingleBucket w m) key) [] (event_at e)"
    by (simp add: tracks_def within_def)
  from tracks_run [OF this bucket_ok_New assms(2)] assms(1) Cons show ?thesis by simp
qed (simp add: within_def)

subsection \<open>Properties\<close>

text \<open>
  C7.  The sliding-window guarantee: in any history of requests and sweeps of a limiter built with
  \<^verbatim>\<open>NewSingleBucket(window, maxRequests)\<close>, with instants that do not go backwards, no interval of
  length \<^verbatim>\<open>window\<close> contains more than \<^verbatim>\<open>maxRequests\<close> units admitted for one peer, as long as no
  requested cost is so large that \<^verbatim>\<open>len(filtered)+n\<close> can overflow.
\<close>

theorem sliding_window_bound:
  assumes "sorted (map event_at es)" "no_overflow m es"
  shows "length (within w t (admitted str key es (NewSingleBucket w m))) \<le> nat m"
  using assms by (rule admitted_bound)

theorem sliding_window_bound_witness:
  "length (within 10 12 (admitted (\<lambda>p. p) ''a''
     [Ask 1 ''a'' 1, Ask 3 ''a'' 1, Ask 4 ''a'' 1, Sweep 11, Ask 12 ''a'' 1] (NewSingleBucket 10 2))) \<le> nat 2"
  by (rule sliding_window_bound) (simp_all add: no_overflow_def MaxInt_def)

text \<open>
  C31.  \<^verbatim>\<open>AllowN\<close> decides exactly by the units of the current window and is all-or-nothing.  For a positive \<open>n\<close>
  that, added to the number of instants on record for the key, does not overflow an \<^verbatim>\<open>int\<close>, it admits iff the
  window has room for all \<open>n\<close>, and then records all \<open>n\<close>; otherwise it records none, and in both cases
  no other key is touched.
\<close>

theorem AllowN_exact:
  assumes "bucket_ok w m b" "0 < n" "in_int64 (int (length (window_of b (str p))) + n)"
    and "recent = filter (\<lambda>ts. now - w < ts) (window_of b (str p))"
  shows "fst (AllowN str now p n b) = (int (length recent) + n \<le> m) \<and>
    window_of (snd (AllowN str now p n b)) =
      (window_of b)(str p := recent @ (if int (length recent) + n \<le> m then replicate (nat n) now else []))"
proof -
  have "int (length recent) \<le> int (length (window_of b (str p)))" by (simp add: assms(4))
  then have "in_int64 (int (length recent) + n)"
    using assms(2,3) unfolding in_int64_def by (simp add: MinInt_def)
  with assms show ?thesis
    by (simp add: AllowN_step [OF assms(1)] window_step_def)
qed

theorem AllowN_exact_witness:
  "fst (AllowN (\<lambda>p. p) 7 ''a'' 3 (NewSingleBucket Minute 2)) = False \<and>
   window_of (snd (AllowN (\<lambda>p. p) 7 ''a'' 3 (NewSingleBucket Minute 2))) ''a'' = []"
  using AllowN_exact [OF bucket_ok_New, of 3 Minute 2 "\<lambda>p. p" "''a''" "[]" 7]
  by (simp add: go_defs)

text \<open>
  C32.  Sweeping is invisible: in any history of requests and background cleanups whose instants do
  not go backwards, every answer is the one the limiter gives when the cleanups never run, so
  dropping expired instants and empty entries changes no decision.
\<close>

theorem cleanup_transparent:
  assumes "bucket_ok w m b" "sorted (map event_at es)"
  shows "answers (AllowN str) cleanup es b = decisions (AllowN str) (asks es) b"
  using assms by (rule window_limiter.sweeps_invisible)

theorem cleanup_transparent_witness:
  "answers (AllowN (\<lambda>p. p)) cleanup [Ask 1 ''a'' 1, Sweep 8, Ask 9 ''a'' 1] (NewSingleBucket 5 1) =
   decisions (AllowN (\<lambda>p. p)) [Request 1 ''a'' 1, Request 9 ''a'' 1] (NewSingleBucket 5 1)"
  using cleanup_transparent [OF bucket_ok_New, of "[Ask 1 ''a'' 1, Sweep 8, Ask 9 ''a'' 1]" "\<lambda>p. p" 5 1]
  by simp

text \<open>
  Peers do not interfere: with an injective peer key, the decisions about a peer in any history
  are those of the history with every other peer's requests removed.
\<close>

lemma window_noninterference:
  assumes "inj str"
  shows "about p (decisions (AllowN str) rs (NewSingleBucket w m)) =
    about p (decisions (AllowN str) (filter (\<lambda>r. req_peer r = p) rs) (NewSingleBucket w m))"
  by (rule window_limiter.decisions_noninterference [where w = w and m = m]) (simp_all add: assms)

end
