(* ===== verification/Rate_Token.thy ===== *)
theory Rate_Token
  imports Rate_Limiter Float64
begin

text \<open>
  The token-bucket limiter, \<^verbatim>\<open>src/middleware/tokenbucket.go\<close>: \<^verbatim>\<open>TokenBucket\<close> and
  \<^verbatim>\<open>DualTokenBucket\<close>.  Token counts are \<^verbatim>\<open>float64\<close> values, and every operation on them is rounded
  (\<open>fl64\<close>), one rounding per operation as the amd64 compiler emits them (no fused multiply-add).
  As in the sliding window, \<^verbatim>\<open>time.Now()\<close> and \<^verbatim>\<open>peer.ID.String\<close> are arguments.  The language
  leaves the conversion of an out-of-range \<^verbatim>\<open>float64\<close> to \<^verbatim>\<open>int64\<close> to the implementation: that value
  is the argument \<open>ovf\<close>.
\<close>

subsection \<open>Durations and floating point\<close>

text \<open>\<^verbatim>\<open>Duration.Seconds\<close>, \<^verbatim>\<open>Duration.Round\<close> and the conversion of a \<^verbatim>\<open>float64\<close> to a duration.\<close>

definition Seconds :: "duration \<Rightarrow> rat" where
  "Seconds d =
     fl64 (fl64 (of_int (d sdiv Second)) + fl64 (fl64 (of_int (d smod Second)) / 1000000000))"

definition Round :: "duration \<Rightarrow> duration \<Rightarrow> duration" where
  "Round d m =
     (if m \<le> 0 then d
      else if d < 0 then
        let r = - (d smod m) in
        if r + r < m then d + r
        else let d1 = wrap64 (d - m + r) in if d1 < d then d1 else MinInt
      else
        let r = d smod m in
        if r + r < m then d - r
        else let d1 = wrap64 (d + m - r) in if d < d1 then d1 else MaxInt)"

definition to_int64 :: "(rat \<Rightarrow> int) \<Rightarrow> rat \<Rightarrow> int" where
  "to_int64 ovf x =
     (let n = (if 0 \<le> x then \<lfloor>x\<rfloor> else \<lceil>x\<rceil>) in if in_int64 n then n else ovf x)"

subsection \<open>The bucket\<close>

record tokenState =
  ts_tokens :: rat
  ts_last :: time

record TokenBucket =
  tb_shards :: "tokenState shards"
  tb_refillPerSec :: rat
  tb_burst :: rat
  tb_unlimited :: bool
  tb_idleTTL :: duration
  tb_stopped :: bool

definition NewTokenBucket :: "duration \<Rightarrow> int \<Rightarrow> int \<Rightarrow> TokenBucket" where
  "NewTokenBucket window0 rate burst0 =
     (let window = (if window0 \<le> 0 then Minute else window0);
          b = \<lparr>tb_shards = new_shards, tb_refillPerSec = 0, tb_burst = 0, tb_unlimited = False,
               tb_idleTTL = 0, tb_stopped = False\<rparr>
      in if rate \<le> 0 then b\<lparr>tb_unlimited := True\<rparr>
         else
           let burst = (if burst0 \<le> 0 then rate else burst0)
           in b\<lparr>tb_refillPerSec := fl64 (fl64 (of_int rate) / Seconds window),
                tb_burst := fl64 (of_int burst),
                tb_idleTTL := wrap64 (2 * window)\<rparr>)"

definition refillWait :: "(rat \<Rightarrow> int) \<Rightarrow> rat \<Rightarrow> rat \<Rightarrow> duration" where
  "refillWait ovf shortfall refillPerSec =
     (if shortfall \<le> 0 \<or> refillPerSec \<le> 0 then 0
      else
        let d = to_int64 ovf (fl64 (fl64 (shortfall / refillPerSec) * fl64 (of_int Second)))
        in if d \<le> 0 then Millisecond else wrap64 (Round d Millisecond + Millisecond))"

text \<open>The lazy refill of \<^verbatim>\<open>AllowNWithRetry\<close>: elapsed time times rate, capped at the burst.\<close>

definition refilled :: "rat \<Rightarrow> rat \<Rightarrow> time \<Rightarrow> tokenState \<Rightarrow> rat" where
  "refilled refillPerSec burst now st =
     (let tokens = fl64 (ts_tokens st + fl64 (Seconds (time_Sub now (ts_last st)) * refillPerSec))
      in if burst < tokens then burst else tokens)"

definition Token_AllowNWithRetry ::
  "(rat \<Rightarrow> int) \<Rightarrow> (peer_id \<Rightarrow> string) \<Rightarrow> time \<Rightarrow> peer_id \<Rightarrow> int \<Rightarrow> TokenBucket \<Rightarrow>
   (bool \<times> duration) \<times> TokenBucket" where
  "Token_AllowNWithRetry ovf str now peerID n b =
     (if tb_unlimited b \<or> n \<le> 0 then ((True, 0), b)
      else
        let cost = fl64 (of_int n) in
        if tb_burst b < cost then ((False, 0), b)
        else
          let key = str peerID;
              st = (case shard_get (tb_shards b) key of
                      None \<Rightarrow> \<lparr>ts_tokens = tb_burst b, ts_last = now\<rparr>
                    | Some st \<Rightarrow>
                        \<lparr>ts_tokens = refilled (tb_refillPerSec b) (tb_burst b) now st, ts_last = now\<rparr>)
          in if ts_tokens st < cost
             then ((False, refillWait ovf (fl64 (cost - ts_tokens st)) (tb_refillPerSec b)),
                   b\<lparr>tb_shards := shard_put (tb_shards b) key st\<rparr>)
             else ((True, 0),
                   b\<lparr>tb_shards := shard_put (tb_shards b) key
                       (st\<lparr>ts_tokens := fl64 (ts_tokens st - cost)\<rparr>)\<rparr>))"

definition Token_AllowN ::
  "(rat \<Rightarrow> int) \<Rightarrow> (peer_id \<Rightarrow> string) \<Rightarrow> time \<Rightarrow> peer_id \<Rightarrow> int \<Rightarrow> TokenBucket \<Rightarrow> bool \<times> TokenBucket" where
  "Token_AllowN ovf str now peerID n b =
     (let ((ok, _), b') = Token_AllowNWithRetry ovf str now peerID n b in (ok, b'))"

definition Token_Allow ::
  "(rat \<Rightarrow> int) \<Rightarrow> (peer_id \<Rightarrow> string) \<Rightarrow> time \<Rightarrow> peer_id \<Rightarrow> TokenBucket \<Rightarrow> bool \<times> TokenBucket" where
  "Token_Allow ovf str now peerID b = Token_AllowN ovf str now peerID 1 b"

definition TrackedPeers :: "TokenBucket \<Rightarrow> nat" where
  "TrackedPeers b =
     (if tb_unlimited b then 0 else sum_list (map (\<lambda>s. card (dom s)) (tb_shards b)))"

text \<open>\<^verbatim>\<open>Close\<close> runs its body under a \<^verbatim>\<open>sync.Once\<close>, so a second call does nothing.\<close>

definition Token_Close :: "TokenBucket \<Rightarrow> TokenBucket" where
  "Token_Close b = (if tb_stopped b then b else b\<lparr>tb_stopped := True\<rparr>)"

definition evict_entry :: "duration \<Rightarrow> rat \<Rightarrow> rat \<Rightarrow> time \<Rightarrow> tokenState \<Rightarrow> tokenState option" where
  "evict_entry idleTTL refillPerSec burst now st =
     (if time_Sub now (ts_last st) < idleTTL then Some st
      else if burst \<le> fl64 (ts_tokens st + fl64 (Seconds (time_Sub now (ts_last st)) * refillPerSec))
      then None else Some st)"

definition evictIdle :: "time \<Rightarrow> TokenBucket \<Rightarrow> TokenBucket" where
  "evictIdle now b =
     b\<lparr>tb_shards :=
         shard_map (evict_entry (tb_idleTTL b) (tb_refillPerSec b) (tb_burst b) now) (tb_shards b)\<rparr>"

definition Token_cleanup_interval :: "TokenBucket \<Rightarrow> duration" where
  "Token_cleanup_interval b = (if tb_idleTTL b < Second then Second else tb_idleTTL b)"

text \<open>The background loop, driven by what its \<^verbatim>\<open>select\<close> receives: ticks (\<^const>\<open>Some\<close>) and the stop signal.\<close>

fun Token_cleanupLoop :: "time option list \<Rightarrow> TokenBucket \<Rightarrow> TokenBucket" where
  "Token_cleanupLoop [] b = b"
| "Token_cleanupLoop (Some now # es) b = Token_cleanupLoop es (evictIdle now b)"
| "Token_cleanupLoop (None # es) b = b"

record DualTokenBucket =
  dt_read :: TokenBucket
  dt_write :: TokenBucket

definition NewDualTokenBucket :: "duration \<Rightarrow> int \<Rightarrow> int \<Rightarrow> int \<Rightarrow> int \<Rightarrow> DualTokenBucket" where
  "NewDualTokenBucket window readRate readBurst writeRate writeBurst =
     \<lparr>dt_read = NewTokenBucket window readRate readBurst,
      dt_write = NewTokenBucket window writeRate writeBurst\<rparr>"

definition DualToken_AllowNWithRetry ::
  "(rat \<Rightarrow> int) \<Rightarrow> (peer_id \<Rightarrow> string) \<Rightarrow> time \<Rightarrow> peer_id \<Rightarrow> int \<Rightarrow> bool \<Rightarrow> DualTokenBucket \<Rightarrow>
   (bool \<times> duration) \<times> DualTokenBucket" where
  "DualToken_AllowNWithRetry ovf str now peerID n isWrite d =
     (if isWrite then
        let (r, b) = Token_AllowNWithRetry ovf str now peerID n (dt_write d) in (r, d\<lparr>dt_write := b\<rparr>)
      else
        let (r, b) = Token_AllowNWithRetry ovf str now peerID n (dt_read d) in (r, d\<lparr>dt_read := b\<rparr>))"

definition DualToken_AllowN ::
  "(rat \<Rightarrow> int) \<Rightarrow> (peer_id \<Rightarrow> string) \<Rightarrow> time \<Rightarrow> peer_id \<Rightarrow> int \<Rightarrow> bool \<Rightarrow> DualTokenBucket \<Rightarrow>
   bool \<times> DualTokenBucket" where
  "DualToken_AllowN ovf str now peerID n isWrite d =
     (let ((ok, _), d') = DualToken_AllowNWithRetry ovf str now peerID n isWrite d in (ok, d'))"

definition DualToken_Allow ::
  "(rat \<Rightarrow> int) \<Rightarrow> (peer_id \<Rightarrow> string) \<Rightarrow> time \<Rightarrow> peer_id \<Rightarrow> bool \<Rightarrow> DualTokenBucket \<Rightarrow>
   bool \<times> DualTokenBucket" where
  "DualToken_Allow ovf str now peerID isWrite d = DualToken_AllowN ovf str now peerID 1 isWrite d"

definition DualToken_Close :: "DualTokenBucket \<Rightarrow> DualTokenBucket" where
  "DualToken_Close d = d\<lparr>dt_read := Token_Close (dt_read d), dt_write := Token_Close (dt_write d)\<rparr>"

subsection \<open>One peer's bucket\<close>

definition tokens_of :: "TokenBucket \<Rightarrow> string \<Rightarrow> tokenState option" where
  "tokens_of b key = shard_get (tb_shards b) key"

text \<open>The tokens a peer may spend at an instant; a peer without an entry has a full bucket.\<close>

definition level :: "rat \<Rightarrow> rat \<Rightarrow> time \<Rightarrow> tokenState option \<Rightarrow> rat" where
  "level r B now v = (case v of None \<Rightarrow> B | Some st \<Rightarrow> refilled r B now st)"

definition token_step ::
  "(rat \<Rightarrow> int) \<Rightarrow> rat \<Rightarrow> rat \<Rightarrow> time \<Rightarrow> int \<Rightarrow> tokenState option \<Rightarrow> (bool \<times> duration) \<times> tokenState option" where
  "token_step ovf r B now n v =
     (if n \<le> 0 then ((True, 0), v)
      else
        let cost = fl64 (of_int n); l = level r B now v in
        if B < cost then ((False, 0), v)
        else if l < cost then ((False, refillWait ovf (fl64 (cost - l)) r), Some \<lparr>ts_tokens = l, ts_last = now\<rparr>)
        else ((True, 0), Some \<lparr>ts_tokens = fl64 (l - cost), ts_last = now\<rparr>))"

subsection \<open>Rounding of the elapsed time and of the wait\<close>

abbreviation unit_roundoff :: rat where "unit_roundoff \<equiv> 1 / 2 ^ 53"

text \<open>A duration in whole seconds and nanoseconds.\<close>

lemma Seconds_split:
  assumes "0 \<le> d" "in_int64 d"
  obtains s m where "d = s * 1000000000 + m" "0 \<le> s" "s < 2 ^ 53" "0 \<le> m" "m < 1000000000"
    and "s = d div 1000000000" and "Seconds d = fl64 (of_int s + fl64 (of_int m / 1000000000))"
proof
  have "d \<le> 9223372036854775807" using assms(2) by (simp add: go_defs)
  then have s: "d div 1000000000 < 2 ^ 53" by simp
  then show "d div 1000000000 < 2 ^ 53" .
  have "fl64 (of_int (d mod 1000000000)) = of_int (d mod 1000000000)"
    "fl64 (of_int (d div 1000000000)) = of_int (d div 1000000000)"
    using s assms(1) pos_mod_bound [of 1000000000 d] by (auto intro!: float64.fl_int simp: pos_imp_zdiv_nonneg_iff)
  moreover have "d sdiv Second = d div 1000000000" "d smod Second = d mod 1000000000"
    using assms(1) by (simp_all add: signed_divide_int_def signed_modulo_int_def go_defs sgn_if)
  ultimately show "Seconds d = fl64 (of_int (d div 1000000000) + fl64 (of_int (d mod 1000000000) / 1000000000))"
    by (simp add: Seconds_def)
qed (use assms in \<open>simp_all add: pos_imp_zdiv_nonneg_iff\<close>)

lemma Seconds_0: "Seconds 0 = 0"
  by (simp add: Seconds_def float64.fl_0)

lemma Seconds_mono:
  assumes "0 \<le> d" "d \<le> e" "in_int64 e"
  shows "Seconds d \<le> Seconds e"
proof -
  have "in_int64 d" using assms by (simp add: go_defs)
  with assms(1) obtain s m where d: "d = s * 1000000000 + m" "0 \<le> s" "s < 2 ^ 53" "0 \<le> m" "m < 1000000000"
      "s = d div 1000000000" "Seconds d = fl64 (of_int s + fl64 (of_int m / 1000000000))"
    by (rule Seconds_split)
  have "0 \<le> e" using assms by simp
  then obtain s' m' where e: "e = s' * 1000000000 + m'" "0 \<le> s'" "s' < 2 ^ 53" "0 \<le> m'" "m' < 1000000000"
      "s' = e div 1000000000" "Seconds e = fl64 (of_int s' + fl64 (of_int m' / 1000000000))"
    using assms(3) by (rule Seconds_split)
  show ?thesis
  proof (cases "s = s'")
    case True
    with assms(2) d(1) e(1) have "m \<le> m'" by simp
    then show ?thesis
      unfolding d(7) e(7) True by (intro float64.fl_mono add_left_mono divide_right_mono) simp_all
  next
    case False
    then have s: "s + 1 \<le> s'" using zdiv_mono1 [OF assms(2), of 1000000000] d(6) e(6) by simp
    have "fl64 (of_int m / 1000000000) \<le> fl64 (of_int 1)"
      using d(5) by (intro float64.fl_mono) (simp add: less_imp_le)
    then have "of_int s + fl64 (of_int m / 1000000000) \<le> of_int s + of_int 1"
      using float64.fl_int [of 1] by simp
    also have "\<dots> \<le> of_int s'" using s of_int_le_iff [of "s + 1" s'] by simp
    also have "\<dots> \<le> of_int s' + fl64 (of_int m' / 1000000000)" using e(4) by (simp add: float64.fl_nonneg)
    finally show ?thesis unfolding d(7) e(7) by (rule float64.fl_mono)
  qed
qed

lemma Seconds_nonneg: "0 \<le> d \<Longrightarrow> in_int64 d \<Longrightarrow> 0 \<le> Seconds d"
  using Seconds_mono [of 0 d] by (simp add: Seconds_0)

lemma Seconds_bounds:
  assumes "0 \<le> d" "in_int64 d"
  shows "(1 - unit_roundoff) ^ 2 * (of_int d / 1000000000) \<le> Seconds d"
    and "Seconds d \<le> (1 + unit_roundoff) ^ 2 * (of_int d / 1000000000)"
proof -
  from assms obtain s m where d: "d = s * 1000000000 + m" "0 \<le> s" "s < 2 ^ 53" "0 \<le> m" "m < 1000000000"
      "s = d div 1000000000" "Seconds d = fl64 (of_int s + fl64 (of_int m / 1000000000))"
    by (rule Seconds_split)
  define S M F where "S = (of_int s :: rat)" and "M = (of_int m / 1000000000 :: rat)" and "F = fl64 M"
  have pos: "0 \<le> S" "0 \<le> M" using d by (simp_all add: S_def M_def)
  have dS: "of_int d / 1000000000 = S + M" by (simp add: d(1) S_def M_def field_simps)
  have F: "(1 - unit_roundoff) * M \<le> F" "F \<le> (1 + unit_roundoff) * M"
    unfolding F_def using float64.fl_lower [OF pos(2)] float64.fl_upper [OF pos(2)] .
  have "0 \<le> F" unfolding F_def using pos(2) by (rule float64.fl_nonneg)
  with pos have SF: "0 \<le> S + F" by simp
  have sec: "Seconds d = fl64 (S + F)" by (simp add: d(7) S_def M_def F_def)
  have "(1 - unit_roundoff) ^ 2 * (S + M) \<le> (1 - unit_roundoff) * (S + F)"
    using F(1) pos by (simp add: power2_eq_square algebra_simps)
  with float64.fl_lower [OF SF]
  show "(1 - unit_roundoff) ^ 2 * (of_int d / 1000000000) \<le> Seconds d" unfolding sec dS by linarith
  have "(1 + unit_roundoff) * (S + F) \<le> (1 + unit_roundoff) ^ 2 * (S + M)"
    using F(2) pos by (simp add: power2_eq_square algebra_simps)
  with float64.fl_upper [OF SF]
  show "Seconds d \<le> (1 + unit_roundoff) ^ 2 * (of_int d / 1000000000)" unfolding sec dS by linarith
qed

text \<open>What a refill adds, exactly and after rounding.\<close>

definition gain :: "rat \<Rightarrow> duration \<Rightarrow> rat" where
  "gain r d = fl64 (Seconds d * r)"

lemma refilled_gain:
  "refilled r B now st = min B (fl64 (ts_tokens st + gain r (time_Sub now (ts_last st))))"
  by (simp add: refilled_def gain_def Let_def min_def)

lemma gain_nonneg: "0 \<le> d \<Longrightarrow> in_int64 d \<Longrightarrow> 0 \<le> r \<Longrightarrow> 0 \<le> gain r d"
  by (simp add: gain_def float64.fl_nonneg Seconds_nonneg)

lemma gain_mono: "0 \<le> d \<Longrightarrow> d \<le> e \<Longrightarrow> in_int64 e \<Longrightarrow> 0 \<le> r \<Longrightarrow> gain r d \<le> gain r e"
  by (simp add: gain_def float64.fl_mono mult_right_mono Seconds_mono)

lemma gain_lower:
  assumes "0 \<le> d" "in_int64 d" "0 \<le> r"
  shows "(1 - unit_roundoff) ^ 3 * (of_int d / 1000000000 * r) \<le> gain r d"
proof -
  have "(1 - unit_roundoff) * ((1 - unit_roundoff) ^ 2 * (of_int d / 1000000000) * r) \<le>
      (1 - unit_roundoff) * (Seconds d * r)"
    by (intro mult_left_mono mult_right_mono Seconds_bounds assms) simp
  also have "\<dots> \<le> gain r d"
    unfolding gain_def using Seconds_nonneg [OF assms(1,2)] assms(3) by (intro float64.fl_lower) simp
  finally show ?thesis by (simp add: power2_eq_square power3_eq_cube mult.assoc)
qed

lemma gain_upper:
  assumes "0 \<le> d" "in_int64 d" "0 \<le> r"
  shows "gain r d \<le> (1 + unit_roundoff) ^ 3 * (of_int d / 1000000000 * r)"
proof -
  have "gain r d \<le> (1 + unit_roundoff) * (Seconds d * r)"
    unfolding gain_def using Seconds_nonneg [OF assms(1,2)] assms(3) by (intro float64.fl_upper) simp
  also have "\<dots> \<le> (1 + unit_roundoff) * ((1 + unit_roundoff) ^ 2 * (of_int d / 1000000000) * r)"
    by (intro mult_left_mono mult_right_mono Seconds_bounds assms) simp
  finally show ?thesis by (simp add: power2_eq_square power3_eq_cube mult.assoc)
qed

text \<open>The conversion and the rounding to milliseconds lose less than the millisecond added.\<close>

lemma Round_millisecond:
  assumes "0 < d" "d + 2 * Millisecond \<le> MaxInt"
  shows "d - 499999 \<le> Round d Millisecond" and "Round d Millisecond \<le> d + Millisecond"
proof -
  define r where "r = d mod 1000000"
  have r: "0 \<le> r" "r < 1000000" by (simp_all add: r_def)
  have sm: "d smod 1000000 = r"
    using assms(1) by (simp add: signed_modulo_int_def r_def sgn_if)
  have "in_int64 (d + 1000000 - r)" using assms r by (simp add: go_defs)
  then have "Round d Millisecond = (if r + r < 1000000 then d - r else d + 1000000 - r)"
    using assms(1) r by (simp add: Round_def Let_def Millisecond_def sm)
  then show "d - 499999 \<le> Round d Millisecond" and "Round d Millisecond \<le> d + Millisecond"
    using r by (auto simp: Millisecond_def)
qed

lemma refillWait_covers:
  assumes "0 < s" "0 < r"
    and D: "D = fl64 (fl64 (s / r) * 1000000000)" "D \<le> 9223372036850000000"
  shows "D + 500000 \<le> of_int (refillWait ovf s r)" and "in_int64 (refillWait ovf s r)"
    and "0 < refillWait ovf s r"
proof -
  have D0: "0 \<le> D" unfolding D(1) using assms(1,2) by (simp add: float64.fl_nonneg)
  define d where "d = \<lfloor>D\<rfloor>"
  have d: "0 \<le> d" "d \<le> 9223372036850000000" "D < of_int d + 1"
    using D0 D(2) floor_correct [of D] by (auto simp: d_def floor_le_iff)
  have sec: "fl64 (of_int Second) = 1000000000"
    using float64.fl_int [of Second] by (simp add: Second_def)
  have "to_int64 ovf D = d" using D0 d by (simp add: to_int64_def Let_def d_def go_defs)
  then have w: "refillWait ovf s r = (if d \<le> 0 then Millisecond else wrap64 (Round d Millisecond + Millisecond))"
    using assms(1,2) by (simp add: refillWait_def Let_def sec D(1) [symmetric])
  have "D + 500000 \<le> of_int (refillWait ovf s r) \<and> in_int64 (refillWait ovf s r) \<and> 0 < refillWait ovf s r"
  proof (cases "d = 0")
    case True
    with d w show ?thesis by (simp add: go_defs)
  next
    case False
    with d have "0 < d" "d + 2 * Millisecond \<le> MaxInt" by (simp_all add: go_defs)
    note R = Round_millisecond [OF this]
    have "in_int64 (Round d Millisecond + Millisecond)" using R d by (simp add: go_defs)
    with w False d have w': "refillWait ovf s r = Round d Millisecond + Millisecond" by simp
    with R(1) have "d + 500001 \<le> refillWait ovf s r" by (simp add: go_defs)
    then have "of_int d + 500001 \<le> (of_int (refillWait ovf s r) :: rat)"
      using of_int_le_iff [of "d + 500001" "refillWait ovf s r", where ?'a = rat] by simp
    with d R \<open>in_int64 (Round d Millisecond + Millisecond)\<close> w' show ?thesis by (auto simp: go_defs)
  qed
  then show "D + 500000 \<le> of_int (refillWait ovf s r)" and "in_int64 (refillWait ovf s r)"
    and "0 < refillWait ovf s r" by blast+
qed

text \<open>The computed refill time against the exact one, \<open>S / r\<close> seconds.\<close>

lemma refill_time_bounds:
  assumes "0 < S" "0 < r" and "s = fl64 S" "D = fl64 (fl64 (s / r) * 1000000000)"
    and "q = 1 - unit_roundoff" "p = 1 + unit_roundoff"
  shows "0 < s" and "q ^ 3 * (S / r) * 1000000000 \<le> D" and "D \<le> p ^ 3 * (S * 1000000000 / r)"
proof -
  have q: "0 \<le> q" "0 \<le> p" by (simp_all add: assms(5,6))
  have s: "q * S \<le> s" "s \<le> p * S"
    unfolding assms(3,5,6) using assms(1) by (simp_all only: float64.fl_lower float64.fl_upper less_imp_le)
  then show s0: "0 < s" using assms(1) by (simp add: assms(5))
  have f: "q * (s / r) \<le> fl64 (s / r)" "fl64 (s / r) \<le> p * (s / r)" "0 \<le> fl64 (s / r)"
    unfolding assms(5,6) using s0 assms(2)
    by (simp_all only: float64.fl_lower float64.fl_upper float64.fl_nonneg divide_nonneg_pos less_imp_le)
  have D: "q * (fl64 (s / r) * 1000000000) \<le> D" "D \<le> p * (fl64 (s / r) * 1000000000)"
    unfolding assms(4-6) using f(3)
    by (simp_all only: float64.fl_lower float64.fl_upper mult_nonneg_nonneg zero_le_numeral)
  have "q * (q * (q * S / r) * 1000000000) \<le> q * (q * (s / r) * 1000000000)"
    using s(1) q assms(2) by (intro mult_left_mono mult_right_mono divide_right_mono) simp_all
  also have "\<dots> \<le> q * (fl64 (s / r) * 1000000000)"
    using f(1) q by (intro mult_left_mono mult_right_mono) simp_all
  also note D(1)
  finally show "q ^ 3 * (S / r) * 1000000000 \<le> D" by (simp add: power3_eq_cube mult.assoc)
  have "D \<le> p * (p * (s / r) * 1000000000)"
    using D(2) mult_left_mono [OF mult_right_mono [OF f(2)], of 1000000000 p] q by simp
  also have "\<dots> \<le> p * (p * (p * S / r) * 1000000000)"
    using s(2) q assms(2) by (intro mult_left_mono mult_right_mono divide_right_mono) simp_all
  finally show "D \<le> p ^ 3 * (S * 1000000000 / r)" by (simp add: power3_eq_cube)
qed

text \<open>
  A bucket that holds \<open>l\<close> tokens and is short of \<open>c\<close> holds them after the reported wait, all the
  rounding included, as long as it fills up from empty within \<open>2 ^ 62\<close> nanoseconds (146 years).
\<close>

lemma wait_sufficient:
  assumes l: "0 \<le> l" "l < of_int c" and c: "0 < c" "c < 2 ^ 53" and r: "0 < r"
    and slow: "of_int c * 1000000000 \<le> 2 ^ 62 * r"
    and w: "w = refillWait ovf (fl64 (of_int c - l)) r"
  shows "0 < w" and "in_int64 w" and "of_int c \<le> fl64 (l + gain r w)"
proof -
  define q p where "q = 1 - unit_roundoff" and "p = 1 + unit_roundoff"
  define S s D where "S = of_int c - l" and "s = fl64 S" and "D = fl64 (fl64 (s / r) * 1000000000)"
  have q: "0 \<le> q" "0 \<le> p" by (simp_all add: q_def p_def)
  have S: "0 < S" "S * 1000000000 \<le> 2 ^ 62 * r" using l slow by (simp_all add: S_def)
  note D = refill_time_bounds [OF S(1) r s_def D_def q_def p_def]
  note D(3)
  also have "p ^ 3 * (S * 1000000000 / r) \<le> p ^ 3 * 2 ^ 62"
    using S(2) r q by (intro mult_left_mono) (simp_all add: pos_divide_le_eq)
  also have "\<dots> \<le> 9223372036850000000" by (simp add: p_def power3_eq_cube)
  finally have "D \<le> 9223372036850000000" .
  note cover = refillWait_covers [OF D(1) r D_def this, of ovf]
  have w': "w = refillWait ovf s r" by (simp add: w s_def S_def)
  show "0 < w" "in_int64 w" using cover by (simp_all add: w')
  have "q ^ 3 * ((q ^ 3 * (S / r) * 1000000000 + 500000) / 1000000000 * r) \<le>
      q ^ 3 * (of_int w / 1000000000 * r)"
    using D(2) cover(1) q r w' by (intro mult_left_mono mult_right_mono divide_right_mono) simp_all
  also have "\<dots> \<le> gain r w"
    unfolding q_def using cover r by (intro gain_lower) (simp_all add: w')
  also have "q ^ 3 * ((q ^ 3 * (S / r) * 1000000000 + 500000) / 1000000000 * r) =
      q ^ 3 * q ^ 3 * S + q ^ 3 / 2000 * r"
    using r by (simp add: field_simps)
  finally have low: "q ^ 3 * q ^ 3 * S + q ^ 3 / 2000 * r \<le> gain r w" .
  have "(1 - q ^ 3 * q ^ 3) * S \<le> q ^ 3 / 2000 * 1000000000 / 2 ^ 62 * S"
    using S(1) by (intro mult_right_mono) (simp_all add: q_def power3_eq_cube)
  also have "\<dots> = q ^ 3 / 2000 / 2 ^ 62 * (S * 1000000000)" by simp
  also have "\<dots> \<le> q ^ 3 / 2000 / 2 ^ 62 * (2 ^ 62 * r)"
    using S(2) q by (intro mult_left_mono) simp_all
  also have "\<dots> = q ^ 3 / 2000 * r" by simp
  finally have "S \<le> gain r w" using low by (simp add: left_diff_distrib)
  then have "fl64 (of_int c) \<le> fl64 (l + gain r w)" by (intro float64.fl_mono) (simp add: S_def)
  then show "of_int c \<le> fl64 (l + gain r w)" using float64.fl_int [of c] c by simp
qed

subsection \<open>The contract\<close>

text \<open>The invariant of a limiting bucket with refill rate \<open>r\<close> and capacity \<open>B\<close>.\<close>

definition token_ok :: "rat \<Rightarrow> rat \<Rightarrow> TokenBucket \<Rightarrow> bool" where
  "token_ok r B b \<longleftrightarrow>
     shards_ok (tb_shards b) \<and> \<not> tb_unlimited b \<and> tb_refillPerSec b = r \<and> tb_burst b = B \<and>
     0 \<le> r \<and> 0 \<le> B \<and> fl64 B = B \<and> 0 \<le> tb_idleTTL b"

lemma token_ok_AllowN: "token_ok r B b \<Longrightarrow> token_ok r B (snd (Token_AllowNWithRetry ovf str now p n b))"
  by (simp add: Token_AllowNWithRetry_def Let_def token_ok_def)

lemma Token_AllowN_step:
  assumes "token_ok r B b"
  shows "fst (Token_AllowNWithRetry ovf str now p n b) = fst (token_step ovf r B now n (tokens_of b (str p)))"
    and "tokens_of (snd (Token_AllowNWithRetry ovf str now p n b)) =
      (tokens_of b)(str p := snd (token_step ovf r B now n (tokens_of b (str p))))"
  using assms
  by (auto simp: Token_AllowNWithRetry_def token_step_def Let_def token_ok_def tokens_of_def level_def
      shard_get_put fun_eq_iff split: option.splits)

lemma token_ok_evict: "token_ok r B b \<Longrightarrow> token_ok r B (evictIdle now b)"
  by (simp add: evictIdle_def token_ok_def)

lemma tokens_of_evict:
  "token_ok r B b \<Longrightarrow>
   tokens_of (evictIdle now b) key = Option.bind (tokens_of b key) (evict_entry (tb_idleTTL b) r B now)"
  by (simp add: evictIdle_def token_ok_def tokens_of_def shard_get_map)

lemma token_ok_New:
  assumes "0 < rate" "2 * window \<le> MaxInt"
  shows "token_ok (fl64 (fl64 (of_int rate) / Seconds (if window \<le> 0 then Minute else window)))
    (fl64 (of_int (if burst \<le> 0 then rate else burst))) (NewTokenBucket window rate burst)"
proof -
  have "in_int64 (2 * window)" if "0 < window" using assms that by (simp add: go_defs)
  moreover have "0 \<le> Seconds (if window \<le> 0 then Minute else window)"
    by (rule Seconds_nonneg) (use assms in \<open>auto simp: go_defs\<close>)
  ultimately show ?thesis
    using assms(1)
    by (auto simp: NewTokenBucket_def Let_def token_ok_def float64.fl_nonneg float64.fl_idem Minute_def in_int64_def
        MaxInt_def MinInt_def)
qed

lemma tokens_of_New [simp]: "tokens_of (NewTokenBucket w rate burst) key = None"
  by (simp add: tokens_of_def NewTokenBucket_def Let_def)

text \<open>
  An entry that an eviction drops is full, and stays full: it cannot be told from a peer never seen.
\<close>

lemma evicted_full:
  assumes "evict_entry ttl r B s st = None" "0 \<le> ttl" "0 \<le> r" "s \<le> t"
  shows "refilled r B t st = B"
proof -
  let ?d = "time_Sub s (ts_last st)" and ?e = "time_Sub t (ts_last st)"
  have d: "0 \<le> ?d" and full: "B \<le> fl64 (ts_tokens st + gain r ?d)"
    using assms(1,2) by (auto simp: evict_entry_def gain_def split: if_splits)
  have "gain r ?d \<le> gain r ?e"
    using d assms(3,4) by (intro gain_mono time_Sub_mono) (simp_all add: time_Sub_def)
  then have "fl64 (ts_tokens st + gain r ?d) \<le> fl64 (ts_tokens st + gain r ?e)"
    by (intro float64.fl_mono) simp
  with full show ?thesis by (simp add: refilled_gain)
qed

text \<open>Two records agree from an instant on when they offer the same tokens at every later one.\<close>

definition same_level :: "rat \<Rightarrow> rat \<Rightarrow> time \<Rightarrow> tokenState option \<Rightarrow> tokenState option \<Rightarrow> bool" where
  "same_level r B t u v \<longleftrightarrow> (\<forall>t' \<ge> t. level r B t' u = level r B t' v)"

lemma evict_same_level:
  assumes "token_ok r B b"
  shows "same_level r B t (tokens_of (evictIdle t b) k) (tokens_of b k)"
proof (cases "tokens_of b k")
  case (Some st)
  then show ?thesis
    using assms evicted_full [of "tb_idleTTL b" r B t st]
    by (cases "evict_entry (tb_idleTTL b) r B t st")
      (auto simp: tokens_of_evict [OF assms] same_level_def level_def token_ok_def evict_entry_def
        split: if_splits)
qed (simp add: tokens_of_evict [OF assms] same_level_def)

interpretation token_limiter:
  sweeping_limiter "Token_AllowNWithRetry ovf str" str "token_ok r B" tokens_of "token_step ovf r B"
    evictIdle "same_level r B"
  for ovf str r B
proof (unfold_locales, goal_cases)
  case (1 b t p n)
  then show ?case by (rule token_ok_AllowN)
next
  case (2 b t p n)
  then show ?case by (rule Token_AllowN_step(1))
next
  case (3 b t p n)
  then show ?case by (rule Token_AllowN_step(2))
next
  case (4 b t)
  then show ?case by (rule token_ok_evict)
next
  case (5 b t k)
  then show ?case by (rule evict_same_level)
next
  case (9 t u v n)
  then show ?case by (simp add: token_step_def same_level_def Let_def)
next
  case (10 t u v n)
  then show ?case by (simp add: token_step_def same_level_def Let_def)
qed (simp_all add: same_level_def)

subsection \<open>Histories\<close>

text \<open>An entry is well formed at an instant when it is not from the future and its tokens are in range.\<close>

definition entry_ok :: "rat \<Rightarrow> time \<Rightarrow> tokenState option \<Rightarrow> bool" where
  "entry_ok B T v \<longleftrightarrow> (\<forall>st. v = Some st \<longrightarrow> 0 \<le> ts_tokens st \<and> ts_tokens st \<le> B \<and> ts_last st \<le> T)"

lemma entry_ok_later: "entry_ok B T v \<Longrightarrow> T \<le> t \<Longrightarrow> entry_ok B t v"
  by (auto simp: entry_ok_def)

lemma level_bounds:
  assumes "entry_ok B t v" "0 \<le> r" "0 \<le> B"
  shows "0 \<le> level r B t v" and "level r B t v \<le> B"
proof -
  have "0 \<le> gain r (time_Sub t (ts_last st))" if "v = Some st" for st
    using assms that by (intro gain_nonneg) (auto simp: entry_ok_def)
  then show "0 \<le> level r B t v"
    using assms by (auto simp: level_def refilled_gain entry_ok_def float64.fl_nonneg split: option.split)
  show "level r B t v \<le> B" by (auto simp: level_def refilled_gain split: option.split)
qed

lemma token_step_ok:
  assumes "entry_ok B t v" "0 \<le> r" "0 \<le> B" "fl64 B = B"
  shows "entry_ok B t (snd (token_step ovf r B t n v))"
proof -
  note l = level_bounds [OF assms(1-3)]
  have "0 \<le> fl64 (level r B t v - fl64 (of_int n)) \<and> fl64 (level r B t v - fl64 (of_int n)) \<le> B"
    if "0 < n" "fl64 (of_int n) \<le> level r B t v"
  proof -
    have "0 \<le> fl64 (of_int n)" using that(1) by (intro float64.fl_nonneg) simp
    then have "fl64 (level r B t v - fl64 (of_int n)) \<le> fl64 B" using l(2) by (intro float64.fl_mono) simp
    with that assms(4) show ?thesis by (simp add: float64.fl_nonneg)
  qed
  with assms(1) l show ?thesis by (auto simp: token_step_def Let_def entry_ok_def)
qed

definition entries_ok :: "rat \<Rightarrow> time \<Rightarrow> TokenBucket \<Rightarrow> bool" where
  "entries_ok B T b \<longleftrightarrow> (\<forall>key. entry_ok B T (tokens_of b key))"

lemma entries_ok_later: "entries_ok B T b \<Longrightarrow> T \<le> t \<Longrightarrow> entries_ok B t b"
  by (auto simp: entries_ok_def intro: entry_ok_later)

lemma entries_ok_AllowN:
  assumes "token_ok r B b" "entries_ok B t b"
  shows "entries_ok B t (snd (Token_AllowNWithRetry ovf str t p n b))"
  using assms token_step_ok [of B t "tokens_of b (str p)" r]
  by (simp add: entries_ok_def Token_AllowN_step [OF assms(1)] token_ok_def)

lemma entries_ok_evict:
  assumes "token_ok r B b" "entries_ok B t b"
  shows "entries_ok B t (evictIdle s b)"
proof -
  have "entry_ok B t (Option.bind v (evict_entry ttl r B s))" if "entry_ok B t v" for v ttl
    using that by (cases v) (auto simp: entry_ok_def evict_entry_def split: if_splits)
  with assms(2) show ?thesis by (simp add: entries_ok_def tokens_of_evict [OF assms(1)])
qed

abbreviation token_history :: "(rat \<Rightarrow> int) \<Rightarrow> (peer_id \<Rightarrow> string) \<Rightarrow> peer_id limiter_event list \<Rightarrow> TokenBucket \<Rightarrow> TokenBucket" where
  "token_history ovf str \<equiv> history_end (Token_AllowNWithRetry ovf str) evictIdle"

lemma history_ok:
  assumes "token_ok r B b" "entries_ok B T b" "sorted (map event_at es)"
    and "\<forall>e \<in> set es. T \<le> event_at e \<and> event_at e \<le> t" "T \<le> t"
  shows "token_ok r B (token_history ovf str es b) \<and> entries_ok B t (token_history ovf str es b)"
  using assms
proof (induction es arbitrary: b T)
  case Nil
  then show ?case using entries_ok_later by auto
next
  case (Cons e es)
  have later: "entries_ok B (event_at e) b" using Cons.prems entries_ok_later by auto
  show ?case
  proof (cases e)
    case (Ask s p n)
    show ?thesis
      using Cons.IH [OF token_ok_AllowN [OF Cons.prems(1), of ovf str s p n], of s]
        entries_ok_AllowN [OF Cons.prems(1), of s ovf str p n] later Cons.prems Ask by simp
  next
    case (Sweep s)
    show ?thesis
      using Cons.IH [OF token_ok_evict [OF Cons.prems(1), of s], of s]
        entries_ok_evict [OF Cons.prems(1), of s s] later Cons.prems Sweep by simp
  qed
qed

subsection \<open>The long-run rate\<close>

text \<open>
  \<open>units\<close> adds up the units admitted for one key.  \<open>credit\<close> bounds the tokens a record can offer
  from an instant on: an amount at that instant, growing at the refill rate.  Every request costs
  two roundings of at most \<open>B\<close> each.
\<close>

fun units :: "(peer_id \<Rightarrow> string) \<Rightarrow> string \<Rightarrow> peer_id request list \<Rightarrow> (peer_id \<times> bool \<times> duration) list \<Rightarrow> int" where
  "units str key (Request t p n # rs) ((q, d) # ds) =
     (if str p = key \<and> fst d then max 0 n else 0) + units str key rs ds"
| "units str key _ _ = 0"

definition rate_up :: "rat \<Rightarrow> rat" where
  "rate_up r = (1 + unit_roundoff) ^ 4 * r / 1000000000"

definition credit :: "rat \<Rightarrow> rat \<Rightarrow> tokenState option \<Rightarrow> time \<Rightarrow> rat \<Rightarrow> bool" where
  "credit r B v T C \<longleftrightarrow> (\<forall>t \<ge> T. level r B t v \<le> C + rate_up r * of_int (t - T) + unit_roundoff * B)"

lemma rate_up_nonneg: "0 \<le> r \<Longrightarrow> 0 \<le> rate_up r"
  by (simp add: rate_up_def)

lemma fl64_upper_abs: "0 \<le> x \<Longrightarrow> x \<le> B \<Longrightarrow> fl64 x \<le> x + unit_roundoff * B"
  using float64.fl_upper [of x] mult_left_mono [of x B unit_roundoff] by (simp add: distrib_right)

lemma credit_entry:
  assumes "0 \<le> k" "k \<le> C" "k \<le> B" "0 \<le> r"
  shows "credit r B (Some \<lparr>ts_tokens = k, ts_last = T\<rparr>) T C"
  unfolding credit_def
proof (intro allI impI)
  fix t assume t: "T \<le> t"
  let ?g = "gain r (time_Sub t T)" and ?u = unit_roundoff
  have g0: "0 \<le> ?g" using t assms by (intro gain_nonneg) simp_all
  have "?g \<le> (1 + ?u) ^ 3 * (of_int (time_Sub t T) / 1000000000 * r)"
    using t assms by (intro gain_upper) simp_all
  also have "\<dots> \<le> (1 + ?u) ^ 3 * (of_int (t - T) / 1000000000 * r)"
    using time_Sub_le [OF t] assms
    by (intro mult_left_mono mult_right_mono divide_right_mono) (simp_all only: of_int_le_iff, simp_all)
  finally have "(1 + ?u) * ?g \<le> (1 + ?u) * ((1 + ?u) ^ 3 * (of_int (t - T) / 1000000000 * r))"
    by (rule mult_left_mono) simp
  also have "\<dots> = rate_up r * of_int (t - T)"
    by (simp add: rate_up_def power3_eq_cube power4_eq_xxxx)
  finally have g: "(1 + ?u) * ?g \<le> rate_up r * of_int (t - T)" .
  have "level r B t (Some \<lparr>ts_tokens = k, ts_last = T\<rparr>) \<le> fl64 (k + ?g)"
    by (simp add: level_def refilled_gain)
  also have "\<dots> \<le> (1 + ?u) * (k + ?g)" using assms g0 by (intro float64.fl_upper) simp
  also have "\<dots> \<le> k + ?u * B + rate_up r * of_int (t - T)"
    using g mult_left_mono [OF assms(3), of ?u] by (simp add: distrib_left distrib_right)
  also have "\<dots> \<le> C + rate_up r * of_int (t - T) + ?u * B" using assms by simp
  finally show "level r B t (Some \<lparr>ts_tokens = k, ts_last = T\<rparr>) \<le> C + rate_up r * of_int (t - T) + ?u * B" .
qed

lemma fl64_int_below:
  assumes "0 < n" "fl64 (of_int n) \<le> B" "B < 2 ^ 53"
  shows "fl64 (of_int n) = of_int n"
proof (cases "n \<le> 2 ^ 53")
  case True
  with assms show ?thesis by (intro float64.fl_int) simp
next
  case False
  then have "(2 ^ 53 :: int) \<le> n" by simp
  then have "(of_int (2 ^ 53) :: rat) \<le> of_int n" by (simp only: of_int_le_iff)
  then have "fl64 (of_int (2 ^ 53)) \<le> fl64 (of_int n)" by (rule float64.fl_mono)
  moreover have "fl64 (of_int (2 ^ 53)) = of_int (2 ^ 53)" by (rule float64.fl_int) simp
  ultimately show ?thesis using assms by simp
qed

text \<open>One request of the key: what it admits comes out of its credit.\<close>

lemma credit_step:
  assumes "credit r B v T C" "0 \<le> C" "entry_ok B t v" "T \<le> t" "0 \<le> r" "0 \<le> B" "fl64 B = B" "B < 2 ^ 53"
  obtains T' C' where "credit r B (snd (token_step ovf r B t n v)) T' C'" "0 \<le> C'" "T' \<le> t" "T \<le> T'"
    and "(if fst (fst (token_step ovf r B t n v)) then of_int (max 0 n) else 0) + C' \<le>
      C + rate_up r * of_int (T' - T) + 2 * unit_roundoff * B"
proof -
  let ?c = "fl64 (of_int n)" and ?l = "level r B t v" and ?u = unit_roundoff
  note l = level_bounds [OF assms(3,5,6)]
  have lC: "?l \<le> C + rate_up r * of_int (t - T) + ?u * B"
    using assms(1,4) unfolding credit_def by blast
  have slack: "0 \<le> ?u * B" using assms(6) by simp
  consider "n \<le> 0 \<or> B < ?c" | "0 < n" "?c \<le> B" "?l < ?c" | "0 < n" "?c \<le> B" "?c \<le> ?l" by linarith
  then show thesis
  proof cases
    case 1
    then have "snd (token_step ovf r B t n v) = v" and "(if fst (fst (token_step ovf r B t n v)) then max 0 n else 0) = 0"
      by (auto simp: token_step_def Let_def)
    with that [of T C] assms slack show thesis by (auto split: if_splits)
  next
    case 2
    have "credit r B (Some \<lparr>ts_tokens = ?l, ts_last = t\<rparr>) t ?l"
      using l assms by (intro credit_entry) simp_all
    with that [of t ?l] 2 l lC slack assms show thesis by (simp add: token_step_def Let_def)
  next
    case 3
    let ?k = "fl64 (?l - ?c)"
    have c: "?c = of_int n" using 3(1,2) assms(8) by (rule fl64_int_below)
    have k: "0 \<le> ?k" "?k \<le> ?l - ?c + ?u * B" "?k \<le> B"
      using 3 l c fl64_upper_abs [of "?l - ?c" B] float64.fl_nonneg [of "?l - ?c"]
        float64.fl_mono [of "?l - ?c" B] assms(7) by simp_all
    have "credit r B (Some \<lparr>ts_tokens = ?k, ts_last = t\<rparr>) t ?k"
      using k assms by (intro credit_entry) simp_all
    with that [of t ?k] 3 k(1,2) c lC assms show thesis by (simp add: token_step_def Let_def)
  qed
qed

lemma units_bound:
  assumes "token_ok r B b" "B < 2 ^ 53" "entry_ok B S (tokens_of b key)" "credit r B (tokens_of b key) T C"
    and "0 \<le> C" "S \<le> T'" "T \<le> T'" "sorted (map req_time rs)"
    and "\<forall>x \<in> set rs. S \<le> req_time x \<and> T \<le> req_time x \<and> req_time x \<le> T'"
  shows "of_int (units str key rs (decisions (Token_AllowNWithRetry ovf str) rs b)) \<le>
    C + rate_up r * of_int (T' - T) +
    2 * unit_roundoff * B * of_nat (length (filter (\<lambda>x. str (req_peer x) = key) rs))"
  using assms
proof (induction rs arbitrary: b S T C)
  case Nil
  then show ?case by (simp add: token_ok_def rate_up_nonneg)
next
  case (Cons x rs)
  obtain t p n where x: "x = Request t p n" by (cases x)
  let ?b = "snd (Token_AllowNWithRetry ovf str t p n b)"
  have okB: "0 \<le> r" "0 \<le> B" "fl64 B = B" using Cons.prems(1) by (simp_all add: token_ok_def)
  have times: "S \<le> t" "T \<le> t" "t \<le> T'" "sorted (map req_time rs)"
      "\<forall>y \<in> set rs. t \<le> req_time y \<and> req_time y \<le> T'"
    using Cons.prems(8,9) by (auto simp: x)
  have e: "entry_ok B t (tokens_of b key)" using Cons.prems(3) times(1) by (rule entry_ok_later)
  show ?case
  proof (cases "str p = key")
    case False
    then have v: "tokens_of ?b key = tokens_of b key" by (simp add: Token_AllowN_step [OF Cons.prems(1)])
    have "of_int (units str key rs (decisions (Token_AllowNWithRetry ovf str) rs ?b)) \<le>
        C + rate_up r * of_int (T' - T) +
        2 * unit_roundoff * B * of_nat (length (filter (\<lambda>x. str (req_peer x) = key) rs))"
      by (rule Cons.IH [OF token_ok_AllowN [OF Cons.prems(1)] Cons.prems(2), of t])
        (use Cons.prems(4,5) e times in \<open>auto simp: v\<close>)
    with False show ?thesis by (simp add: x)
  next
    case True
    let ?v = "tokens_of b key"
    have v: "tokens_of ?b key = snd (token_step ovf r B t n ?v)"
      and ans: "fst (Token_AllowNWithRetry ovf str t p n b) = fst (token_step ovf r B t n ?v)"
      using True by (simp_all add: Token_AllowN_step [OF Cons.prems(1)])
    obtain T1 C1 where s: "credit r B (snd (token_step ovf r B t n ?v)) T1 C1" "0 \<le> C1" "T1 \<le> t" "T \<le> T1"
      and paid: "(if fst (fst (token_step ovf r B t n ?v)) then of_int (max 0 n) else 0) + C1 \<le>
        C + rate_up r * of_int (T1 - T) + 2 * unit_roundoff * B"
      using Cons.prems(4,5) e times(2) okB Cons.prems(2) by (rule credit_step)
    let ?rest = "of_int (units str key rs (decisions (Token_AllowNWithRetry ovf str) rs ?b)) :: rat"
    let ?m = "length (filter (\<lambda>x. str (req_peer x) = key) rs)"
    define P :: rat where "P = (if fst (fst (token_step ovf r B t n ?v)) then of_int (max 0 n) else 0)"
    have "?rest \<le> C1 + rate_up r * of_int (T' - T1) + 2 * unit_roundoff * B * of_nat ?m"
    proof (rule Cons.IH [OF token_ok_AllowN [OF Cons.prems(1)] Cons.prems(2), of t])
      show "entry_ok B t (tokens_of ?b key)" unfolding v using e okB by (rule token_step_ok)
    qed (use s times v in auto)
    with paid [folded P_def]
    have "P + ?rest \<le> C + rate_up r * of_int (T' - T) + 2 * unit_roundoff * B * of_nat (Suc ?m)"
      by (simp add: algebra_simps add_divide_distrib)
    moreover have "of_int (units str key (x # rs) (decisions (Token_AllowNWithRetry ovf str) (x # rs) b)) = P + ?rest"
      using True by (simp add: x ans P_def)
    ultimately show ?thesis using True by (simp add: x)
  qed
qed

lemma asks_times:
  "\<forall>e \<in> set es. T \<le> event_at e \<and> event_at e \<le> T' \<Longrightarrow> \<forall>x \<in> set (asks es). T \<le> req_time x \<and> req_time x \<le> T'"
  by (induction es rule: asks.induct) auto

lemma sorted_asks: "sorted (map event_at es) \<Longrightarrow> sorted (map req_time (asks es))"
proof (induction es rule: asks.induct)
  case (2 t p n es)
  have "\<forall>x \<in> set (asks es). t \<le> req_time x"
    using 2(2) by (induction es rule: asks.induct) auto
  with 2 show ?case by simp
qed auto

text \<open>The numbers of a bucket of 5 that refills one token a second.\<close>

lemma fl64_numeral [simp]: "(numeral k :: int) \<le> 2 ^ 53 \<Longrightarrow> fl64 (numeral k) = numeral k"
  using float64.fl_int [of "numeral k"] by simp

lemma fl64_one [simp]: "fl64 1 = 1"
  using float64.fl_int [of 1] by simp

lemma Seconds_Minute: "Seconds Minute = 60"
  by (simp add: Seconds_def go_defs signed_divide_int_def signed_modulo_int_def float64.fl_0)

lemma token_ok_example: "token_ok 1 5 (NewTokenBucket Minute 60 5)"
  using token_ok_New [of 60 Minute 5] by (simp add: Seconds_Minute) (simp add: go_defs)

lemma entries_ok_New: "entries_ok B T (NewTokenBucket w rate burst)"
  by (simp add: entries_ok_def entry_ok_def)

text \<open>After a rejection the peer's record is what the refill left; it is enough after the wait.\<close>

lemma rejected_step:
  assumes "fst (token_step ovf r B now n v) = (False, w)" "fl64 (of_int n) \<le> B"
  shows "0 < n" and "level r B now v < fl64 (of_int n)"
    and "w = refillWait ovf (fl64 (fl64 (of_int n) - level r B now v)) r"
    and "snd (token_step ovf r B now n v) = Some \<lparr>ts_tokens = level r B now v, ts_last = now\<rparr>"
  using assms by (auto simp: token_step_def Let_def split: if_splits)

lemma level_after_wait:
  assumes "0 \<le> r" "now + w \<le> t" "0 < w" "in_int64 w" "c \<le> B" "c \<le> fl64 (k + gain r w)"
  shows "c \<le> level r B t (Some \<lparr>ts_tokens = k, ts_last = now\<rparr>)"
proof -
  have "w \<le> time_Sub t now" using assms(2-4) by (simp add: time_Sub_def go_defs)
  then have "gain r w \<le> gain r (time_Sub t now)" using assms by (intro gain_mono) simp_all
  then have "fl64 (k + gain r w) \<le> fl64 (k + gain r (time_Sub t now))" by (intro float64.fl_mono) simp
  with assms show ?thesis by (simp add: level_def refilled_gain)
qed

lemma retry_admitted:
  assumes "0 < r" "0 \<le> B" "entry_ok B now v" "n < 2 ^ 53" "of_int n * 1000000000 \<le> 2 ^ 62 * r"
    and "fst (token_step ovf r B now n v) = (False, w)" "fl64 (of_int n) \<le> B"
    and "now + w \<le> t" "same_level r B t u (snd (token_step ovf r B now n v))"
  shows "0 < w" and "fst (token_step ovf r B t n u) = (True, 0)"
proof -
  note rej = rejected_step [OF assms(6,7)]
  have c: "fl64 (of_int n) = of_int n" using rej(1) assms(4) by (intro float64.fl_int) simp
  have l: "0 \<le> level r B now v" using assms by (intro level_bounds) simp_all
  note ws = wait_sufficient [OF l rej(2) [unfolded c] rej(1) assms(4,1,5) rej(3) [unfolded c]]
  show "0 < w" by (rule ws)
  have "of_int n \<le> level r B t (snd (token_step ovf r B now n v))"
    unfolding rej(4) by (rule level_after_wait [OF _ assms(8)]) (use ws assms c in simp_all)
  also have "\<dots> = level r B t u" using assms(9) by (simp add: same_level_def)
  finally show "fst (token_step ovf r B t n u) = (True, 0)"
    using assms(7) c by (simp add: token_step_def Let_def)
qed

subsection \<open>Properties\<close>

text \<open>
  C21.  The tokens invariant: in any history of requests and evictions of a limiting bucket, with
  instants that do not go backwards, every peer's token count stays between zero and the burst, and
  no entry is dated after the present.
\<close>

theorem tokens_in_range:
  assumes "token_ok r B b" "entries_ok B T b" "sorted (map event_at es)"
    and "\<forall>e \<in> set es. T \<le> event_at e \<and> event_at e \<le> T'" "T \<le> T'"
    and "tokens_of (token_history ovf str es b) key = Some st"
  shows "0 \<le> ts_tokens st \<and> ts_tokens st \<le> B \<and> ts_last st \<le> T'"
  using history_ok [OF assms(1-5), of ovf str] assms(6) by (simp add: entries_ok_def entry_ok_def)

theorem tokens_in_range_witness:
  "0 \<le> ts_tokens (the (tokens_of (token_history (\<lambda>x. 0) (\<lambda>p. p) [Ask 0 ''a'' 3] (NewTokenBucket Minute 60 5)) ''a''))"
proof -
  let ?b = "token_history (\<lambda>x. 0) (\<lambda>p. p) [Ask 0 ''a'' 3] (NewTokenBucket Minute 60 5)"
  have "tokens_of ?b ''a'' = Some \<lparr>ts_tokens = 2, ts_last = 0\<rparr>"
    by (simp add: Token_AllowN_step [OF token_ok_example] token_step_def level_def)
  with tokens_in_range [OF token_ok_example entries_ok_New, of "[Ask 0 ''a'' 3]" 0 0 "\<lambda>x. 0" "\<lambda>p. p" "''a''"]
  show ?thesis by simp
qed

text \<open>
  C22.  Eviction is invisible, as the comment on \<^verbatim>\<open>evictIdle\<close> claims: in any history of requests and
  evictions whose instants do not go backwards, every verdict and every retry time is the one the
  bucket gives when nothing is ever evicted.
\<close>

theorem evictIdle_transparent:
  assumes "token_ok r B b" "sorted (map event_at es)"
  shows "answers (Token_AllowNWithRetry ovf str) evictIdle es b =
    decisions (Token_AllowNWithRetry ovf str) (asks es) b"
  using assms by (rule token_limiter.sweeps_invisible)

theorem evictIdle_transparent_witness:
  "answers (Token_AllowNWithRetry (\<lambda>x. 0) (\<lambda>p. p)) evictIdle [Ask 1 ''a'' 5, Sweep 8, Ask 9 ''a'' 1] (NewTokenBucket Minute 60 5) =
   decisions (Token_AllowNWithRetry (\<lambda>x. 0) (\<lambda>p. p)) [Request 1 ''a'' 5, Request 9 ''a'' 1] (NewTokenBucket Minute 60 5)"
  using evictIdle_transparent [OF token_ok_example, of "[Ask 1 ''a'' 5, Sweep 8, Ask 9 ''a'' 1]"] by simp

text \<open>
  C6.  The sustained rate: over any span of any history, the units admitted for one peer are at most
  the burst plus the refill of the span, up to the rounding of \<^verbatim>\<open>float64\<close>, which is a factor of
  \<open>(1 + 2 ^ -53) ^ 4\<close> on the refill and \<open>2 ^ -52\<close> of the burst for each request of the peer.
\<close>

theorem token_rate_bound:
  assumes "token_ok r B b" "B < 2 ^ 53" "entries_ok B T b" "sorted (map event_at es)"
    and "\<forall>e \<in> set es. T \<le> event_at e \<and> event_at e \<le> T'" "T \<le> T'"
  shows "of_int (units str key (asks es) (answers (Token_AllowNWithRetry ovf str) evictIdle es b)) \<le>
    B + (1 + 1 / 2 ^ 53) ^ 4 * r / 1000000000 * of_int (T' - T) +
    2 * (1 / 2 ^ 53) * B * of_nat (length (filter (\<lambda>x. str (req_peer x) = key) (asks es)))"
proof -
  have B: "0 \<le> r" "0 \<le> B" using assms(1) by (simp_all add: token_ok_def)
  have e: "entry_ok B T (tokens_of b key)" using assms(3) by (simp add: entries_ok_def)
  have "credit r B (tokens_of b key) T B"
    unfolding credit_def
  proof (intro allI impI)
    fix t assume "T \<le> t"
    then have "level r B t (tokens_of b key) \<le> B" using B e entry_ok_later by (intro level_bounds)
    moreover have "0 \<le> rate_up r * of_int (t - T)" using \<open>T \<le> t\<close> B by (simp add: rate_up_nonneg)
    ultimately show "level r B t (tokens_of b key) \<le> B + rate_up r * of_int (t - T) + unit_roundoff * B"
      using B by simp
  qed
  then show ?thesis
    unfolding token_limiter.sweeps_invisible [OF assms(1,4)] rate_up_def [symmetric]
    using units_bound [OF assms(1,2) e] assms(5,6) B sorted_asks [OF assms(4)] asks_times [OF assms(5)]
    by simp
qed

theorem token_rate_bound_witness:
  "of_int (units (\<lambda>p. p) ''a'' (asks [Ask 0 ''a'' 5, Ask 1000000000 ''a'' 1])
     (answers (Token_AllowNWithRetry (\<lambda>x. 0) (\<lambda>p. p)) evictIdle [Ask 0 ''a'' 5, Ask 1000000000 ''a'' 1]
       (NewTokenBucket Minute 60 5))) \<le> (6 + 1 / 1000 :: rat)"
  using token_rate_bound [OF token_ok_example _ entries_ok_New,
      of "[Ask 0 ''a'' 5, Ask 1000000000 ''a'' 1]" 0 1000000000 "\<lambda>p. p" "''a''" "\<lambda>x. 0"]
  by (simp add: power4_eq_xxxx)

text \<open>
  C23.  The retry time is honest: a request of at most the burst that is rejected with a wait \<open>w\<close> is
  admitted when the peer repeats it at any instant at least \<open>w\<close> later, whatever other peers did and
  whatever was evicted meanwhile.  All the rounding of the refill, the wait and the conversion to
  nanoseconds is accounted for; the hypotheses are that the count is below \<open>2 ^ 53\<close> and that the
  bucket refills it from empty within \<open>2 ^ 62\<close> nanoseconds.
\<close>

theorem retry_after_honoured:
  assumes "token_ok r B b" "entries_ok B now b" "0 < r" "n < 2 ^ 53"
    and "of_int n * 1000000000 \<le> 2 ^ 62 * r" "fl64 (of_int n) \<le> B"
    and "fst (Token_AllowNWithRetry ovf str now p n b) = (False, w)"
    and "\<forall>e \<in> set es. event_at e \<le> t" "sorted (map event_at es)"
    and "\<forall>x \<in> set (asks es). str (req_peer x) \<noteq> str p" "now + w \<le> t"
  shows "0 < w \<and> fst (Token_AllowNWithRetry ovf str t p n
    (token_history ovf str es (snd (Token_AllowNWithRetry ovf str now p n b)))) = (True, 0)"
proof -
  let ?b = "snd (Token_AllowNWithRetry ovf str now p n b)" and ?k = "str p"
  have ok: "token_ok r B ?b" using assms(1) by (rule token_ok_AllowN)
  have un: "token_ok r B (token_history ovf str es ?b)"
      "same_level r B t (tokens_of (token_history ovf str es ?b) ?k) (tokens_of ?b ?k)"
    using token_limiter.untouched_agree [OF ok assms(9,8,10)] by blast+
  have B: "0 \<le> B" "entry_ok B now (tokens_of b ?k)"
    using assms(1,2) by (simp_all add: token_ok_def entries_ok_def)
  have v: "tokens_of ?b ?k = snd (token_step ovf r B now n (tokens_of b ?k))"
    by (simp add: Token_AllowN_step [OF assms(1)])
  from retry_admitted [OF assms(3) B assms(4,5) _ assms(6,11) un(2) [unfolded v]] assms(7)
  show ?thesis by (simp add: Token_AllowN_step(1) [OF un(1)] Token_AllowN_step(1) [OF assms(1)] v)
qed

theorem retry_after_honoured_witness:
  "\<exists>w. 0 < w \<and>
    fst (Token_AllowNWithRetry (\<lambda>x. 0) (\<lambda>p. p) (7 + w) ''a'' 3
      (token_history (\<lambda>x. 0) (\<lambda>p. p) [Ask 8 ''b'' 1, Sweep 8]
        (snd (Token_AllowNWithRetry (\<lambda>x. 0) (\<lambda>p. p) 7 ''a'' 3
          (snd (Token_AllowNWithRetry (\<lambda>x. 0) (\<lambda>p. p) 7 ''a'' 4 (NewTokenBucket Minute 60 5))))))) = (True, 0)"
proof -
  let ?b = "snd (Token_AllowNWithRetry (\<lambda>x. 0) (\<lambda>p. p) 7 ''a'' 4 (NewTokenBucket Minute 60 5))"
  have ok: "token_ok 1 5 ?b" by (rule token_ok_AllowN [OF token_ok_example])
  have en: "entries_ok 5 7 ?b" by (rule entries_ok_AllowN [OF token_ok_example entries_ok_New])
  have v: "tokens_of ?b ''a'' = Some \<lparr>ts_tokens = 1, ts_last = 7\<rparr>"
    by (simp add: Token_AllowN_step [OF token_ok_example] token_step_def level_def)
  have l: "level 1 5 7 (tokens_of ?b ''a'') = 1"
    by (simp add: v level_def refilled_gain gain_def Seconds_0 float64.fl_0)
  have w: "refillWait (\<lambda>x. 0) 2 1 = 2001000000"
    by (simp add: refillWait_def to_int64_def go_defs Round_def signed_modulo_int_def)
  have rej: "fst (Token_AllowNWithRetry (\<lambda>x. 0) (\<lambda>p. p) 7 ''a'' 3 ?b) = (False, 2001000000)"
    by (simp add: Token_AllowN_step [OF ok] token_step_def l w)
  show ?thesis
    using retry_after_honoured [OF ok en _ _ _ _ rej, of "[Ask 8 ''b'' 1, Sweep 8]" "7 + 2001000000"]
    by (intro exI [of _ 2001000000]) simp
qed

text \<open>
  C34.  A wait of zero means never: a rejected request reports no wait exactly when it costs more than
  the burst, and then it is rejected, with no wait, at every instant and in every later state of the
  bucket.
\<close>

theorem zero_wait_means_never:
  assumes "token_ok r B b" "entries_ok B now b" "0 < r" "0 < n" "n < 2 ^ 53"
    and "of_int n * 1000000000 \<le> 2 ^ 62 * r"
    and "fst (Token_AllowNWithRetry ovf str now p n b) = (False, w)"
  shows "(w = 0 \<longleftrightarrow> B < of_int n) \<and>
    (w = 0 \<longrightarrow> (\<forall>b' t. token_ok r B b' \<longrightarrow> fst (Token_AllowNWithRetry ovf str t p n b') = (False, 0)))"
proof -
  have c: "fl64 (of_int n) = of_int n" using assms(4,5) by (intro float64.fl_int) simp
  have B: "0 \<le> B" "entry_ok B now (tokens_of b (str p))"
    using assms(1,2) by (simp_all add: token_ok_def entries_ok_def)
  have step: "fst (token_step ovf r B now n (tokens_of b (str p))) = (False, w)"
    using assms(7) by (simp add: Token_AllowN_step [OF assms(1)])
  have never: "fst (token_step ovf r B t n v) = (False, 0)" if "B < of_int n" for t v
    using that assms(4) c by (simp add: token_step_def Let_def)
  have "0 < w" if "\<not> B < of_int n"
    using retry_admitted(1) [OF assms(3) B assms(5,6) step, of "now + w"
        "snd (token_step ovf r B now n (tokens_of b (str p)))"] that c by (simp add: same_level_def)
  with never step show ?thesis by (force simp: Token_AllowN_step)
qed

theorem zero_wait_means_never_witness:
  "fst (Token_AllowNWithRetry (\<lambda>x. 0) (\<lambda>p. p) 9000 ''a'' 6 (NewTokenBucket Minute 60 5)) = (False, 0)"
proof -
  have "fst (Token_AllowNWithRetry (\<lambda>x. 0) (\<lambda>p. p) 1 ''a'' 6 (NewTokenBucket Minute 60 5)) = (False, 0)"
    by (simp add: Token_AllowN_step [OF token_ok_example] token_step_def)
  from zero_wait_means_never [OF token_ok_example entries_ok_New _ _ _ _ this] token_ok_example
  show ?thesis by simp
qed

text \<open>
  Token buckets do not interfere either: with an injective peer key, the verdicts and retry
  times of a peer in any history are those of the history with every other peer's requests removed.
\<close>

lemma token_noninterference:
  assumes "inj str" "token_ok r B b"
  shows "about p (decisions (Token_AllowNWithRetry ovf str) rs b) =
    about p (decisions (Token_AllowNWithRetry ovf str) (filter (\<lambda>x. req_peer x = p) rs) b)"
  by (rule token_limiter.decisions_noninterference [where r = r and B = B]) (simp_all add: assms)

end
