(* ===== verification/Middleware.thy ===== *)
theory Middleware
  imports Pipeline Rate_Window Rate_Token
begin

text \<open>
  The middleware the framework ships: frame decoding and the codecs (\<^verbatim>\<open>src/codec_middleware.go\<close>,
  \<^verbatim>\<open>src/codec_iface.go\<close>, \<^verbatim>\<open>src/codec_json.go\<close>), panic recovery, metrics, rate limiting, and operation
  routing (\<^verbatim>\<open>src/middleware/\<close>).  Serialisation itself is a parameter: a \<open>Codec\<close> is the pair of
  functions the application brings, and \<^verbatim>\<open>encoding/json\<close> enters as functions too.
\<close>

subsection \<open>Decoding a frame\<close>

text \<open>\<open>ch\<close> is the choice of \<^verbatim>\<open>sync.Pool\<close>.\<close>

definition FrameDecodeMiddleware ::
  "'s stream_object \<Rightarrow> (pool_state \<Rightarrow> nat option) \<Rightarrow> ('s, 'v, 'i, 'g) world Middleware" where
  "FrameDecodeMiddleware so ch cont w =
     (case ReadFramePooledWithTimeout (so_io so) (ch (g_pool w)) (sc_IdleTimeout w) (sc_Stream w) (g_pool w) of
        None \<Rightarrow> Diverged
      | Some (Inl e, s, ps) \<Rightarrow> Returned (w\<lparr>sc_Stream := s, g_pool := ps, sc_Err := Some e\<rparr>)
      | Some (Inr b, s, ps) \<Rightarrow>
          cont (w\<lparr>sc_Stream := s, g_pool := ps,
                   sc_RawBytes := Some (pb_data (ps_bufs ps ! b)), sc_PoolBuf := Some b\<rparr>))"

subsection \<open>Codecs\<close>

record ('v, 'i) Codec =
  c_Marshal :: "('v, 'i) any \<Rightarrow> go_error + byte list"
  c_Unmarshal :: "byte list \<Rightarrow> go_error + ('v, 'i) any"
  c_ContentType :: string

text \<open>\<^verbatim>\<open>JSONCodec\<close>, with \<^verbatim>\<open>json.Marshal\<close> and \<^verbatim>\<open>json.Unmarshal\<close> (into the type at hand) as arguments.\<close>

definition JSONCodec ::
  "(('v, 'i) any \<Rightarrow> go_error + byte list) \<Rightarrow> (byte list \<Rightarrow> go_error + ('v, 'i) any) \<Rightarrow> ('v, 'i) Codec" where
  "JSONCodec json_Marshal json_Unmarshal =
     \<lparr>c_Marshal = json_Marshal, c_Unmarshal = json_Unmarshal, c_ContentType = ''json''\<rparr>"

definition DeserializeMiddleware :: "('v, 'i) Codec \<Rightarrow> ('s, 'v, 'i, 'g) world Middleware" where
  "DeserializeMiddleware c cont w =
     (case c_Unmarshal c (raw_bytes w) of
        Inl e \<Rightarrow> Returned (w\<lparr>sc_Err := Some (WrapError (''unmarshal '' @ c_ContentType c @ '' request'') e)\<rparr>)
      | Inr req \<Rightarrow> cont (w\<lparr>sc_Request := Some req\<rparr>))"

definition JSONDeserialize ::
  "(('v, 'i) any \<Rightarrow> go_error + byte list) \<Rightarrow> (byte list \<Rightarrow> go_error + ('v, 'i) any) \<Rightarrow>
   ('s, 'v, 'i, 'g) world Middleware" where
  "JSONDeserialize json_Marshal json_Unmarshal = DeserializeMiddleware (JSONCodec json_Marshal json_Unmarshal)"

text \<open>
  A \<^verbatim>\<open>FrameIterator\<close> is its \<^verbatim>\<open>Next\<close> method, a function of the iterator's state.  The loop of the
  response writer ends when the iterator returns an error or a write fails; it may not end.
\<close>

type_synonym 'i frame_iterator = "'i \<Rightarrow> (go_error + byte list) \<times> 'i"

partial_function (option) write_iterator ::
  "'s stream_object \<Rightarrow> 'i frame_iterator \<Rightarrow> 'i \<Rightarrow> ('s, 'v, 'i, 'g) world \<Rightarrow> ('s, 'v, 'i, 'g) world option" where
  "write_iterator so nxt it w =
     (let w1 = w\<lparr>sc_Response := Some (Iter (snd (nxt it)))\<rparr> in
      case fst (nxt it) of
        Inl e \<Rightarrow> Some (if e = EOF then w1 else w1\<lparr>sc_Err := Some (WrapError ''produce frame'' e)\<rparr>)
      | Inr d \<Rightarrow>
          (case sc_WriteFrame so d w1 of
             None \<Rightarrow> None
           | Some r \<Rightarrow>
               (case fst r of
                  Inl e \<Rightarrow> Some ((snd r)\<lparr>sc_Err := Some (WrapError ''write frame'' e)\<rparr>)
                | Inr _ \<Rightarrow> write_iterator so nxt (snd (nxt it)) (snd r))))"

definition write_single ::
  "'s stream_object \<Rightarrow> ('v, 'i) Codec \<Rightarrow> ('v, 'i) any \<Rightarrow> ('s, 'v, 'i, 'g) world \<Rightarrow> ('s, 'v, 'i, 'g) world outcome" where
  "write_single so c v w =
     (case c_Marshal c v of
        Inl e \<Rightarrow> Returned w
      | Inr d \<Rightarrow> (case sc_WriteFrame so d w of None \<Rightarrow> Diverged | Some (_, w') \<Rightarrow> Returned w'))"

definition ResponseWriterMiddleware ::
  "'s stream_object \<Rightarrow> 'i frame_iterator \<Rightarrow> ('v, 'i) Codec \<Rightarrow> ('s, 'v, 'i, 'g) world Middleware" where
  "ResponseWriterMiddleware so nxt c cont w =
     outcome_bind (cont w) (\<lambda>w.
       case sc_Response w of
         None \<Rightarrow> Returned w
       | Some v \<Rightarrow>
           (case v of
              Iter it \<Rightarrow> (case write_iterator so nxt it w of None \<Rightarrow> Diverged | Some w' \<Rightarrow> Returned w')
            | Str x \<Rightarrow> write_single so c v w
            | Obj x \<Rightarrow> write_single so c v w))"

definition JSONResponseWriter ::
  "'s stream_object \<Rightarrow> 'i frame_iterator \<Rightarrow> (('v, 'i) any \<Rightarrow> go_error + byte list) \<Rightarrow>
   (byte list \<Rightarrow> go_error + ('v, 'i) any) \<Rightarrow> ('s, 'v, 'i, 'g) world Middleware" where
  "JSONResponseWriter so nxt json_Marshal json_Unmarshal =
     ResponseWriterMiddleware so nxt (JSONCodec json_Marshal json_Unmarshal)"

record 'v SliceIterator =
  si_items :: "'v list"
  si_idx :: nat

definition NewSliceIterator :: "'v list \<Rightarrow> 'v SliceIterator" where
  "NewSliceIterator items = \<lparr>si_items = items, si_idx = 0\<rparr>"

definition SliceIterator_Next :: "('v \<Rightarrow> go_error + byte list) \<Rightarrow> 'v SliceIterator frame_iterator" where
  "SliceIterator_Next marshal si =
     (if length (si_items si) \<le> si_idx si then (Inl EOF, si)
      else
        let r = marshal (si_items si ! si_idx si); si' = si\<lparr>si_idx := si_idx si + 1\<rparr>
        in (case r of Inl e \<Rightarrow> (Inl e, si') | Inr d \<Rightarrow> (Inr d, si')))"

subsection \<open>Recovery and metrics\<close>

definition Recovery :: "('s, 'v, 'i, 'g) world Middleware" where
  "Recovery cont w =
     (case cont w of
        Returned w' \<Rightarrow> Returned w'
      | Panicked v w' \<Rightarrow> Returned (w'\<lparr>sc_Err := Some MiddlewareErrPanic\<rparr>)
      | Diverged \<Rightarrow> Diverged)"

definition MetricsMiddleware ::
  "'s stream_object \<Rightarrow> (peer_id \<Rightarrow> string) \<Rightarrow> 'g MetricsCollector \<Rightarrow> ('s, 'v, 'i, 'g) world Middleware" where
  "MetricsMiddleware so str collector cont w =
     (let proto = so_Protocol so (sc_Stream w);
          pid = str (sc_PeerID w);
          w1 = w\<lparr>g_app := collector (StreamStarted proto pid) (g_app w)\<rparr>;
          start = io_Now (so_io so) (sc_Stream w1)
      in outcome_bind (cont w1) (\<lambda>w2.
           let micros = time_Sub (io_Now (so_io so) (sc_Stream w2)) start sdiv 1000;
               durationMs = fl64 (fl64 (of_int micros) / 1000)
           in Returned (w2\<lparr>g_app := collector (StreamCompleted proto pid durationMs (sc_Err w2)) (g_app w2)\<rparr>)))"

subsection \<open>Rate limiting\<close>

text \<open>A \<^verbatim>\<open>Limiter\<close>, which may or may not implement \<^verbatim>\<open>RetryLimiter\<close>; the same for two buckets.\<close>

datatype 'g Limiter =
    PlainLimiter "peer_id \<Rightarrow> int \<Rightarrow> 'g \<Rightarrow> bool \<times> 'g"
  | RetryLimiter "peer_id \<Rightarrow> int \<Rightarrow> 'g \<Rightarrow> (bool \<times> duration) \<times> 'g"

datatype 'g DualLimiter =
    PlainDualLimiter "peer_id \<Rightarrow> int \<Rightarrow> bool \<Rightarrow> 'g \<Rightarrow> bool \<times> 'g"
  | DualRetryLimiter "peer_id \<Rightarrow> int \<Rightarrow> bool \<Rightarrow> 'g \<Rightarrow> (bool \<times> duration) \<times> 'g"

definition rateLimited :: "duration \<Rightarrow> go_error" where
  "rateLimited retryAfter = (if retryAfter \<le> 0 then ErrRateLimited else RateLimitedError retryAfter)"

fun allowN :: "'g Limiter \<Rightarrow> peer_id \<Rightarrow> int \<Rightarrow> 'g \<Rightarrow> (bool \<times> duration) \<times> 'g" where
  "allowN (RetryLimiter f) p n g = f p n g"
| "allowN (PlainLimiter f) p n g = (let (ok, g') = f p n g in ((ok, 0), g'))"

fun allowNDual :: "'g DualLimiter \<Rightarrow> peer_id \<Rightarrow> int \<Rightarrow> bool \<Rightarrow> 'g \<Rightarrow> (bool \<times> duration) \<times> 'g" where
  "allowNDual (DualRetryLimiter f) p n isWrite g = f p n isWrite g"
| "allowNDual (PlainDualLimiter f) p n isWrite g = (let (ok, g') = f p n isWrite g in ((ok, 0), g'))"

text \<open>The common end of the four middlewares.\<close>

definition limited ::
  "(bool \<times> duration) \<times> 'g \<Rightarrow> ('s, 'v, 'i, 'g) world Middleware" where
  "limited r cont w =
     (let ((ok, retryAfter), g) = r; w' = w\<lparr>g_app := g\<rparr>
      in if \<not> ok then Returned (w'\<lparr>sc_Err := Some (rateLimited retryAfter)\<rparr>) else cont w')"

definition RateLimitMiddleware :: "'g Limiter \<Rightarrow> ('s, 'v, 'i, 'g) world Middleware" where
  "RateLimitMiddleware limiter cont w = limited (allowN limiter (sc_PeerID w) 1 (g_app w)) cont w"

definition RateLimitCostMiddleware ::
  "'g Limiter \<Rightarrow> (byte list \<Rightarrow> int) \<Rightarrow> ('s, 'v, 'i, 'g) world Middleware" where
  "RateLimitCostMiddleware limiter cost cont w =
     (let n = cost (raw_bytes w) in limited (allowN limiter (sc_PeerID w) n (g_app w)) cont w)"

definition DualRateLimitMiddleware ::
  "'g DualLimiter \<Rightarrow> (byte list \<Rightarrow> bool) \<Rightarrow> ('s, 'v, 'i, 'g) world Middleware" where
  "DualRateLimitMiddleware limiter isWrite cont w =
     (let wr = isWrite (raw_bytes w) in limited (allowNDual limiter (sc_PeerID w) 1 wr (g_app w)) cont w)"

definition DualRateLimitCostMiddleware ::
  "'g DualLimiter \<Rightarrow> (byte list \<Rightarrow> int \<times> bool) \<Rightarrow> ('s, 'v, 'i, 'g) world Middleware" where
  "DualRateLimitCostMiddleware limiter classify cont w =
     (let (n, wr) = classify (raw_bytes w)
      in limited (allowNDual limiter (sc_PeerID w) n wr (g_app w)) cont w)"

subsection \<open>Routing\<close>

text \<open>
  \<open>json_object\<close> is \<^verbatim>\<open>json.Unmarshal\<close> into a \<^verbatim>\<open>map[string]json.RawMessage\<close>, \<open>json_string\<close> into a
  \<^verbatim>\<open>string\<close>.
\<close>

definition OperationRouter ::
  "(byte list \<Rightarrow> go_error + (string \<rightharpoonup> byte list)) \<Rightarrow> (byte list \<Rightarrow> go_error + string) \<Rightarrow>
   string \<Rightarrow> (string \<rightharpoonup> ('s, 'v, 'i, 'g) world Middleware) \<Rightarrow> ('s, 'v, 'i, 'g) world Middleware" where
  "OperationRouter json_object json_string fieldName routes cont w =
     (case json_object (raw_bytes w) of
        Inl e \<Rightarrow> Returned (w\<lparr>sc_Err := Some (WrapError ''parse operation envelope'' e)\<rparr>)
      | Inr envelope \<Rightarrow>
          (case envelope fieldName of
             None \<Rightarrow> Returned (w\<lparr>sc_Err := Some ErrMissingOperation\<rparr>)
           | Some raw \<Rightarrow>
               (case json_string raw of
                  Inl e \<Rightarrow> Returned (w\<lparr>sc_Err := Some (WrapError ''parse operation value'' e)\<rparr>)
                | Inr opValue \<Rightarrow>
                    (case routes opValue of
                       None \<Rightarrow> Returned (w\<lparr>sc_Err := Some ErrUnknownOperation\<rparr>)
                     | Some handler \<Rightarrow> handler cont (SetOperation opValue w)))))"

text \<open>The loop of \<^verbatim>\<open>Chain\<close>: from the last middleware to the first, each wrapping what is chained so far.\<close>

fun chain_loop ::
  "('s, 'v, 'i, 'g) world Middleware list \<Rightarrow> nat \<Rightarrow> ('s, 'v, 'i, 'g) world next_fn \<Rightarrow> ('s, 'v, 'i, 'g) world next_fn" where
  "chain_loop mws 0 chained = chained"
| "chain_loop mws (Suc i) chained =
     chain_loop mws i (\<lambda>w. if sc_Err w \<noteq> None then Returned w else (mws ! i) chained w)"

definition Chain :: "('s, 'v, 'i, 'g) world Middleware list \<Rightarrow> ('s, 'v, 'i, 'g) world Middleware" where
  "Chain mws cont w = chain_loop mws (length mws) cont w"

subsection \<open>Chains\<close>

lemma chain_loop_foldr:
  "n \<le> length mws \<Longrightarrow> chain_loop mws n k = foldr guarded (take n mws) k"
proof (induction n arbitrary: k)
  case (Suc n)
  have "(\<lambda>w. if sc_Err w \<noteq> None then Returned w else (mws ! n) k w) = guarded (mws ! n) k"
    by (simp add: fun_eq_iff guarded_def)
  with Suc show ?case by (simp add: take_Suc_conv_app_nth)
qed simp

lemma Chain_foldr: "Chain mws k = foldr guarded mws k"
  by (simp add: fun_eq_iff Chain_def chain_loop_foldr)

lemma guarded_foldr:
  assumes "\<And>w. sc_Err w \<noteq> None \<Longrightarrow> k w = Returned w"
  shows "guarded (foldr guarded mws) k = foldr guarded mws k"
  by (cases mws) (auto simp: fun_eq_iff guarded_def assms)

lemma run_list_err: "sc_Err w \<noteq> None \<Longrightarrow> run_list mws w = Returned w"
  by (cases mws) auto

lemma run_list_Chain: "run_list (Chain mws # post) = run_list (mws @ post)"
proof -
  have "Chain mws = foldr guarded mws" by (simp add: fun_eq_iff Chain_foldr)
  then have "run_list (Chain mws # post) = guarded (foldr guarded mws) (run_list post)"
    by (simp add: run_list_Cons)
  also have "\<dots> = foldr guarded mws (run_list post)" by (rule guarded_foldr) (simp add: run_list_err)
  finally show ?thesis by (simp add: run_list_append)
qed

subsection \<open>Middleware that works on the request alone\<close>

text \<open>Changes of the request's own fields: neither the shared state nor the pooled buffer nor the peer.\<close>

definition context_only :: "('s, 'v, 'i, 'g) world \<Rightarrow> ('s, 'v, 'i, 'g) world \<Rightarrow> bool" where
  "context_only u v \<longleftrightarrow> g_pool v = g_pool u \<and> g_active v = g_active u \<and> g_app v = g_app u \<and>
     sc_PoolBuf v = sc_PoolBuf u \<and> sc_PeerID v = sc_PeerID u"

lemma sc_WriteFrame_context: "sc_WriteFrame so d w = Some x \<Longrightarrow> context_only w (snd x)"
  by (auto simp: sc_WriteFrame_def context_only_def)

lemma write_iterator_context:
  fixes w :: "('s, 'v, 'i, 'g) world"
  assumes "write_iterator so nxt it w = Some w'"
  shows "context_only w w'"
proof (rule write_iterator.raw_induct [OF _ assms, of "\<lambda>so nxt it w w'. context_only w w'"])
  fix rec :: "'s stream_object \<Rightarrow> 'i frame_iterator \<Rightarrow> 'i \<Rightarrow> ('s, 'v, 'i, 'g) world \<Rightarrow> ('s, 'v, 'i, 'g) world option"
    and so nxt it and w w' :: "('s, 'v, 'i, 'g) world"
  assume IH: "\<And>so nxt it w w'. rec so nxt it w = Some w' \<Longrightarrow> context_only w w'"
    and eq: "(let w1 = w\<lparr>sc_Response := Some (Iter (snd (nxt it)))\<rparr> in
      case fst (nxt it) of
        Inl e \<Rightarrow> Some (if e = EOF then w1 else w1\<lparr>sc_Err := Some (WrapError ''produce frame'' e)\<rparr>)
      | Inr d \<Rightarrow>
          (case sc_WriteFrame so d w1 of
             None \<Rightarrow> None
           | Some r \<Rightarrow>
               (case fst r of
                  Inl e \<Rightarrow> Some ((snd r)\<lparr>sc_Err := Some (WrapError ''write frame'' e)\<rparr>)
                | Inr _ \<Rightarrow> rec so nxt (snd (nxt it)) (snd r)))) = Some w'"
  show "context_only w w'"
  proof (cases "fst (nxt it)")
    case (Inl e)
    with eq show ?thesis by (auto simp: context_only_def Let_def)
  next
    case (Inr d)
    with eq obtain r where r: "sc_WriteFrame so d (w\<lparr>sc_Response := Some (Iter (snd (nxt it)))\<rparr>) = Some r"
      by (auto simp: Let_def split: option.splits)
    note sp = sc_WriteFrame_context [OF r]
    show ?thesis
      using eq Inr r sp IH [of so nxt "snd (nxt it)" "snd r" w']
      by (cases "fst r") (auto simp: context_only_def Let_def)
  qed
qed

lemma bind_once:
  assumes "all_outcome P r" "\<And>w. P w \<Longrightarrow> all_outcome P (f w)"
  shows "all_outcome P (outcome_bind r f)"
  using assms by (cases r) auto

text \<open>
  The middleware that changes the request alone keeps every order that does not look at the request's
  own fields, and calls its continuation at most once.
\<close>

locale context_order = world_order R for R :: "('s, 'v, 'i, 'g) world \<Rightarrow> ('s, 'v, 'i, 'g) world \<Rightarrow> bool" +
  assumes context_rel: "context_only u v \<Longrightarrow> R u v"
begin

lemma request_updates [simp]: "R w (w\<lparr>sc_Err := e\<rparr>)" "R w (w\<lparr>sc_Request := r\<rparr>)" "R w (SetOperation op w)"
  by (auto intro!: context_rel simp: context_only_def SetOperation_def)

lemma Recovery_once: "calls_once R Recovery"
proof (rule calls_onceI)
  fix k w P
  assume P: "\<And>u v. P u \<Longrightarrow> R u v \<Longrightarrow> P v" "\<And>w'. R w w' \<Longrightarrow> all_outcome P (k w')"
  have "P (w'\<lparr>sc_Err := e\<rparr>)" if "P w'" for w' e using that request_updates(1) by (rule P(1))
  with P(2) [OF rel_refl] show "all_outcome P (Recovery k w)" by (auto simp: Recovery_def split: outcome.split)
qed

lemma Deserialize_once: "calls_once R (DeserializeMiddleware c)"
  by (rule calls_onceI) (auto simp: DeserializeMiddleware_def split: sum.split)

lemma ResponseWriter_once: "calls_once R (ResponseWriterMiddleware so nxt c)"
proof (rule calls_onceI)
  fix k w P
  assume P: "\<And>u v. P u \<Longrightarrow> R u v \<Longrightarrow> P v" "\<And>w'. R w w' \<Longrightarrow> all_outcome P (k w')"
  have single: "all_outcome P (write_single so c v w')" if "P w'" for v w'
    using P(1) [OF that context_rel [OF sc_WriteFrame_context]] that
    by (auto simp: write_single_def split: sum.split option.split)
  have iter: "P w''" if "P w'" "write_iterator so nxt it w' = Some w''" for it w' w''
    using P(1) [OF that(1) context_rel [OF write_iterator_context [OF that(2)]]] .
  show "all_outcome P (ResponseWriterMiddleware so nxt c k w)"
    unfolding ResponseWriterMiddleware_def
    by (rule bind_once [OF P(2) [OF rel_refl]]) (auto split: option.split any.split intro: single iter)
qed

lemma Chain_once: "\<forall>mw \<in> set mws. calls_once R mw \<Longrightarrow> calls_once R (Chain mws)"
  using foldr_once [of mws] by (simp add: calls_once_def Chain_foldr)

lemma Router_once:
  assumes "\<forall>op h. routes op = Some h \<longrightarrow> calls_once R h"
  shows "calls_once R (OperationRouter jo js f routes)"
proof (rule calls_onceI)
  fix k w P
  assume P: "\<And>u v. P u \<Longrightarrow> R u v \<Longrightarrow> P v" "\<And>w'. R w w' \<Longrightarrow> P w'"
    "\<And>w'. R w w' \<Longrightarrow> all_outcome P (k w')"
  have "all_outcome P (h k (SetOperation op w))" if "routes op = Some h" for op h
    by (rule calls_onceD [OF _ P(1) P(2,3) [OF rel_trans [OF request_updates(3)]]]) (use assms that in blast)
  with P(2) show "all_outcome P (OperationRouter jo js f routes k w)"
    by (auto simp: OperationRouter_def split: sum.split option.split)
qed

text \<open>A handler of the application at the end of a chain.\<close>

lemma handler_once:
  assumes "\<And>w. all_outcome (R w) (h w)"
  shows "calls_once R (\<lambda>k. h)"
  by (rule calls_onceI) (use all_outcome_mono [OF assms] in blast)

end

subsection \<open>Middleware that leaves the pool alone\<close>

definition same_pool :: "('s, 'v, 'i, 'g) world \<Rightarrow> ('s, 'v, 'i, 'g) world \<Rightarrow> bool" where
  "same_pool u v \<longleftrightarrow> g_pool v = g_pool u \<and> sc_PoolBuf v = sc_PoolBuf u \<and> g_active v = g_active u"

interpretation pool_order: context_order same_pool
  by unfold_locales (auto simp: same_pool_def context_only_def)

lemma limited_once:
  assumes "\<And>w'. same_pool w w' \<Longrightarrow> P w'" "\<And>w'. same_pool w w' \<Longrightarrow> all_outcome P (k w')"
  shows "all_outcome P (limited r k w)"
  using assms by (auto simp: limited_def same_pool_def Let_def split: prod.split)

lemma RateLimit_once:
  "calls_once same_pool (RateLimitMiddleware l)" "calls_once same_pool (RateLimitCostMiddleware l cost)"
  "calls_once same_pool (DualRateLimitMiddleware dl isw)" "calls_once same_pool (DualRateLimitCostMiddleware dl cls)"
  by (auto intro!: calls_onceI limited_once
      simp: RateLimitMiddleware_def RateLimitCostMiddleware_def DualRateLimitMiddleware_def
        DualRateLimitCostMiddleware_def Let_def split: prod.split)

lemma Metrics_once: "calls_once same_pool (MetricsMiddleware so str coll :: ('s, 'v, 'i, 'g) world Middleware)"
proof (rule calls_onceI)
  fix k :: "('s, 'v, 'i, 'g) world next_fn" and w and P :: "('s, 'v, 'i, 'g) world \<Rightarrow> bool"
  assume P: "\<And>u v. P u \<Longrightarrow> same_pool u v \<Longrightarrow> P v" "\<And>w'. same_pool w w' \<Longrightarrow> all_outcome P (k w')"
  have "P (w'\<lparr>g_app := g\<rparr>)" if "P w'" for w' g using that by (rule P(1)) (simp add: same_pool_def)
  with P(2) show "all_outcome P (MetricsMiddleware so str coll k w)"
    by (auto simp: MetricsMiddleware_def Let_def same_pool_def intro!: bind_once)
qed

lemmas middleware_once = RateLimit_once Metrics_once pool_order.Recovery_once pool_order.Deserialize_once
  pool_order.ResponseWriter_once pool_order.Chain_once pool_order.Router_once pool_order.handler_once

subsection \<open>Buffers are returned\<close>

text \<open>The state of the pool while a stream is handled: the buffer in \<^verbatim>\<open>sc.PoolBuf\<close> is the only new one.\<close>

definition accounted :: "pool_state \<Rightarrow> int \<Rightarrow> ('s, 'v, 'i, 'g) world \<Rightarrow> bool" where
  "accounted pool n w \<longleftrightarrow> g_active w = n \<and> pool_reachable (g_pool w) \<and>
     (case sc_PoolBuf w of None \<Rightarrow> live (g_pool w) = live pool | Some b \<Rightarrow> one_more pool b (g_pool w))"

lemma accounted_same_pool: "accounted pool n u \<Longrightarrow> same_pool u v \<Longrightarrow> accounted pool n v"
  by (simp add: accounted_def same_pool_def split: option.splits)

lemma FrameDecode_accounted:
  assumes "honest_reader (so_io so)" "pool_reachable pool"
    and "\<And>w'. accounted pool n w' \<Longrightarrow> all_outcome (accounted pool n) (k w')"
    and "g_pool w = pool" "sc_PoolBuf w = None" "g_active w = n"
  shows "all_outcome (accounted pool n) (FrameDecodeMiddleware so ch k w)"
proof (cases "ReadFramePooledWithTimeout (so_io so) (ch (g_pool w)) (sc_IdleTimeout w) (sc_Stream w) (g_pool w)")
  case None
  then show ?thesis by (simp add: FrameDecodeMiddleware_def)
next
  case (Some x)
  obtain r s ps where x: "x = (r, s, ps)" by (cases x)
  have acc: "pool_reachable ps \<and> (case r of Inl e \<Rightarrow> live ps = live pool | Inr b \<Rightarrow> one_more pool b ps)"
    using honest_reader.pooled_read_accounts [OF assms(1,2)] Some x assms(4) by blast
  show ?thesis
  proof (cases r)
    case (Inl e)
    with acc show ?thesis
      using Some x assms(5,6) by (simp add: FrameDecodeMiddleware_def accounted_def)
  next
    case (Inr b)
    with acc show ?thesis
      using Some x assms(3,6) by (simp add: FrameDecodeMiddleware_def accounted_def)
  qed
qed

lemma decode_pipeline_accounted:
  assumes "honest_reader (so_io so)" "pool_reachable pool" "\<forall>mw \<in> set pre \<union> set post. calls_once same_pool mw"
    and w: "g_pool w = pool" "sc_PoolBuf w = None" "g_active w = n"
  shows "all_outcome (accounted pool n) (run_list (pre @ FrameDecodeMiddleware so ch # post) w)"
proof (rule pool_order.run_list_once)
  show "\<forall>mw \<in> set pre. calls_once same_pool mw" using assms(3) by simp
next
  fix w' assume "same_pool w w'"
  with w have w': "g_pool w' = pool" "sc_PoolBuf w' = None" "g_active w' = n" by (simp_all add: same_pool_def)
  then show "accounted pool n w'" using assms(2) by (simp add: accounted_def)
  have "all_outcome (accounted pool n) (run_list post u)" if "accounted pool n u" for u
    using assms(3) that by (intro pool_order.run_list_stays) (auto intro: accounted_same_pool)
  from FrameDecode_accounted [OF assms(1,2) this w'] \<open>accounted pool n w'\<close>
  show "all_outcome (accounted pool n) (run_list (FrameDecodeMiddleware so ch # post) w')" by simp
qed (rule accounted_same_pool)

lemma finish_accounted:
  assumes "accounted pool n w"
  shows "pool_reachable (g_pool (finish so p w)) \<and> live (g_pool (finish so p w)) = live pool \<and>
    g_active (finish so p w) = (if p_activeStreams p then n - 1 else n) \<and>
    sc_Stream (finish so p w) = so_Close so (so_StopReset so (sc_Stream w))"
  using assms
  by (auto simp: finish_def accounted_def Let_def one_more_Release one_more_def split: option.split
      intro: pool_reachable_Release)

lemma with_defer_all: "all_outcome P r \<Longrightarrow> (\<And>w. P w \<Longrightarrow> Q (f w)) \<Longrightarrow> all_outcome Q (with_defer f r)"
  by (cases r) auto

lemma new_context_fields [simp]:
  "g_pool (new_context so p s pool n app) = pool" "sc_PoolBuf (new_context so p s pool n app) = None"
  "g_active (new_context so p s pool n app) = n" "sc_Err (new_context so p s pool n app) = None"
  "g_app (new_context so p s pool n app) = app" "sc_PeerID (new_context so p s pool n app) = so_RemotePeer so s"
  "sc_IdleTimeout (new_context so p s pool n app) = p_idleTimeout p"
  "sc_Response (new_context so p s pool n app) = None"
  by (simp_all add: new_context_def Let_def)

subsection \<open>Multi-frame responses\<close>

text \<open>The frames a slice iterator yields before it stops, and the error it stops with.\<close>

fun good_frames :: "('v \<Rightarrow> go_error + byte list) \<Rightarrow> 'v list \<Rightarrow> byte list list" where
  "good_frames marshal [] = []"
| "good_frames marshal (x # xs) = (case marshal x of Inl e \<Rightarrow> [] | Inr d \<Rightarrow> d # good_frames marshal xs)"

fun stop_error :: "('v \<Rightarrow> go_error + byte list) \<Rightarrow> 'v list \<Rightarrow> go_error" where
  "stop_error marshal [] = EOF"
| "stop_error marshal (x # xs) = (case marshal x of Inl e \<Rightarrow> e | Inr d \<Rightarrow> stop_error marshal xs)"

lemma mock_WriteFrame:
  assumes "length d \<le> MaxFrameSize"
  shows "WriteFrameWithTimeout mock_io d idle s = Some (Inr (), s\<lparr>WriteBuf := WriteBuf s @ encode_frame d\<rparr>)"
proof -
  obtain s' where s': "s'\<lparr>WriteBuf := []\<rparr> = s\<lparr>WriteBuf := []\<rparr>" "WriteBuf s' = WriteBuf s @ encode_frame d"
    "WriteFrameWithTimeout mock_io d idle s = Some (Inr (), s')"
    using mock_sink.WriteFrameWithTimeout_sent [where s0 = s and s = s and d = d and idle = idle] assms by auto
  from s'(1) have "s' = s\<lparr>WriteBuf := WriteBuf s'\<rparr>"
    by (cases s'; cases s) simp
  with s'(2,3) show ?thesis by simp
qed

lemma write_iterator_slice:
  assumes "\<forall>d \<in> set (good_frames marshal (drop i items)). length d \<le> MaxFrameSize"
  shows "\<exists>w'. write_iterator mock_object (SliceIterator_Next marshal) \<lparr>si_items = items, si_idx = i\<rparr> w = Some w' \<and>
    sc_Stream w' = (sc_Stream w)\<lparr>WriteBuf := WriteBuf (sc_Stream w) @
      concat (map encode_frame (good_frames marshal (drop i items)))\<rparr> \<and>
    sc_Err w' = (let e = stop_error marshal (drop i items) in
      if e = EOF then sc_Err w else Some (WrapError ''produce frame'' e))"
  using assms
proof (induction "length items - i" arbitrary: i w rule: less_induct)
  case less
  let ?it = "\<lparr>si_items = items, si_idx = i\<rparr>" and ?it' = "\<lparr>si_items = items, si_idx = i + 1\<rparr>"
  show ?case
  proof (cases "i < length items")
    case False
    then show ?thesis by (subst write_iterator.simps) (simp add: SliceIterator_Next_def)
  next
    case True
    then have dr: "drop i items = items ! i # drop (i + 1) items" by (simp add: Cons_nth_drop_Suc)
    show ?thesis
    proof (cases "marshal (items ! i)")
      case (Inl e)
      with True show ?thesis
        by (subst write_iterator.simps) (simp add: SliceIterator_Next_def dr Let_def)
    next
      case (Inr d)
      let ?w1 = "w\<lparr>sc_Response := Some (Iter ?it'), sc_Stream := (sc_Stream w)\<lparr>WriteBuf := WriteBuf (sc_Stream w) @ encode_frame d\<rparr>\<rparr>"
      have "length d \<le> MaxFrameSize" using less.prems Inr by (simp add: dr)
      then have wr: "sc_WriteFrame mock_object d (w\<lparr>sc_Response := Some (Iter ?it')\<rparr>) = Some (Inr (), ?w1)"
        by (simp add: sc_WriteFrame_def mock_object_def mock_WriteFrame)
      have "write_iterator mock_object (SliceIterator_Next marshal) ?it w =
          write_iterator mock_object (SliceIterator_Next marshal) ?it' ?w1"
        using True Inr wr by (subst write_iterator.simps) (simp add: SliceIterator_Next_def)
      moreover have "length items - (i + 1) < length items - i" using True by simp
      moreover have "\<forall>x \<in> set (good_frames marshal (drop (i + 1) items)). length x \<le> MaxFrameSize"
        using less.prems Inr by (simp add: dr)
      ultimately show ?thesis unfolding dr using less.hyps [of "i + 1" ?w1] by (simp add: Inr Let_def split: if_splits)
    qed
  qed
qed

text \<open>The writer on any stream: a prefix of the items is sent, and why it stops there.\<close>

fun send_frames :: "'s io_object \<Rightarrow> duration \<Rightarrow> byte list list \<Rightarrow> 's \<Rightarrow> 's option" where
  "send_frames io idle [] s = Some s"
| "send_frames io idle (d # ds) s =
     (case WriteFrameWithTimeout io d idle s of Some (Inr _, s') \<Rightarrow> send_frames io idle ds s' | _ \<Rightarrow> None)"

definition sent_prefix where
  "sent_prefix so marshal w1 items w' \<longleftrightarrow> (\<exists>ds rest s1. map marshal items = map Inr ds @ map marshal rest \<and>
    send_frames (so_io so) (sc_IdleTimeout w1) ds (sc_Stream w1) = Some s1 \<and>
    (case rest of
       [] \<Rightarrow> sc_Stream w' = s1 \<and> sc_Err w' = sc_Err w1
     | x # _ \<Rightarrow>
         (case marshal x of
            Inl e \<Rightarrow> sc_Stream w' = s1 \<and> sc_Err w' = (if e = EOF then sc_Err w1 else Some (WrapError ''produce frame'' e))
          | Inr d \<Rightarrow> \<exists>e. WriteFrameWithTimeout (so_io so) d (sc_IdleTimeout w1) s1 = Some (Inl e, sc_Stream w') \<and>
              sc_Err w' = Some (WrapError ''write frame'' e))))"

lemma sent_prefix_Cons:
  assumes "marshal x = Inr d" "WriteFrameWithTimeout (so_io so) d (sc_IdleTimeout w1) (sc_Stream w1) = Some (Inr (), s')"
    and "sent_prefix so marshal w2 xs w'" "sc_Stream w2 = s'" "sc_Err w2 = sc_Err w1" "sc_IdleTimeout w2 = sc_IdleTimeout w1"
  shows "sent_prefix so marshal w1 (x # xs) w'"
proof -
  obtain ds rest s1 where r: "map marshal xs = map Inr ds @ map marshal rest"
    "send_frames (so_io so) (sc_IdleTimeout w2) ds (sc_Stream w2) = Some s1"
    "case rest of [] \<Rightarrow> sc_Stream w' = s1 \<and> sc_Err w' = sc_Err w2
     | x # _ \<Rightarrow> (case marshal x of
            Inl e \<Rightarrow> sc_Stream w' = s1 \<and> sc_Err w' = (if e = EOF then sc_Err w2 else Some (WrapError ''produce frame'' e))
          | Inr d \<Rightarrow> \<exists>e. WriteFrameWithTimeout (so_io so) d (sc_IdleTimeout w2) s1 = Some (Inl e, sc_Stream w') \<and>
              sc_Err w' = Some (WrapError ''write frame'' e))"
    using assms(3) unfolding sent_prefix_def by blast
  from r [unfolded assms(4-6)] assms(1,2) show ?thesis unfolding sent_prefix_def
    by (intro exI [of _ "d # ds"] exI [of _ rest] exI [of _ s1]) simp
qed

lemma sent_prefix_stop:
  assumes "case rest of [] \<Rightarrow> sc_Stream w' = sc_Stream w1 \<and> sc_Err w' = sc_Err w1
     | x # _ \<Rightarrow> (case marshal x of
            Inl e \<Rightarrow> sc_Stream w' = sc_Stream w1 \<and> sc_Err w' = (if e = EOF then sc_Err w1 else Some (WrapError ''produce frame'' e))
          | Inr d \<Rightarrow> \<exists>e. WriteFrameWithTimeout (so_io so) d (sc_IdleTimeout w1) (sc_Stream w1) = Some (Inl e, sc_Stream w') \<and>
              sc_Err w' = Some (WrapError ''write frame'' e))"
  shows "sent_prefix so marshal w1 rest w'"
  unfolding sent_prefix_def using assms by (intro exI [of _ "[]"] exI [of _ rest] exI [of _ "sc_Stream w1"]) simp

lemma write_iterator_sends:
  assumes returns: "\<forall>d s. WriteFrameWithTimeout (so_io so) d (sc_IdleTimeout w) s \<noteq> None"
  shows "\<exists>w'. write_iterator so (SliceIterator_Next marshal) \<lparr>si_items = items, si_idx = i\<rparr> w = Some w' \<and>
    sent_prefix so marshal w (drop i items) w'"
  using assms
proof (induction "length items - i" arbitrary: i w rule: less_induct)
  case less
  let ?it = "\<lparr>si_items = items, si_idx = i\<rparr>" and ?it' = "\<lparr>si_items = items, si_idx = i + 1\<rparr>"
  show ?case
  proof (cases "i < length items")
    case False
    then show ?thesis by (subst write_iterator.simps) (simp add: SliceIterator_Next_def sent_prefix_stop)
  next
    case True
    then have dr: "drop i items = items ! i # drop (i + 1) items" by (simp add: Cons_nth_drop_Suc)
    show ?thesis
    proof (cases "marshal (items ! i)")
      case (Inl e)
      with True show ?thesis unfolding dr
        by (subst write_iterator.simps) (auto simp: SliceIterator_Next_def Let_def intro!: sent_prefix_stop)
    next
      case (Inr d)
      let ?w0 = "w\<lparr>sc_Response := Some (Iter ?it')\<rparr>"
      obtain r s' where wr: "WriteFrameWithTimeout (so_io so) d (sc_IdleTimeout w) (sc_Stream w) = Some (r, s')"
        using less.prems by fastforce
      then have sc: "sc_WriteFrame so d ?w0 = Some (r, ?w0\<lparr>sc_Stream := s'\<rparr>)" by (simp add: sc_WriteFrame_def)
      show ?thesis
      proof (cases r)
        case (Inl e)
        let ?w' = "?w0\<lparr>sc_Stream := s', sc_Err := Some (WrapError ''write frame'' e)\<rparr>"
        have "write_iterator so (SliceIterator_Next marshal) ?it w = Some ?w'"
          using True Inr sc Inl by (subst write_iterator.simps) (simp add: SliceIterator_Next_def)
        moreover have "sent_prefix so marshal w (drop i items) ?w'"
          unfolding dr by (rule sent_prefix_stop) (use Inr wr Inl in simp)
        ultimately show ?thesis by blast
      next
        case (Inr u)
        let ?w1 = "?w0\<lparr>sc_Stream := s'\<rparr>"
        have "write_iterator so (SliceIterator_Next marshal) ?it w = write_iterator so (SliceIterator_Next marshal) ?it' ?w1"
          using True \<open>marshal (items ! i) = Inr d\<close> sc Inr by (subst write_iterator.simps) (simp add: SliceIterator_Next_def)
        moreover obtain w' where w': "write_iterator so (SliceIterator_Next marshal) ?it' ?w1 = Some w'" "sent_prefix so marshal ?w1 (drop (i + 1) items) w'"
          using less.hyps [of "i + 1" ?w1] less.prems diff_less_mono2 [OF lessI True] by auto
        moreover have "sent_prefix so marshal w (drop i items) w'"
          unfolding dr by (rule sent_prefix_Cons [of marshal "items ! i" d so w s' ?w1]) (use \<open>marshal (items ! i) = Inr d\<close> wr Inr w'(2) in simp_all)
        ultimately show ?thesis by auto
      qed
    qed
  qed
qed

subsection \<open>Properties\<close>

text \<open>
  C3.  Handling a stream leaks nothing: for a pipeline with one frame decoder among middleware that
  runs its continuation at most once and leaves the pool alone, on any stream that keeps the
  contract of \<^verbatim>\<open>io.Reader\<close>, however the handlers end, by returning or by a panic, every buffer taken
  from the pool is back, the count of active streams is what it was, and the stream is closed with
  the deadline hook removed.
\<close>

theorem HandleStream_releases:
  assumes "honest_reader (so_io so)" "pool_reachable pool"
    and "p_middleware p = pre @ FrameDecodeMiddleware so ch # post"
    and "\<forall>mw \<in> set pre \<union> set post. calls_once same_pool mw"
  shows "all_outcome (\<lambda>w. pool_reachable (g_pool w) \<and> live (g_pool w) = live pool \<and> g_active w = active \<and>
      (\<exists>s'. sc_Stream w = so_Close so (so_StopReset so s')))
    (HandleStream so p s pool active app)"
  unfolding HandleStream_def run_0 assms(3)
  by (rule with_defer_all [OF decode_pipeline_accounted [OF assms(1,2,4)]])
    (use finish_accounted in \<open>force+\<close>)

theorem HandleStream_releases_witness:
  "all_outcome (\<lambda>w. live (g_pool w) = {#} \<and> g_active w = 4)
    (HandleStream mock_object (WithActiveStreams (NewPipeline
       ([] @ FrameDecodeMiddleware mock_object (\<lambda>_. None) # [\<lambda>k w :: (mock_stream, unit, unit, unit) world. Panicked ''boom'' w])))
      (NewMockStream ''p'' [0, 0, 0, 1, 7] 0) init_pool_state 4 ())"
proof (rule all_outcome_mono [OF HandleStream_releases [OF _ pool_reachable.start]])
  show "honest_reader (so_io mock_object)" by (simp add: mock_object_def mock_honest.honest_reader_axioms)
  show "\<forall>mw \<in> set ([] :: (mock_stream, unit, unit, unit) world Middleware list) \<union> set [\<lambda>k w. Panicked ''boom'' w]. calls_once same_pool mw"
    by (simp add: pool_order.handler_once same_pool_def)
qed (simp_all add: WithActiveStreams_def NewPipeline_def init_pool_state_def live_def)

text \<open>
  C28.  A pipeline that starts with \<^verbatim>\<open>Recovery\<close> never lets a panic out: handling a stream returns or
  hangs, and when something downstream panics it returns with the error \<^verbatim>\<open>middleware.ErrPanic\<close>, after
  the same cleanup.  That error is not the \<^verbatim>\<open>forge.ErrPanic\<close> whose comment says \<^verbatim>\<open>Recovery\<close> uses it:
  \<^verbatim>\<open>errors.Is(err, forge.ErrPanic)\<close> is false.
\<close>

theorem Recovery_contains_panics:
  assumes "p_middleware p = Recovery # mws"
    and "w0 = new_context so p s pool (if p_activeStreams p then active + 1 else active) app"
  shows "(\<forall>v w. HandleStream so p s pool active app \<noteq> Panicked v w) \<and>
    (\<forall>v w. run mws 0 w0 = Panicked v w \<longrightarrow>
       (\<exists>e. HandleStream so p s pool active app = Returned (finish so p (w\<lparr>sc_Err := Some e\<rparr>)) \<and>
            e = MiddlewareErrPanic \<and> \<not> errors_Is e ErrPanic))"
proof -
  have eq: "HandleStream so p s pool active app = with_defer (finish so p) (Recovery (run_list mws) w0)"
    using assms by (simp add: HandleStream_def run_0)
  show ?thesis
    unfolding eq run_0 by (auto simp: Recovery_def split: outcome.splits)
qed

theorem Recovery_contains_panics_witness:
  "\<exists>w. HandleStream mock_object (NewPipeline [Recovery, \<lambda>k w :: (mock_stream, unit, unit, unit) world. Panicked ''boom'' w])
      (NewMockStream ''p'' [] 0) init_pool_state 0 () = Returned w \<and> sc_Err w = Some MiddlewareErrPanic"
proof -
  let ?p = "NewPipeline [Recovery, \<lambda>k w :: (mock_stream, unit, unit, unit) world. Panicked ''boom'' w]"
  let ?w = "new_context mock_object ?p (NewMockStream ''p'' [] 0) init_pool_state 0 ()"
  have "run [\<lambda>k w. Panicked ''boom'' w] 0 ?w = Panicked ''boom'' ?w" by (simp add: run_0)
  moreover have "sc_Err (finish mock_object ?p (?w\<lparr>sc_Err := Some e\<rparr>)) = Some e" for e
    by (simp add: finish_def NewPipeline_def)
  ultimately show ?thesis
    using Recovery_contains_panics [of ?p "[\<lambda>k w. Panicked ''boom'' w]" ?w mock_object
        "NewMockStream ''p'' [] 0" init_pool_state 0 "()"]
    by (force simp: NewPipeline_def)
qed

text \<open>
  C35.  \<^verbatim>\<open>Chain\<close> is transparent: a chain anywhere in a pipeline behaves as its members listed in its
  place, the short-circuit on \<^verbatim>\<open>sc.Err\<close> between them included, whatever the middleware does.
\<close>

theorem Chain_inlines: "run (pre @ Chain mws # post) 0 w = run (pre @ mws @ post) 0 w"
  by (simp only: run_0 run_list_append [of pre] run_list_Chain)

text \<open>
  The router, branch by branch: a payload that is no JSON object, has no operation field, has one
  that is no string, or names an operation outside the table ends the request with the matching
  error, touches nothing else and runs no handler; otherwise the handler of exactly the named
  operation runs, with that name, a key of the table, recorded as the operation.
\<close>

lemma OperationRouter_dispatch:
  "(\<exists>e. OperationRouter json_object json_string fieldName routes k w = Returned (w\<lparr>sc_Err := Some e\<rparr>) \<and>
      ((\<exists>x. json_object (raw_bytes w) = Inl x \<and> e = WrapError ''parse operation envelope'' x) \<or>
       (\<exists>m. json_object (raw_bytes w) = Inr m \<and>
          (m fieldName = None \<and> e = ErrMissingOperation \<or>
           (\<exists>r. m fieldName = Some r \<and>
              ((\<exists>x. json_string r = Inl x \<and> e = WrapError ''parse operation value'' x) \<or>
               (\<exists>op. json_string r = Inr op \<and> op \<notin> dom routes \<and> e = ErrUnknownOperation))))))) \<or>
   (\<exists>m r op h w'. json_object (raw_bytes w) = Inr m \<and> m fieldName = Some r \<and> json_string r = Inr op \<and>
      routes op = Some h \<and> OperationRouter json_object json_string fieldName routes k w = h k w' \<and>
      Operation w' = op \<and> op \<in> dom routes \<and> sc_Err w' = sc_Err w \<and> sc_Stream w' = sc_Stream w \<and>
      g_pool w' = g_pool w \<and> g_app w' = g_app w)"
proof (cases "json_object (raw_bytes w)")
  case (Inl x)
  then show ?thesis by (simp add: OperationRouter_def)
next
  case (Inr m)
  show ?thesis
  proof (cases "m fieldName")
    case None
    with Inr show ?thesis by (simp add: OperationRouter_def)
  next
    case (Some r)
    show ?thesis
    proof (cases "json_string r")
      case (Inl x)
      with \<open>json_object (raw_bytes w) = Inr m\<close> Some show ?thesis by (simp add: OperationRouter_def)
    next
      case op: (Inr op)
      show ?thesis
      proof (cases "routes op")
        case None
        with Inr Some op show ?thesis by (simp add: OperationRouter_def domIff)
      next
        case (Some h)
        have "OperationRouter json_object json_string fieldName routes k w = h k (SetOperation op w)"
          using Inr \<open>m fieldName = Some r\<close> op Some by (simp add: OperationRouter_def)
        with Inr \<open>m fieldName = Some r\<close> op Some show ?thesis
          by (intro disjI2 exI [of _ m] exI [of _ r] exI [of _ op] exI [of _ h] exI [of _ "SetOperation op w"])
            (simp add: domIff)
      qed
    qed
  qed
qed

text \<open>
  A rejected request reaches nobody: when the limiter says no, the rest of the pipeline is not
  run, only the limiter's own state has changed, the recorded error satisfies
  \<^verbatim>\<open>errors.Is(err, ErrRateLimited)\<close>, and \<^verbatim>\<open>errors.As\<close> finds a retry time in it exactly when the
  limiter reported a positive one, and then that one.
\<close>

lemma RateLimit_rejects:
  assumes "allowN limiter (sc_PeerID w) (cost (raw_bytes w)) (g_app w) = ((False, d), g)"
    and "sc_Err w = None"
  shows "\<exists>e. run (RateLimitCostMiddleware limiter cost # rest) 0 w = Returned (w\<lparr>g_app := g, sc_Err := Some e\<rparr>) \<and>
    errors_Is e ErrRateLimited \<and> errors_As_RateLimited e = (if 0 < d then Some d else None)"
  using assms by (intro exI [of _ "rateLimited d"])
    (simp add: run_0 RateLimitCostMiddleware_def limited_def rateLimited_def)

text \<open>
  On a \<^verbatim>\<open>MockStream\<close>, whose writes do not fail, and with frames within the size limit, the peer receives
  exactly the frames of the items before the first one that does not marshal.
\<close>

lemma ResponseWriter_mock:
  assumes "k w = Returned w1" "sc_Response w1 = Some (Iter (NewSliceIterator items))"
    and "\<forall>d \<in> set (good_frames marshal items). length d \<le> MaxFrameSize"
  shows "\<exists>w'. ResponseWriterMiddleware mock_object (SliceIterator_Next marshal) c k w = Returned w' \<and>
    WriteBuf (sc_Stream w') = WriteBuf (sc_Stream w1) @ concat (map encode_frame (good_frames marshal items)) \<and>
    sc_Err w' = (if stop_error marshal items = EOF then sc_Err w1
      else Some (WrapError ''produce frame'' (stop_error marshal items)))"
  using write_iterator_slice [of marshal 0 items w1] assms
  by (auto simp: ResponseWriterMiddleware_def NewSliceIterator_def Let_def)

text \<open>
  C29.  A multi-frame response always ends, and a response cut short is reported.  With a slice iterator, on
  any stream whose frame writes return, the writer returns; it has written the frames of a prefix of
  the items, in order and each completely, and it has stopped for one of three reasons: the items are
  exhausted, and \<^verbatim>\<open>sc.Err\<close> is as before; the next item does not marshal, and \<^verbatim>\<open>sc.Err\<close> is its error under
  \<^verbatim>\<open>produce frame\<close>, unless that is \<^verbatim>\<open>io.EOF\<close>, which is taken for the end of the items; or the frame of the
  next item could not be written, because it is too large or the stream failed, and \<^verbatim>\<open>sc.Err\<close> is that
  error under \<^verbatim>\<open>write frame\<close>.
\<close>

theorem ResponseWriter_frames:
  assumes "k w = Returned w1" "sc_Response w1 = Some (Iter (NewSliceIterator items))"
    and returns: "\<forall>d s. WriteFrameWithTimeout (so_io so) d (sc_IdleTimeout w1) s \<noteq> None"
  shows "\<exists>w' ds rest s1. ResponseWriterMiddleware so (SliceIterator_Next marshal) c k w = Returned w' \<and>
    map marshal items = map Inr ds @ map marshal rest \<and>
    send_frames (so_io so) (sc_IdleTimeout w1) ds (sc_Stream w1) = Some s1 \<and>
    (case rest of
       [] \<Rightarrow> sc_Stream w' = s1 \<and> sc_Err w' = sc_Err w1
     | x # _ \<Rightarrow>
         (case marshal x of
            Inl e \<Rightarrow> sc_Stream w' = s1 \<and> sc_Err w' = (if e = EOF then sc_Err w1 else Some (WrapError ''produce frame'' e))
          | Inr d \<Rightarrow> \<exists>e. WriteFrameWithTimeout (so_io so) d (sc_IdleTimeout w1) s1 = Some (Inl e, sc_Stream w') \<and>
              sc_Err w' = Some (WrapError ''write frame'' e)))"
proof -
  obtain w' where w': "write_iterator so (SliceIterator_Next marshal) \<lparr>si_items = items, si_idx = 0\<rparr> w1 = Some w'"
    "sent_prefix so marshal w1 items w'"
    using write_iterator_sends [OF returns, of marshal items 0] by auto
  have "ResponseWriterMiddleware so (SliceIterator_Next marshal) c k w = Returned w'"
    using assms(1,2) w'(1) by (simp add: ResponseWriterMiddleware_def NewSliceIterator_def)
  with w'(2) show ?thesis unfolding sent_prefix_def by blast
qed

theorem ResponseWriter_frames_witness:
  "\<exists>w'. ResponseWriterMiddleware mock_object
      (SliceIterator_Next (\<lambda>n. if n = (0 :: nat) then Inr (replicate (MaxFrameSize + 1) 0) else Inr [word_of_nat n]))
      (JSONCodec (\<lambda>v. Inr []) (\<lambda>bs. Inr (Obj ())))
      (\<lambda>w. Returned (w\<lparr>sc_Response := Some (Iter (NewSliceIterator [0, 6]))\<rparr>))
      (new_context mock_object (NewPipeline [] :: (mock_stream, unit, nat SliceIterator, unit) Pipeline)
        (NewMockStream ''p'' [] 0) init_pool_state 0 ()) = Returned w' \<and>
    sc_Err w' = Some (WrapError ''write frame'' (frame_too_large (MaxFrameSize + 1)))"
proof -
  let ?m = "\<lambda>n. if n = (0 :: nat) then Inr (replicate (MaxFrameSize + 1) 0) else Inr [word_of_nat n] :: go_error + byte list"
  let ?k = "\<lambda>w :: (mock_stream, unit, nat SliceIterator, unit) world. Returned (w\<lparr>sc_Response := Some (Iter (NewSliceIterator [0, 6 :: nat]))\<rparr>)"
  let ?w = "new_context mock_object (NewPipeline [] :: (mock_stream, unit, nat SliceIterator, unit) Pipeline)
        (NewMockStream ''p'' [] 0) init_pool_state 0 ()"
  let ?w1 = "?w\<lparr>sc_Response := Some (Iter (NewSliceIterator [0, 6 :: nat]))\<rparr>"
  have big: "WriteFrameWithTimeout (so_io mock_object) d idle s = Some (Inl (frame_too_large (length d)), s)"
    if "MaxFrameSize < length d" for d idle s
    using that by (simp add: WriteFrameWithTimeout_def)
  have "WriteFrameWithTimeout (so_io mock_object) d idle s \<noteq> None" for d idle s
    using big [of d] mock_WriteFrame [of d idle s] by (cases "MaxFrameSize < length d") (simp_all add: mock_object_def)
  then have returns: "\<forall>d s. WriteFrameWithTimeout (so_io mock_object) d (sc_IdleTimeout ?w1) s \<noteq> None" by blast
  have resp: "sc_Response ?w1 = Some (Iter (NewSliceIterator [0, 6]))" by simp
  note result = ResponseWriter_frames [of ?k ?w ?w1 "[0, 6]" mock_object ?m "JSONCodec (\<lambda>v. Inr []) (\<lambda>bs. Inr (Obj ()))", OF refl resp returns]
  show ?thesis
  proof (rule exE [OF result], elim exE conjE, goal_cases)
    case (1 w' ds rest s1)
    have "ds = []" using 1(2,3) big [of "replicate (MaxFrameSize + 1) 0"] by (cases ds) auto
    then have m: "map ?m [0, 6] = map ?m rest" using 1(2) by (simp only: list.map append_Nil)
    then obtain x xs where rest: "rest = x # xs" by (cases rest) auto
    have "?m 0 = ?m x" using m unfolding rest by (simp only: list.map list.inject)
    then have "?m x = Inr (replicate (MaxFrameSize + 1) 0)" by (metis (full_types))
    with rest 1(1,4) big [of "replicate (MaxFrameSize + 1) 0"] show ?case by (intro exI [of _ w']) auto
  qed
qed

text \<open>
  C24.  The request timeout is a backstop for reads: whatever the peer sends or trickles, with any idle
  timeout and with none, decoding a frame on a new stream is over by the request deadline; it has
  then recorded an error or gone on to the next stage.
\<close>

theorem request_timeout_bounds_decode:
  assumes "0 < p_requestTimeout p" "pp_reset s = None"
  shows "\<exists>w'. pp_now (sc_Stream w') \<le> pp_now s + p_requestTimeout p \<and>
    (FrameDecodeMiddleware pipe_object ch k (new_context pipe_object p s pool n app) = k w' \<or>
     sc_Err w' \<noteq> None \<and>
     FrameDecodeMiddleware pipe_object ch k (new_context pipe_object p s pool n app) = Returned w')"
proof -
  let ?w = "new_context pipe_object p s pool n app" and ?d = "pp_now s + p_requestTimeout p"
  have "pp_reset (sc_Stream ?w) = Some ?d" "pp_now (sc_Stream ?w) \<le> ?d"
    using assms by (simp_all add: new_context_def Let_def requestContext_def arm_reset_def pipe_object_def
        pipe_ResetAt_def first_of_def)
  then obtain r s' ps' where rd: "ReadFramePooledWithTimeout pipe_io (ch pool) (p_idleTimeout p) (sc_Stream ?w) pool =
      Some (r, s', ps')" "pp_now s' \<le> ?d"
    using pipe_reset.pooled_read_before [of "sc_Stream ?w" ?d "ch pool" "p_idleTimeout p" pool] by auto
  have io: "so_io pipe_object = pipe_io" by (simp add: pipe_object_def)
  show ?thesis
  proof (cases r)
    case (Inl e)
    with rd io show ?thesis
      by (intro exI [of _ "?w\<lparr>sc_Stream := s', g_pool := ps', sc_Err := Some e\<rparr>"])
        (simp add: FrameDecodeMiddleware_def)
  next
    case (Inr b)
    with rd io show ?thesis
      by (intro exI [of _ "?w\<lparr>sc_Stream := s', g_pool := ps',
            sc_RawBytes := Some (pb_data (ps_bufs ps' ! b)), sc_PoolBuf := Some b\<rparr>"])
        (simp add: FrameDecodeMiddleware_def)
  qed
qed

theorem request_timeout_bounds_decode_witness:
  "\<exists>w'. pp_now (sc_Stream w') \<le> 5 * Minute \<and>
    (FrameDecodeMiddleware pipe_object (\<lambda>_. None) Returned
       (new_context pipe_object (WithIdleTimeout 0 (NewPipeline []) :: (pipe_stream, unit, unit, unit) Pipeline)
          (NewPipeStream ''p'' [] [] 0) init_pool_state 0 ()) = Returned w')"
proof -
  let ?p = "WithIdleTimeout 0 (NewPipeline []) :: (pipe_stream, unit, unit, unit) Pipeline"
  have "0 < p_requestTimeout ?p" "p_requestTimeout ?p = 5 * Minute"
    by (simp_all add: WithIdleTimeout_def NewPipeline_def DefaultRequestTimeout_def Minute_def)
  with request_timeout_bounds_decode [of ?p "NewPipeStream ''p'' [] [] 0" "\<lambda>_. None" Returned init_pool_state 0 "()"]
  show ?thesis by (auto simp: NewPipeStream_def)
qed

end
