(* ===== verification/Rated_Service.thy ===== *)
theory Rated_Service
  imports Middleware
begin

text \<open>
  A service behind the rate limiter: many streams at once through pipelines with
  \<^verbatim>\<open>RateLimitMiddleware\<close> (\<^verbatim>\<open>src/middleware/ratelimit_middleware.go\<close>) over one \<^verbatim>\<open>SingleBucket\<close>
  (\<^verbatim>\<open>src/middleware/ratelimit.go\<close>), interleaved with the passing of time and with the goroutine of
  \<^verbatim>\<open>cleanupLoop\<close>.  The limiter's decision is one step, since it is made under the mutex of a shard, where
  the clock is read too; what a stream does before and after it is not.  The guarantee of the limiter,
  which is about admitted units, becomes one about the handler.
\<close>

subsection \<open>The decision\<close>

text \<open>
  The limiter as the middleware sees it, over the shared bucket and a flag that tells whether the
  middleware has called \<^verbatim>\<open>next()\<close>.
\<close>

definition bucket_limiter :: "(peer_id \<Rightarrow> string) \<Rightarrow> time \<Rightarrow> (SingleBucket \<times> bool) Limiter" where
  "bucket_limiter str now = PlainLimiter (\<lambda>p n (b, called). case AllowN str now p n b of (ok, b') \<Rightarrow> (ok, (b', called)))"

definition next_called :: "('s, 'v, 'i, SingleBucket \<times> bool) world next_fn" where
  "next_called w = Returned (w\<lparr>g_app := (fst (g_app w), True)\<rparr>)"

definition enter_limiter ::
  "(peer_id \<Rightarrow> string) \<Rightarrow> time \<Rightarrow> ('s, 'v, 'i, SingleBucket \<times> bool) world \<Rightarrow> SingleBucket \<Rightarrow>
   ('s, 'v, 'i, SingleBucket \<times> bool) world outcome" where
  "enter_limiter str now w b = RateLimitMiddleware (bucket_limiter str now) next_called (w\<lparr>g_app := (b, False)\<rparr>)"

lemma enter_limiter_cases:
  assumes "AllowN str now (sc_PeerID w) 1 b = (ok, b')"
  shows "enter_limiter str now w b = Returned (if ok then w\<lparr>g_app := (b', True)\<rparr> else w\<lparr>g_app := (b', False), sc_Err := Some ErrRateLimited\<rparr>)"
    and "RateLimitMiddleware (bucket_limiter str now) k (w\<lparr>g_app := (b, False)\<rparr>) =
      (if ok then k (w\<lparr>g_app := (b', False)\<rparr>) else Returned (w\<lparr>g_app := (b', False), sc_Err := Some ErrRateLimited\<rparr>))"
  using assms by (simp_all add: enter_limiter_def next_called_def RateLimitMiddleware_def bucket_limiter_def limited_def rateLimited_def Let_def)

text \<open>
  What the flag stands for: in a pipeline, the middleware runs the rest, once, on the context it was
  called with and the bucket as the decision left it, if the flag is set, and ends the stream's way
  through the pipeline with an error otherwise.
\<close>

lemma enter_limiter_next:
  assumes "sc_Err w = None"
  shows "\<exists>w'. enter_limiter str now w b = Returned w' \<and>
    run_list (RateLimitMiddleware (bucket_limiter str now) # rest) (w\<lparr>g_app := (b, False)\<rparr>) =
      (if snd (g_app w') then run_list rest (w\<lparr>g_app := (fst (g_app w'), False)\<rparr>) else Returned w') \<and>
    (snd (g_app w') \<or> sc_Err w' = Some ErrRateLimited)"
proof -
  obtain ok b' where a: "AllowN str now (sc_PeerID w) 1 b = (ok, b')" by fastforce
  with assms show ?thesis using enter_limiter_cases [of str now w b ok b'] by (cases ok) simp_all
qed

lemma enter_limiter_result:
  assumes "enter_limiter str now w b = Returned w'"
  shows "snd (g_app w') = fst (AllowN str now (sc_PeerID w) 1 b) \<and> fst (g_app w') = snd (AllowN str now (sc_PeerID w) 1 b)"
proof -
  obtain ok b' where a: "AllowN str now (sc_PeerID w) 1 b = (ok, b')" by fastforce
  with assms enter_limiter_cases(1) [OF a] show ?thesis by (auto split: if_splits)
qed

subsection \<open>Interleaved requests\<close>

text \<open>
  A request is a stream that has got to the limiter, with whatever context the middleware before it has
  made; a stream that gets there twice is two requests.  It waits for the decision; is rejected; is
  admitted at an instant; its handler runs, admitted and started at two instants; or the handler is over.
\<close>

datatype progress = Waiting | Rejected | Admitted time | Handling time time | Handled time time

record ('s, 'v, 'i) request =
  rq_context :: "('s, 'v, 'i, SingleBucket \<times> bool) world"
  rq_progress :: progress

record ('s, 'v, 'i) rated =
  ra_now :: time
  ra_bucket :: SingleBucket
  ra_requests :: "('s, 'v, 'i) request list"

text \<open>
  One round of \<^verbatim>\<open>cleanup\<close> takes the shards one by one, each under its mutex, with the cutoff it has computed
  before.
\<close>

definition sweep_shard :: "nat \<Rightarrow> time \<Rightarrow> SingleBucket \<Rightarrow> SingleBucket" where
  "sweep_shard i cutoff b =
     b\<lparr>sb_shards := (sb_shards b)[i := (\<lambda>key. Option.bind ((sb_shards b ! i) key) (cleanup_entry cutoff))]\<rparr>"

text \<open>
  The steps.  Nothing obliges a request to take its next step, nor a handler to end.
\<close>

datatype ('s, 'v, 'i) rated_move =
    Reach "('s, 'v, 'i, SingleBucket \<times> bool) world" | Decide nat | StartHandler nat | EndHandler nat
  | SweepShard nat time | Pass duration

definition set_progress :: "nat \<Rightarrow> progress \<Rightarrow> ('s, 'v, 'i) rated \<Rightarrow> ('s, 'v, 'i) rated" where
  "set_progress i p x = x\<lparr>ra_requests := (ra_requests x)[i := (ra_requests x ! i)\<lparr>rq_progress := p\<rparr>]\<rparr>"

definition at_progress :: "nat \<Rightarrow> ('s, 'v, 'i) rated \<Rightarrow> progress option" where
  "at_progress i x = (if i < length (ra_requests x) then Some (rq_progress (ra_requests x ! i)) else None)"

fun rated_step :: "(peer_id \<Rightarrow> string) \<Rightarrow> ('s, 'v, 'i) rated_move \<Rightarrow> ('s, 'v, 'i) rated \<Rightarrow> ('s, 'v, 'i) rated option" where
  "rated_step str (Reach w) x = Some (x\<lparr>ra_requests := ra_requests x @ [\<lparr>rq_context = w, rq_progress = Waiting\<rparr>]\<rparr>)"
| "rated_step str (Decide i) x =
     (case at_progress i x of
        Some Waiting \<Rightarrow>
          (case enter_limiter str (ra_now x) (rq_context (ra_requests x ! i)) (ra_bucket x) of
             Returned w \<Rightarrow> Some (set_progress i (if snd (g_app w) then Admitted (ra_now x) else Rejected) (x\<lparr>ra_bucket := fst (g_app w)\<rparr>))
           | _ \<Rightarrow> None)
      | _ \<Rightarrow> None)"
| "rated_step str (StartHandler i) x =
     (case at_progress i x of Some (Admitted a) \<Rightarrow> Some (set_progress i (Handling a (ra_now x)) x) | _ \<Rightarrow> None)"
| "rated_step str (EndHandler i) x =
     (case at_progress i x of Some (Handling a s) \<Rightarrow> Some (set_progress i (Handled a s) x) | _ \<Rightarrow> None)"
| "rated_step str (SweepShard i t) x =
     (if t \<le> ra_now x then Some (x\<lparr>ra_bucket := sweep_shard i (t - sb_window (ra_bucket x)) (ra_bucket x)\<rparr>) else None)"
| "rated_step str (Pass d) x = (if 0 \<le> d then Some (x\<lparr>ra_now := ra_now x + d\<rparr>) else None)"

fun rated_steps where
  "rated_steps str [] x = Some x"
| "rated_steps str (e # es) x = (case rated_step str e x of None \<Rightarrow> None | Some y \<Rightarrow> rated_steps str es y)"

definition new_service :: "duration \<Rightarrow> int \<Rightarrow> time \<Rightarrow> ('s, 'v, 'i) rated" where
  "new_service window maxRequests now = \<lparr>ra_now = now, ra_bucket = NewSingleBucket window maxRequests, ra_requests = []\<rparr>"

text \<open>The instants at which the requests of a key were admitted; those whose handler has been started.\<close>

fun admitted_at :: "progress \<Rightarrow> time option" where
  "admitted_at (Admitted a) = Some a"
| "admitted_at (Handling a s) = Some a"
| "admitted_at (Handled a s) = Some a"
| "admitted_at _ = None"

fun started_at :: "progress \<Rightarrow> time option" where
  "started_at (Handling a s) = Some s"
| "started_at (Handled a s) = Some s"
| "started_at _ = None"

definition request_admissions :: "(peer_id \<Rightarrow> string) \<Rightarrow> string \<Rightarrow> ('s, 'v, 'i) request \<Rightarrow> time list" where
  "request_admissions str key r =
     (case admitted_at (rq_progress r) of
        Some a \<Rightarrow> if str (sc_PeerID (rq_context r)) = key then [a] else []
      | None \<Rightarrow> [])"

definition admissions :: "(peer_id \<Rightarrow> string) \<Rightarrow> string \<Rightarrow> ('s, 'v, 'i) request list \<Rightarrow> time list" where
  "admissions str key rs = concat (map (request_admissions str key) rs)"

definition handler_runs :: "(peer_id \<Rightarrow> string) \<Rightarrow> string \<Rightarrow> ('s, 'v, 'i) request list \<Rightarrow> time list" where
  "handler_runs str key rs = admissions str key (filter (\<lambda>r. started_at (rq_progress r) \<noteq> None) rs)"

subsection \<open>The sweeper\<close>

lemma fold_update_map:
  "k \<le> length xs \<Longrightarrow> fold (\<lambda>i ys. ys[i := f (ys ! i)]) [0..<k] xs = map f (take k xs) @ drop k xs"
proof (induction k)
  case (Suc k)
  then have "(map f (take k xs) @ drop k xs)[k := f ((map f (take k xs) @ drop k xs) ! k)] = map f (take (Suc k) xs) @ drop (Suc k) xs"
    by (simp add: nth_append list_update_append min_absorb2 take_Suc_conv_app_nth Cons_nth_drop_Suc [symmetric])
  with Suc show ?case by simp
qed simp

text \<open>A round that nothing interrupts is \<^const>\<open>cleanup\<close>.\<close>

lemma sweep_all_shards: "fold (\<lambda>i. sweep_shard i (now - sb_window b)) [0..<length (sb_shards b)] b = cleanup now b"
proof -
  let ?c = "now - sb_window b"
  let ?f = "\<lambda>s key. Option.bind (s key) (cleanup_entry ?c)"
  have "fold (\<lambda>i. sweep_shard i ?c) is v = v\<lparr>sb_shards := fold (\<lambda>i ys. ys[i := ?f (ys ! i)]) is (sb_shards v)\<rparr>" for "is" v
    by (induction "is" arbitrary: v) (simp_all add: sweep_shard_def)
  then show ?thesis using fold_update_map [of "length (sb_shards b)" "sb_shards b" ?f]
    by (simp add: cleanup_def shard_map_def)
qed

lemma window_of_sweep:
  "window_of (sweep_shard i c b) key = filter (\<lambda>ts. c < ts) (window_of b key) \<or> window_of (sweep_shard i c b) key = window_of b key"
proof (cases "i = shard_index (sb_shards b) key \<and> i < length (sb_shards b)")
  case True
  then show ?thesis
    by (auto simp: window_of_def sweep_shard_def shard_get_def shard_index_def cleanup_entry_def Let_def split: option.split)
next
  case False
  then consider "i \<noteq> shard_index (sb_shards b) key" | "length (sb_shards b) \<le> i" by linarith
  then show ?thesis by cases (auto simp: window_of_def sweep_shard_def shard_get_def shard_index_def list_update_beyond)
qed

lemma bucket_ok_sweep: "bucket_ok w m (sweep_shard i c b) = bucket_ok w m b"
  by (simp add: bucket_ok_def sweep_shard_def shards_ok_def)

lemma tracks_sweep:
  assumes "tracks w m (window_of b key) A T" "t \<le> T"
  shows "tracks w m (window_of (sweep_shard i (t - w) b) key) A T"
proof -
  have "filter (\<lambda>a. T - w < a) (filter (\<lambda>a. t - w < a) h) = filter (\<lambda>a. T - w < a) h" for h :: "time list"
    using assms(2) by (auto intro!: filter_cong)
  with assms(1) window_of_sweep [of i "t - w" b key] show ?thesis by (auto simp: tracks_def)
qed

subsection \<open>Admissions\<close>

lemma admissions_append: "admissions str key (rs @ rs') = admissions str key rs @ admissions str key rs'"
  by (simp add: admissions_def)

lemma mset_admissions_update:
  assumes "i < length rs"
  shows "mset (admissions str key (rs[i := r])) + mset (request_admissions str key (rs ! i)) =
    mset (admissions str key rs) + mset (request_admissions str key r)"
proof -
  have "rs = take i rs @ rs ! i # drop (Suc i) rs" by (rule id_take_nth_drop [OF assms])
  then have "mset (admissions str key rs) = mset (admissions str key (take i rs @ rs ! i # drop (Suc i) rs))" by simp
  with assms show ?thesis by (simp add: upd_conv_take_nth_drop admissions_def)
qed

text \<open>
  The invariant: what the limiter has on record for the key stands for the admissions of its requests,
  in some order; and no handler has started before its admission.
\<close>

definition well_limited where
  "well_limited str key w m x \<longleftrightarrow> bucket_ok w m (ra_bucket x) \<and>
     (\<exists>A. mset A = mset (admissions str key (ra_requests x)) \<and> tracks w m (window_of (ra_bucket x) key) A (ra_now x))"

definition well_ordered :: "time \<Rightarrow> ('s, 'v, 'i) request \<Rightarrow> bool" where
  "well_ordered now r \<longleftrightarrow>
     (case rq_progress r of
        Admitted a \<Rightarrow> a \<le> now
      | Handling a s \<Rightarrow> a \<le> s \<and> s \<le> now
      | Handled a s \<Rightarrow> a \<le> s \<and> s \<le> now
      | _ \<Rightarrow> True)"

lemma Decide_keeps:
  assumes x: "well_limited str key w m x" and m: "max 0 m < MaxInt" and step: "rated_step str (Decide i) x = Some y"
  shows "well_limited str key w m y"
proof -
  let ?r = "ra_requests x ! i" and ?b = "ra_bucket x"
  let ?p = "sc_PeerID (rq_context ?r)"
  obtain u where u: "enter_limiter str (ra_now x) (rq_context ?r) ?b = Returned u"
    and i: "i < length (ra_requests x)" "rq_progress ?r = Waiting"
    and y: "y = set_progress i (if snd (g_app u) then Admitted (ra_now x) else Rejected) (x\<lparr>ra_bucket := fst (g_app u)\<rparr>)"
    using step by (auto simp: at_progress_def split: if_splits progress.splits outcome.splits)
  note u = enter_limiter_result [OF u]
  obtain A where A: "bucket_ok w m ?b" "mset A = mset (admissions str key (ra_requests x))" "tracks w m (window_of ?b key) A (ra_now x)"
    using x by (auto simp: well_limited_def)
  let ?new = "if fst (AllowN str (ra_now x) ?p 1 ?b) \<and> str ?p = key then [ra_now x] else []"
  have "tracks w m (window_of (snd (AllowN str (ra_now x) ?p 1 ?b)) key) (A @ ?new) (ra_now x)"
    using tracks_step [OF A(3) order.refl, of 1] m A(3) by (cases "str ?p = key") (auto simp: AllowN_step [OF A(1)])
  moreover have "mset (admissions str key (ra_requests y)) = mset (A @ ?new)"
    using mset_admissions_update [OF i(1), of str key "?r\<lparr>rq_progress := if snd (g_app u) then Admitted (ra_now x) else Rejected\<rparr>"] A(2) i(2) u
    by (auto simp: y set_progress_def request_admissions_def)
  moreover have "bucket_ok w m (snd (AllowN str (ra_now x) ?p 1 ?b))" by (rule bucket_ok_AllowN [OF A(1)])
  moreover have "ra_bucket y = snd (AllowN str (ra_now x) ?p 1 ?b)" "ra_now y = ra_now x" using u by (simp_all add: y set_progress_def)
  ultimately show ?thesis unfolding well_limited_def by metis
qed

lemma progress_keeps_admissions:
  assumes "i < length rs" "admitted_at p = admitted_at (rq_progress (rs ! i))"
  shows "mset (admissions str key (rs[i := (rs ! i)\<lparr>rq_progress := p\<rparr>])) = mset (admissions str key rs)"
proof -
  have "request_admissions str key ((rs ! i)\<lparr>rq_progress := p\<rparr>) = request_admissions str key (rs ! i)"
    using assms(2) by (simp add: request_admissions_def split: option.split)
  with mset_admissions_update [OF assms(1), of str key "(rs ! i)\<lparr>rq_progress := p\<rparr>"] show ?thesis by simp
qed

lemma rated_step_limited:
  assumes x: "well_limited str key w m x" and m: "max 0 m < MaxInt" and step: "rated_step str e x = Some y"
  shows "well_limited str key w m y"
proof (cases e)
  case (Decide i)
  with Decide_keeps [OF x m] step show ?thesis by simp
next
  case (Reach u)
  with x step show ?thesis by (auto simp: well_limited_def admissions_append admissions_def request_admissions_def)
next
  case (StartHandler i)
  with step obtain a where i: "i < length (ra_requests x)" "rq_progress (ra_requests x ! i) = Admitted a"
    "y = set_progress i (Handling a (ra_now x)) x"
    by (auto simp: at_progress_def split: if_splits progress.splits)
  with x progress_keeps_admissions [OF i(1), of "Handling a (ra_now x)" str key] show ?thesis by (simp add: well_limited_def set_progress_def)
next
  case (EndHandler i)
  with step obtain a s where i: "i < length (ra_requests x)" "rq_progress (ra_requests x ! i) = Handling a s"
    "y = set_progress i (Handled a s) x"
    by (auto simp: at_progress_def split: if_splits progress.splits)
  with x progress_keeps_admissions [OF i(1), of "Handled a s" str key] show ?thesis by (simp add: well_limited_def set_progress_def)
next
  case (SweepShard i t)
  have "sb_window (ra_bucket x) = w" using x by (simp add: well_limited_def bucket_ok_def)
  moreover obtain A where "mset A = mset (admissions str key (ra_requests x))" "tracks w m (window_of (ra_bucket x) key) A (ra_now x)"
    using x by (auto simp: well_limited_def)
  ultimately show ?thesis using x step SweepShard tracks_sweep [of w m "ra_bucket x" key A "ra_now x" t i]
    by (auto simp: well_limited_def bucket_ok_sweep split: if_splits)
next
  case (Pass d)
  with step have y: "y = x\<lparr>ra_now := ra_now x + d\<rparr>" "0 \<le> d" by (simp_all split: if_splits)
  obtain A where "mset A = mset (admissions str key (ra_requests x))" "tracks w m (window_of (ra_bucket x) key) A (ra_now x)"
    using x by (auto simp: well_limited_def)
  with tracks_later(1) [of w m _ A "ra_now x" "ra_now x + d"] x y show ?thesis by (auto simp: well_limited_def)
qed

lemma set_progress_ordered:
  assumes "\<forall>r \<in> set (ra_requests z). well_ordered (ra_now z) r" "well_ordered (ra_now z) ((ra_requests z ! i)\<lparr>rq_progress := p\<rparr>)"
  shows "\<forall>r \<in> set (ra_requests (set_progress i p z)). well_ordered (ra_now (set_progress i p z)) r"
  using assms set_update_subset_insert [of "ra_requests z" i "(ra_requests z ! i)\<lparr>rq_progress := p\<rparr>"]
  by (auto simp: set_progress_def)

lemma rated_step_ordered:
  assumes x: "\<forall>r \<in> set (ra_requests x). well_ordered (ra_now x) r" and step: "rated_step str e x = Some y"
  shows "\<forall>r \<in> set (ra_requests y). well_ordered (ra_now y) r"
proof (cases e)
  case (Reach w)
  have "well_ordered (ra_now x) \<lparr>rq_context = w, rq_progress = Waiting\<rparr>" by (simp add: well_ordered_def)
  with Reach x step show ?thesis by auto
next
  case (Decide i)
  with step obtain u where "enter_limiter str (ra_now x) (rq_context (ra_requests x ! i)) (ra_bucket x) = Returned u"
    and y: "y = set_progress i (if snd (g_app u) then Admitted (ra_now x) else Rejected) (x\<lparr>ra_bucket := fst (g_app u)\<rparr>)"
    by (auto split: option.splits progress.splits outcome.splits)
  show ?thesis unfolding y by (intro set_progress_ordered) (use x in \<open>auto simp: well_ordered_def\<close>)
next
  case (StartHandler i)
  with step obtain a where i: "i < length (ra_requests x)" "rq_progress (ra_requests x ! i) = Admitted a"
    and y: "y = set_progress i (Handling a (ra_now x)) x"
    by (auto simp: at_progress_def split: if_splits progress.splits)
  have "well_ordered (ra_now x) (ra_requests x ! i)" using x i(1) by simp
  with i(2) show ?thesis unfolding y by (intro set_progress_ordered [OF x]) (simp add: well_ordered_def)
next
  case (EndHandler i)
  with step obtain a s where i: "i < length (ra_requests x)" "rq_progress (ra_requests x ! i) = Handling a s"
    and y: "y = set_progress i (Handled a s) x"
    by (auto simp: at_progress_def split: if_splits progress.splits)
  have "well_ordered (ra_now x) (ra_requests x ! i)" using x i(1) by simp
  with i(2) show ?thesis unfolding y by (intro set_progress_ordered [OF x]) (simp add: well_ordered_def)
next
  case (SweepShard i t)
  with x step show ?thesis by (auto split: if_splits)
next
  case (Pass d)
  with step have y: "y = x\<lparr>ra_now := ra_now x + d\<rparr>" "0 \<le> d" by (simp_all split: if_splits)
  have "well_ordered (ra_now x + d) r" if "well_ordered (ra_now x) r" for r :: "('a, 'b, 'c) request"
    using that y(2) by (cases "rq_progress r") (simp_all add: well_ordered_def)
  with x y(1) show ?thesis by simp
qed

lemma rated_steps_keep:
  assumes "rated_steps str es x = Some y" "max 0 m < MaxInt" "well_limited str key w m x" "\<forall>r \<in> set (ra_requests x). well_ordered (ra_now x) r"
  shows "well_limited str key w m y \<and> (\<forall>r \<in> set (ra_requests y). well_ordered (ra_now y) r)"
  using assms
proof (induction es arbitrary: x)
  case (Cons e es)
  then obtain z where z: "rated_step str e x = Some z" "rated_steps str es z = Some y" by (auto split: option.splits)
  from Cons.IH [OF z(2) Cons.prems(2)] rated_step_limited [OF Cons.prems(3,2) z(1)] rated_step_ordered [OF Cons.prems(4) z(1)]
  show ?case by blast
qed simp

lemma well_limited_new: "well_limited str key w m (new_service w m now)"
  by (auto simp: well_limited_def new_service_def admissions_def tracks_def Rate_Window.within_def)

lemma well_limited_bound:
  assumes "well_limited str key w m x"
  shows "length (Rate_Window.within w t (admissions str key (ra_requests x))) \<le> nat m"
proof -
  obtain A where A: "mset A = mset (admissions str key (ra_requests x))" "length (Rate_Window.within w t A) \<le> nat m"
    using assms by (auto simp: well_limited_def tracks_def)
  have "length (Rate_Window.within w t xs) = size (filter_mset (\<lambda>a. t - w < a \<and> a \<le> t) (mset xs))" for xs
    by (simp add: Rate_Window.within_def flip: size_mset mset_filter)
  with A show ?thesis by metis
qed

lemma runs_within: "length (Rate_Window.within w t (handler_runs str key rs)) \<le> length (Rate_Window.within w t (admissions str key rs))"
  by (induction rs) (auto simp: handler_runs_def admissions_def Rate_Window.within_def)

subsection \<open>Properties\<close>


text \<open>Two streams of one peer and one of another, limit 1: the second is rejected, and a handler hangs.\<close>

definition peer_context :: "peer_id \<Rightarrow> (mock_stream, unit, unit, SingleBucket \<times> bool) world" where
  "peer_context p = new_context mock_object (NewPipeline []) (NewMockStream p [] 0) init_pool_state 0 (NewSingleBucket 0 0, False)"

lemma peer_context_fields: "sc_PeerID (peer_context p) = p"
  by (simp add: peer_context_def new_context_def mock_object_def NewMockStream_def Let_def)


end
