(* ===== verification/Services.thy ===== *)
theory Services
  imports Forge_Errors
begin

text \<open>
  Background services, \<^verbatim>\<open>src/service\<close>: the ordered start and stop of \<^verbatim>\<open>lifecycle.go\<close>, the ticker
  service of \<^verbatim>\<open>ticker.go\<close> and the HTTP health check of \<^verbatim>\<open>healthcheck.go\<close>.  A \<open>Service\<close> is a pair of
  operations on the state \<open>'w\<close> of the application, with the time its \<^verbatim>\<open>Stop\<close> takes.  The locale \<open>service_group\<close> states what a service
  must promise for the lifecycle to mean anything: a start that fails leaves it down, a start that
  succeeds leaves it up, a stop takes it down whatever it reports, and none of them touches another
  service.  The ticker and the health check keep that contract.
\<close>

subsection \<open>Lifecycle\<close>

record 'w Service =
  svc_Name :: "'w \<Rightarrow> string"
  svc_Start :: "'w \<Rightarrow> go_error option \<times> 'w"
  svc_Stop :: "'w \<Rightarrow> go_error option \<times> 'w"
  svc_StopTime :: "'w \<Rightarrow> duration"

record 'w Lifecycle =
  lc_services :: "'w Service list"

definition NewLifecycle :: "'w Lifecycle" where
  "NewLifecycle = \<lparr>lc_services = []\<rparr>"

definition Register :: "'w Service \<Rightarrow> 'w Lifecycle \<Rightarrow> 'w Lifecycle" where
  "Register svc lc = lc\<lparr>lc_services := lc_services lc @ [svc]\<rparr>"

text \<open>The rollback loop: services \<open>j - 1\<close> down to \<open>0\<close>, errors ignored.\<close>

fun rollback :: "'w Service list \<Rightarrow> nat \<Rightarrow> 'w \<Rightarrow> 'w" where
  "rollback svcs 0 w = w"
| "rollback svcs (Suc j) w = rollback svcs j (snd (svc_Stop (svcs ! j) w))"

function start_loop :: "'w Service list \<Rightarrow> nat \<Rightarrow> 'w \<Rightarrow> go_error option \<times> 'w" where
  "start_loop svcs i w =
     (if i < length svcs then
        (case svc_Start (svcs ! i) w of
           (Some e, w') \<Rightarrow> (Some (WrapError (''start '' @ svc_Name (svcs ! i) w') e), rollback svcs i w')
         | (None, w') \<Rightarrow> start_loop svcs (i + 1) w')
      else (None, w))"
  by pat_completeness auto
termination
  by (relation "measure (\<lambda>(svcs, i, w). length svcs - i)") auto

declare start_loop.simps [simp del]

definition StartAll :: "'w Lifecycle \<Rightarrow> 'w \<Rightarrow> go_error option \<times> 'w" where
  "StartAll lc w = start_loop (lc_services lc) 0 w"

fun stop_loop :: "'w Service list \<Rightarrow> nat \<Rightarrow> go_error option \<Rightarrow> 'w \<Rightarrow> go_error option \<times> 'w" where
  "stop_loop svcs 0 firstErr w = (firstErr, w)"
| "stop_loop svcs (Suc i) firstErr w =
     (case svc_Stop (svcs ! i) w of
        (None, w') \<Rightarrow> stop_loop svcs i firstErr w'
      | (Some e, w') \<Rightarrow> stop_loop svcs i (if firstErr = None then Some e else firstErr) w')"

definition StopAll :: "'w Lifecycle \<Rightarrow> 'w \<Rightarrow> go_error option \<times> 'w" where
  "StopAll lc w = stop_loop (lc_services lc) (length (lc_services lc)) None w"

text \<open>How long the loop of \<^verbatim>\<open>StopAll\<close> takes: the services are stopped one after the other.\<close>

fun stop_loop_time :: "'w Service list \<Rightarrow> nat \<Rightarrow> 'w \<Rightarrow> duration" where
  "stop_loop_time svcs 0 w = 0"
| "stop_loop_time svcs (Suc i) w = max 0 (svc_StopTime (svcs ! i) w) + stop_loop_time svcs i (snd (svc_Stop (svcs ! i) w))"

definition StopAll_time :: "'w Lifecycle \<Rightarrow> 'w \<Rightarrow> duration" where
  "StopAll_time lc w = stop_loop_time (lc_services lc) (length (lc_services lc)) w"

lemma stop_loop_time_bounds:
  assumes "\<And>i w. i < n \<Longrightarrow> max 0 (svc_StopTime (svcs ! i) w) \<le> B"
  shows "0 \<le> stop_loop_time svcs n w \<and> stop_loop_time svcs n w \<le> int n * B"
  using assms
proof (induction n arbitrary: w)
  case (Suc n)
  have "0 \<le> stop_loop_time svcs n v \<and> stop_loop_time svcs n v \<le> int n * B" for v
    by (rule Suc.IH) (rule Suc.prems, simp)
  from this [of "snd (svc_Stop (svcs ! n) w)"] Suc.prems [of n w] show ?case
    by (auto simp: distrib_right)
qed simp

definition Services_of :: "'w Lifecycle \<Rightarrow> 'w Service list" where
  "Services_of lc = lc_services lc"

locale service_group =
  fixes svcs :: "'w Service list" and up :: "nat \<Rightarrow> 'w \<Rightarrow> bool"
  assumes start_ok: "i < length svcs \<Longrightarrow> svc_Start (svcs ! i) w = (None, w') \<Longrightarrow> up j w' \<longleftrightarrow> j = i \<or> up j w"
    and start_fail: "i < length svcs \<Longrightarrow> svc_Start (svcs ! i) w = (Some e, w') \<Longrightarrow> up j w' \<longleftrightarrow> j \<noteq> i \<and> up j w"
    and stop_down: "i < length svcs \<Longrightarrow> up j (snd (svc_Stop (svcs ! i) w)) \<longleftrightarrow> j \<noteq> i \<and> up j w"
begin

lemma rollback_up:
  assumes "i \<le> length svcs"
  shows "up j (rollback svcs i w) \<longleftrightarrow> i \<le> j \<and> up j w"
  using assms
proof (induction i arbitrary: w)
  case (Suc i)
  then have "up j (rollback svcs (Suc i) w) \<longleftrightarrow> i \<le> j \<and> up j (snd (svc_Stop (svcs ! i) w))" by simp
  also have "up j (snd (svc_Stop (svcs ! i) w)) \<longleftrightarrow> j \<noteq> i \<and> up j w"
    using Suc.prems by (intro stop_down) simp
  finally show ?case by (metis Suc_leD Suc_leI le_neq_implies_less not_less_eq_eq)
qed simp

definition started :: "nat \<Rightarrow> 'w \<Rightarrow> go_error option \<times> 'w \<Rightarrow> bool" where
  "started i w r \<longleftrightarrow>
     (if fst r = None then \<forall>j. up j (snd r) \<longleftrightarrow> (i \<le> j \<and> j < length svcs) \<or> up j w
      else \<exists>k. i \<le> k \<and> k < length svcs \<and> (\<forall>j. up j (snd r) \<longleftrightarrow> k < j \<and> up j w))"

lemma start_loop_started: "i \<le> length svcs \<Longrightarrow> started i w (start_loop svcs i w)"
proof (induction "length svcs - i" arbitrary: i w rule: less_induct)
  case less
  show ?case
  proof (cases "i < length svcs")
    case False
    with less.prems show ?thesis by (auto simp: start_loop.simps started_def)
  next
    case True
    obtain r w1 where st: "svc_Start (svcs ! i) w = (r, w1)" by force
    show ?thesis
    proof (cases r)
      case (Some e)
      have "up j (rollback svcs i w1) \<longleftrightarrow> i < j \<and> up j w" for j
        using rollback_up [of i j w1] start_fail [OF True st [unfolded Some], of j] True by auto
      with True st Some show ?thesis by (auto simp: start_loop.simps [of svcs i] started_def)
    next
      case None
      let ?r = "start_loop svcs (i + 1) w1"
      have IH: "started (i + 1) w1 ?r" using True by (intro less.hyps) auto
      have up1: "up j w1 \<longleftrightarrow> j = i \<or> up j w" for j using start_ok [OF True st [unfolded None]] .
      have "started i w ?r"
      proof (cases "fst ?r")
        case None
        then have after: "up j (snd ?r) \<longleftrightarrow> (i + 1 \<le> j \<and> j < length svcs) \<or> up j w1" for j
          using IH unfolding started_def by simp
        have "up j (snd ?r) \<longleftrightarrow> (i \<le> j \<and> j < length svcs) \<or> up j w" for j
          using after [of j] up1 [of j] True by (cases "j = i") auto
        with None show ?thesis by (simp add: started_def)
      next
        case (Some e)
        with IH obtain k where k: "i + 1 \<le> k" "k < length svcs" "\<forall>j. up j (snd ?r) \<longleftrightarrow> k < j \<and> up j w1"
          unfolding started_def by (metis option.distinct(1))
        have "up j (snd ?r) \<longleftrightarrow> k < j \<and> up j w" for j using up1 [of j] k(1) k(3) [rule_format, of j] by linarith
        moreover have "i \<le> k" using k(1) by simp
        ultimately show ?thesis using Some k(2) unfolding started_def by (metis option.distinct(1))
      qed
      then show ?thesis using True st None by (simp add: start_loop.simps [of svcs i])
    qed
  qed
qed

lemma stop_loop_down: "n \<le> length svcs \<Longrightarrow> up j (snd (stop_loop svcs n e w)) \<longleftrightarrow> n \<le> j \<and> up j w"
proof (induction n arbitrary: e w)
  case (Suc n)
  obtain r w1 where st: "svc_Stop (svcs ! n) w = (r, w1)" by force
  have "up j w1 \<longleftrightarrow> j \<noteq> n \<and> up j w" using stop_down [of n j w] Suc.prems st by simp
  moreover have "up j (snd (stop_loop svcs (Suc n) e w)) \<longleftrightarrow> n \<le> j \<and> up j w1"
    using Suc st by (cases r) simp_all
  ultimately show ?case by (metis Suc_leD Suc_leI le_neq_implies_less not_less_eq_eq)
qed simp

end

text \<open>What \<^verbatim>\<open>StopAll\<close> reports: the first error, in the order of stopping.\<close>

fun stop_errors :: "'w Service list \<Rightarrow> 'w \<Rightarrow> go_error list" where
  "stop_errors [] w = []"
| "stop_errors (s # ss) w = (case svc_Stop s w of (None, w') \<Rightarrow> stop_errors ss w' | (Some e, w') \<Rightarrow> e # stop_errors ss w')"

lemma stop_loop_error:
  "n \<le> length svcs \<Longrightarrow>
   fst (stop_loop svcs n e w) = (case e of Some x \<Rightarrow> Some x | None \<Rightarrow>
     (case stop_errors (rev (take n svcs)) w of [] \<Rightarrow> None | x # _ \<Rightarrow> Some x))"
  by (induction n arbitrary: e w) (auto simp: take_Suc_conv_app_nth split: prod.split option.split)

subsection \<open>TickerService\<close>

text \<open>
  \<open>ts_ctxs\<close> are the contexts made by \<^verbatim>\<open>Start\<close>, one per background loop, with whether each is
  cancelled; \<^verbatim>\<open>ts.cancel\<close> cancels the last one.
\<close>

record TickerService =
  ts_name :: string
  ts_interval :: duration
  ts_ctxs :: "bool list"
  ts_cancel :: "nat option"
  ts_lastRun :: "time option"
  ts_lastErr :: "go_error option"
  ts_healthy :: bool

definition NewTickerService :: "string \<Rightarrow> duration \<Rightarrow> TickerService" where
  "NewTickerService name interval =
     \<lparr>ts_name = name, ts_interval = interval, ts_ctxs = [], ts_cancel = None, ts_lastRun = None,
      ts_lastErr = None, ts_healthy = True\<rparr>"

definition Ticker_Name :: "TickerService \<Rightarrow> string" where
  "Ticker_Name ts = ts_name ts"

definition Ticker_Start :: "TickerService \<Rightarrow> go_error option \<times> TickerService" where
  "Ticker_Start ts = (None, ts\<lparr>ts_ctxs := ts_ctxs ts @ [False], ts_cancel := Some (length (ts_ctxs ts))\<rparr>)"

definition Ticker_Stop :: "TickerService \<Rightarrow> go_error option \<times> TickerService" where
  "Ticker_Stop ts =
     (None, case ts_cancel ts of None \<Rightarrow> ts | Some c \<Rightarrow> ts\<lparr>ts_ctxs := (ts_ctxs ts)[c := True]\<rparr>)"

text \<open>One call of the work function: it returns an error or \<^verbatim>\<open>nil\<close>, or it panics.\<close>

datatype work_result = Work_returns "go_error option" | Work_panics string

definition runOnce :: "time \<Rightarrow> work_result \<Rightarrow> TickerService \<Rightarrow> TickerService" where
  "runOnce now r ts =
     (case r of
        Work_returns err \<Rightarrow> ts\<lparr>ts_lastRun := Some now, ts_lastErr := err, ts_healthy := (err = None)\<rparr>
      | Work_panics v \<Rightarrow> ts\<lparr>ts_healthy := False, ts_lastErr := Some (ErrorString (''panic: '' @ v))\<rparr>)"

text \<open>
  The loop: one run, then a ticker, then whatever the \<^verbatim>\<open>select\<close> receives until the context is done.
  \<^verbatim>\<open>time.NewTicker\<close> panics for an interval that is not positive, in the background goroutine, where
  nothing recovers it (\<^const>\<open>None\<close>).
\<close>

fun ticker_select :: "(time \<times> work_result) option list \<Rightarrow> TickerService \<Rightarrow> TickerService" where
  "ticker_select [] ts = ts"
| "ticker_select (None # es) ts = ts"
| "ticker_select (Some (now, r) # es) ts = ticker_select es (runOnce now r ts)"

definition Ticker_loop ::
  "time \<times> work_result \<Rightarrow> (time \<times> work_result) option list \<Rightarrow> TickerService \<Rightarrow> TickerService option" where
  "Ticker_loop first es ts =
     (let ts1 = runOnce (fst first) (snd first) ts
      in if ts_interval ts1 \<le> 0 then None else Some (ticker_select es ts1))"

definition Healthy :: "TickerService \<Rightarrow> bool" where "Healthy ts = ts_healthy ts"
definition LastRun :: "TickerService \<Rightarrow> time option" where "LastRun ts = ts_lastRun ts"
definition LastError :: "TickerService \<Rightarrow> go_error option" where "LastError ts = ts_lastErr ts"

definition ticker_running :: "TickerService \<Rightarrow> bool" where
  "ticker_running ts \<longleftrightarrow> (case ts_cancel ts of None \<Rightarrow> False | Some c \<Rightarrow> c < length (ts_ctxs ts) \<and> \<not> ts_ctxs ts ! c)"

subsection \<open>HealthCheck\<close>

text \<open>
  \<open>hc_server\<close> is \<^verbatim>\<open>nil\<close> or a server, which serves or does not.  A check looks at the state \<open>'g\<close> of the
  application.  \<open>listen\<close> is \<^verbatim>\<open>net.Listen\<close>.  \<open>shutdown\<close> is what \<^verbatim>\<open>http.Server.Shutdown\<close> would return
  without a deadline and the time it needs until the open connections are idle; it closes the listeners
  at once, waits for the connections, and gives up with the context's error when the 5 s are over.
\<close>

record 'g HealthCheck =
  hc_addr :: string
  hc_server :: "bool option"
  hc_checks :: "('g \<Rightarrow> go_error option) list"

definition NewHealthCheck :: "string \<Rightarrow> 'g HealthCheck" where
  "NewHealthCheck addr = \<lparr>hc_addr = addr, hc_server = None, hc_checks = []\<rparr>"

definition AddCheck :: "('g \<Rightarrow> go_error option) \<Rightarrow> 'g HealthCheck \<Rightarrow> 'g HealthCheck" where
  "AddCheck fn h = h\<lparr>hc_checks := hc_checks h @ [fn]\<rparr>"

definition healthz :: "int \<times> string" where
  "healthz = (200, ''ok'')"

fun readyz_loop :: "('g \<Rightarrow> go_error option) list \<Rightarrow> 'g \<Rightarrow> int \<times> string" where
  "readyz_loop [] g = (200, ''ok'')"
| "readyz_loop (check # cs) g =
     (case check g of Some e \<Rightarrow> (503, Error e) | None \<Rightarrow> readyz_loop cs g)"

definition readyz :: "'g HealthCheck \<Rightarrow> 'g \<Rightarrow> int \<times> string" where
  "readyz h g = readyz_loop (hc_checks h) g"

definition Health_Start :: "(string \<Rightarrow> go_error option) \<Rightarrow> 'g HealthCheck \<Rightarrow> go_error option \<times> 'g HealthCheck" where
  "Health_Start listen h =
     (let h1 = h\<lparr>hc_server := Some False\<rparr>
      in case listen (hc_addr h1) of
           Some e \<Rightarrow> (Some e, h1)
         | None \<Rightarrow> (None, h1\<lparr>hc_server := Some True\<rparr>))"

definition shutdown_limit :: duration where [go_defs]: "shutdown_limit = 5 * Second"

definition Health_Stop :: "go_error option \<times> duration \<Rightarrow> 'g HealthCheck \<Rightarrow> go_error option \<times> 'g HealthCheck" where
  "Health_Stop shutdown h =
     (case hc_server h of
        None \<Rightarrow> (None, h)
      | Some _ \<Rightarrow>
          (if snd shutdown \<le> shutdown_limit then fst shutdown else Some (ExternalError ''context deadline exceeded''), h\<lparr>hc_server := Some False\<rparr>))"

definition Health_StopTime :: "go_error option \<times> duration \<Rightarrow> 'g HealthCheck \<Rightarrow> duration" where
  "Health_StopTime shutdown h =
     (case hc_server h of None \<Rightarrow> 0 | Some _ \<Rightarrow> min (max 0 (snd shutdown)) shutdown_limit)"

subsection \<open>A group of both\<close>

text \<open>The state of a server's services, by registration index, and the services as the lifecycle sees them.\<close>

datatype 'g background = TickerSvc TickerService | HealthSvc "'g HealthCheck"

fun background_Name :: "'g background \<Rightarrow> string" where
  "background_Name (TickerSvc ts) = Ticker_Name ts"
| "background_Name (HealthSvc h) = ''healthcheck''"

fun background_Start :: "(string \<Rightarrow> go_error option) \<Rightarrow> 'g background \<Rightarrow> go_error option \<times> 'g background" where
  "background_Start listen (TickerSvc ts) = apsnd TickerSvc (Ticker_Start ts)"
| "background_Start listen (HealthSvc h) = apsnd HealthSvc (Health_Start listen h)"

fun background_Stop :: "go_error option \<times> duration \<Rightarrow> 'g background \<Rightarrow> go_error option \<times> 'g background" where
  "background_Stop shutdown (TickerSvc ts) = apsnd TickerSvc (Ticker_Stop ts)"
| "background_Stop shutdown (HealthSvc h) = apsnd HealthSvc (Health_Stop shutdown h)"

text \<open>\<^verbatim>\<open>TickerService.Stop\<close> cancels and returns.\<close>

fun background_StopTime :: "go_error option \<times> duration \<Rightarrow> 'g background \<Rightarrow> duration" where
  "background_StopTime shutdown (TickerSvc ts) = 0"
| "background_StopTime shutdown (HealthSvc h) = Health_StopTime shutdown h"

lemma background_StopTime_bounds: "0 \<le> background_StopTime shutdown b \<and> background_StopTime shutdown b \<le> shutdown_limit"
  by (cases b) (auto simp: Health_StopTime_def go_defs split: option.split)

text \<open>
  A service that is up: a ticker whose current context is not cancelled, a health check whose server
  accepts connections.  A ticker that is down starts no further run; a run of the work function that
  is in progress when it is stopped is not waited for, nor is a health request that outlasts the limit.
\<close>

fun background_up :: "'g background \<Rightarrow> bool" where
  "background_up (TickerSvc ts) = ticker_running ts"
| "background_up (HealthSvc h) = (hc_server h = Some True)"

definition member ::
  "(string \<Rightarrow> go_error option) \<Rightarrow> (nat \<Rightarrow> go_error option \<times> duration) \<Rightarrow> nat \<Rightarrow> (nat \<Rightarrow> 'g background) Service" where
  "member listen shutdown i =
     \<lparr>svc_Name = (\<lambda>w. background_Name (w i)),
      svc_Start = (\<lambda>w. apsnd (\<lambda>b. w(i := b)) (background_Start listen (w i))),
      svc_Stop = (\<lambda>w. apsnd (\<lambda>b. w(i := b)) (background_Stop (shutdown i) (w i))),
      svc_StopTime = (\<lambda>w. background_StopTime (shutdown i) (w i))\<rparr>"

definition members ::
  "(string \<Rightarrow> go_error option) \<Rightarrow> (nat \<Rightarrow> go_error option \<times> duration) \<Rightarrow> nat \<Rightarrow> (nat \<Rightarrow> 'g background) Lifecycle" where
  "members listen shutdown n = fold (\<lambda>i. Register (member listen shutdown i)) [0..<n] NewLifecycle"

lemma lc_services_members [simp]: "lc_services (members listen shutdown n) = map (member listen shutdown) [0..<n]"
proof -
  have "lc_services (fold (\<lambda>i. Register (f i)) xs lc) = lc_services lc @ map f xs"
    for f :: "nat \<Rightarrow> (nat \<Rightarrow> 'a background) Service" and xs lc
    by (induction xs arbitrary: lc) (simp_all add: Register_def)
  then show ?thesis by (simp add: members_def NewLifecycle_def)
qed

lemma background_Start_up:
  "background_Start listen b = (None, b') \<Longrightarrow> background_up b'"
  "background_Start listen b = (Some e, b') \<Longrightarrow> \<not> background_up b'"
  by (cases b; auto simp: Ticker_Start_def Health_Start_def ticker_running_def Let_def split: option.splits)+

lemma background_Stop_down: "\<not> background_up (snd (background_Stop shutdown b))"
  by (cases b) (auto simp: Ticker_Stop_def Health_Stop_def ticker_running_def split: option.splits)

interpretation services:
  service_group "map (member listen shutdown) [0..<n]" "\<lambda>i w. background_up (w i)"
  for listen shutdown n
proof (unfold_locales, goal_cases)
  case (1 i w w' j)
  then show ?case
    by (cases "background_Start listen (w i)"; cases "j = i") (auto simp: member_def dest: background_Start_up)
next
  case (2 i w e w' j)
  then show ?case
    by (cases "background_Start listen (w i)"; cases "j = i") (auto simp: member_def dest: background_Start_up)
next
  case (3 i j w)
  then show ?case using background_Stop_down [of "shutdown i" "w i"] by (auto simp: member_def)
qed

lemma StartAll_members:
  assumes "\<forall>i < n. \<not> background_up (w i)" "StartAll (members listen shutdown n) w = (err, w')"
  shows "if err = None then \<forall>i < n. background_up (w' i) else \<forall>i < n. \<not> background_up (w' i)"
  using services.start_loop_started [where i = 0 and listen = listen and shutdown = shutdown and n = n and w = w] assms
  by (auto simp: StartAll_def services.started_def split: if_splits)

lemma StopAll_members: "i < n \<Longrightarrow> \<not> background_up (snd (StopAll (members listen shutdown n) w) i)"
  using services.stop_loop_down [where n = n and na = n and listen = listen and shutdown = shutdown and e = None and w = w]
  by (auto simp: StopAll_def)

lemma member_StopTime: "0 \<le> svc_StopTime (member listen shutdown i) w" "svc_StopTime (member listen shutdown i) w \<le> shutdown_limit"
  using background_StopTime_bounds [of "shutdown i" "w i"] by (simp_all add: member_def)

lemma members_time:
  "k \<le> n \<Longrightarrow> 0 \<le> stop_loop_time (map (member listen shutdown) [0..<n]) k w \<and>
     stop_loop_time (map (member listen shutdown) [0..<n]) k w \<le> int k * shutdown_limit"
  by (rule stop_loop_time_bounds) (use member_StopTime in \<open>simp add: shutdown_limit_def Second_def\<close>)

lemma StopAll_time_members:
  "0 \<le> StopAll_time (members listen shutdown n) w \<and> StopAll_time (members listen shutdown n) w \<le> int n * shutdown_limit"
  using members_time [of n n] by (simp add: StopAll_time_def)

text \<open>The state of a ticker after any runs: healthy exactly when the last run left no error.\<close>

lemma runOnce_healthy: "ts_healthy (runOnce now r ts) \<longleftrightarrow> ts_lastErr (runOnce now r ts) = None"
  by (cases r) (simp_all add: runOnce_def)

lemma ticker_select_healthy:
  "ts_healthy ts \<longleftrightarrow> ts_lastErr ts = None \<Longrightarrow>
   ts_healthy (ticker_select es ts) \<longleftrightarrow> ts_lastErr (ticker_select es ts) = None"
proof (induction es ts rule: ticker_select.induct)
  case (3 now r es ts)
  then show ?case using runOnce_healthy by simp
qed auto

lemma runOnce_interval [simp]: "ts_interval (runOnce now r ts) = ts_interval ts"
  by (cases r) (simp_all add: runOnce_def)

text \<open>The last run before the context is done.\<close>

fun last_run :: "time \<times> work_result \<Rightarrow> (time \<times> work_result) option list \<Rightarrow> time \<times> work_result" where
  "last_run x [] = x"
| "last_run x (None # es) = x"
| "last_run x (Some y # es) = last_run y es"

lemma ticker_select_last:
  "\<exists>ts'. ticker_select es (runOnce (fst x) (snd x) ts) = runOnce (fst (last_run x es)) (snd (last_run x es)) ts'"
proof (induction x es arbitrary: ts rule: last_run.induct)
  case (3 x y es)
  show ?case using "3.IH" [of "runOnce (fst x) (snd x) ts"] by (cases y) simp
qed auto

lemma readyz_loop_ok: "fst (readyz_loop cs g) = 200 \<longleftrightarrow> (\<forall>c \<in> set cs. c g = None)"
  by (induction cs) (auto split: option.split)

lemma readyz_loop_skip: "\<forall>c \<in> set pre. c g = None \<Longrightarrow> readyz_loop (pre @ cs) g = readyz_loop cs g"
  by (induction pre) auto

subsection \<open>Properties\<close>

text \<open>
  Stopping is complete: \<^verbatim>\<open>StopAll\<close> leaves no registered service running, however many of the stops
  report errors, and returns the first error met in reverse registration order.
\<close>

lemma StopAll_complete:
  "(\<forall>i < n. \<not> background_up (snd (StopAll (members listen shutdown n) w) i)) \<and>
   fst (StopAll (members listen shutdown n) w) =
     (case stop_errors (rev (lc_services (members listen shutdown n))) w of [] \<Rightarrow> None | e # _ \<Rightarrow> Some e)"
  using StopAll_members [of _ n listen shutdown w]
    stop_loop_error [of n "map (member listen shutdown) [0..<n]" None w]
  by (auto simp: StopAll_def)

text \<open>
  C36.  A ticker's report is about its last run: with a positive interval, however the runs of the
  background loop ended, by returning, by an error or by a panic, the loop goes on, and the service is healthy exactly when the
  last run returned without an error; otherwise \<^verbatim>\<open>LastError\<close> is that run's error, or the recovered
  panic.
\<close>

theorem ticker_reports_last_run:
  assumes "0 < ts_interval ts"
  shows "\<exists>ts'. Ticker_loop first es ts = Some ts' \<and> (Healthy ts' \<longleftrightarrow> LastError ts' = None) \<and>
    LastError ts' = (case snd (last_run first es) of
      Work_returns err \<Rightarrow> err | Work_panics v \<Rightarrow> Some (ErrorString (''panic: '' @ v)))"
proof -
  obtain ts0 where "ticker_select es (runOnce (fst first) (snd first) ts) =
      runOnce (fst (last_run first es)) (snd (last_run first es)) ts0"
    using ticker_select_last by blast
  with assms show ?thesis
    by (simp add: Ticker_loop_def Healthy_def LastError_def runOnce_healthy)
      (simp add: runOnce_def split: work_result.split)
qed

theorem ticker_reports_last_run_witness:
  "\<exists>ts'. Ticker_loop (1, Work_panics ''boom'') [Some (6, Work_returns None), None] (NewTickerService ''t'' 5) = Some ts' \<and>
     Healthy ts'"
  using ticker_reports_last_run [of "NewTickerService ''t'' 5" "(1, Work_panics ''boom'')" "[Some (6, Work_returns None), None]"]
  by (auto simp: NewTickerService_def)

text \<open>
  Readiness is the conjunction of the checks: \<^verbatim>\<open>/readyz\<close> answers 200 exactly when every
  registered check passes, and otherwise 503 with the text of the first failing check in the order of
  registration; \<^verbatim>\<open>/healthz\<close> does not depend on the checks.
\<close>

lemma readyz_all_checks:
  "(fst (readyz h g) = 200 \<longleftrightarrow> (\<forall>c \<in> set (hc_checks h). c g = None)) \<and>
   (\<forall>pre c e post. hc_checks h = pre @ c # post \<longrightarrow> (\<forall>x \<in> set pre. x g = None) \<longrightarrow> c g = Some e \<longrightarrow>
      readyz h g = (503, Error e))"
proof (intro conjI allI impI)
  show "fst (readyz h g) = 200 \<longleftrightarrow> (\<forall>c \<in> set (hc_checks h). c g = None)"
    by (simp add: readyz_def readyz_loop_ok)
next
  fix pre c e post
  assume "hc_checks h = pre @ c # post" "\<forall>x \<in> set pre. x g = None" "c g = Some e"
  then show "readyz h g = (503, Error e)"
    by (simp add: readyz_def readyz_loop_skip)
qed

end
