(* ===== verification/Host.thy ===== *)
theory Host
  imports Forge_Errors
begin

text \<open>
  Host creation, \<^verbatim>\<open>src/host/host.go\<close> and \<^verbatim>\<open>src/host/limits.go\<close>: from a configuration to the list of
  libp2p options, the resource and connection managers with their numbers, and the relay service.
  libp2p is the environment \<open>host_env\<close>: what its constructors answer.  An option is a constructor of
  \<open>libp2p_option\<close> that carries the values the code computed for it.
\<close>

subsection \<open>Configuration\<close>

record RelayLimits =
  rl_MaxReservations :: int
  rl_MaxCircuits :: int
  rl_BufferSize :: int
  rl_MaxReservationsPerPeer :: int
  rl_MaxReservationsPerIP :: int
  rl_MaxReservationsPerASN :: int
  rl_ReservationTTL :: duration
  rl_ConnectionDuration :: duration
  rl_ConnectionData :: int

record 'gt HostConfig =
  h_Port :: int
  h_ListenAddresses :: "string list"
  h_ExternalAddresses :: "string list"
  h_BootstrapPeers :: "string list"
  h_YamuxKeepAlive :: duration
  h_YamuxWriteTimeout :: duration
  h_YamuxMaxIncomingStreams :: "32 word"
  h_MaxConnections :: int
  h_MaxConnectionsPerIP :: int
  h_ConnManagerGracePeriod :: duration
  h_ConnectionGater :: "'gt option"
  h_EnableRelay :: bool
  h_EnableRelayService :: bool
  h_EnableAutoRelay :: bool
  h_EnableHolePunching :: bool
  h_EnableAutoNAT :: bool
  h_RelayLimits :: RelayLimits

definition zero_RelayLimits :: RelayLimits where
  "zero_RelayLimits =
     \<lparr>rl_MaxReservations = 0, rl_MaxCircuits = 0, rl_BufferSize = 0, rl_MaxReservationsPerPeer = 0,
      rl_MaxReservationsPerIP = 0, rl_MaxReservationsPerASN = 0, rl_ReservationTTL = 0,
      rl_ConnectionDuration = 0, rl_ConnectionData = 0\<rparr>"

definition Host_DefaultConfig :: "'gt HostConfig" where
  "Host_DefaultConfig =
     \<lparr>h_Port = 0, h_ListenAddresses = [], h_ExternalAddresses = [], h_BootstrapPeers = [],
      h_YamuxKeepAlive = 60 * Second, h_YamuxWriteTimeout = 30 * Second, h_YamuxMaxIncomingStreams = 0,
      h_MaxConnections = 0, h_MaxConnectionsPerIP = 0, h_ConnManagerGracePeriod = 0, h_ConnectionGater = None,
      h_EnableRelay = True, h_EnableRelayService = False, h_EnableAutoRelay = False,
      h_EnableHolePunching = False, h_EnableAutoNAT = True, h_RelayLimits = zero_RelayLimits\<rparr>"

subsection \<open>Limits\<close>

definition DefaultYamuxMaxIncomingStreams :: "32 word" where [forge_defs]: "DefaultYamuxMaxIncomingStreams = 512"
definition streamsPerConn :: int where [forge_defs]: "streamsPerConn = 8"
definition DefaultConnManagerGracePeriod :: duration where [forge_defs]: "DefaultConnManagerGracePeriod = 30 * Second"

text \<open>A Go product of two \<^verbatim>\<open>int\<close>s wraps; a quotient truncates.\<close>

definition saturatingMul :: "int \<Rightarrow> int \<Rightarrow> int" where
  "saturatingMul a b = (if a > MaxInt sdiv b then MaxInt else wrap64 (a * b))"

record ResourceLimits =
  lim_Conns :: int
  lim_ConnsInbound :: int
  lim_ConnsOutbound :: int
  lim_Streams :: int
  lim_StreamsInbound :: int
  lim_StreamsOutbound :: int
  lim_FD :: int

text \<open>The limits of one scope from a number of connections.\<close>

definition scope_limits :: "int \<Rightarrow> ResourceLimits" where
  "scope_limits conns =
     \<lparr>lim_Conns = conns, lim_ConnsInbound = conns, lim_ConnsOutbound = conns,
      lim_Streams = wrap64 (wrap64 (conns * streamsPerConn) * 2),
      lim_StreamsInbound = wrap64 (conns * streamsPerConn),
      lim_StreamsOutbound = wrap64 (conns * streamsPerConn),
      lim_FD = conns\<rparr>"

text \<open>
  The caps per source address: prefix length and number of connections, for IPv4 and for IPv6.  The
  second option of \<^verbatim>\<open>perAddressOptions\<close>, an empty rate limiter, carries no number.
\<close>

record per_address =
  pa_ipv4 :: "(int \<times> int) list"
  pa_ipv6 :: "(int \<times> int) list"

definition perAddressOptions :: "int \<Rightarrow> per_address" where
  "perAddressOptions perIP =
     (let capacity = (if perIP > 0 then perIP else MaxInt)
      in \<lparr>pa_ipv4 = [(32, capacity)], pa_ipv6 = [(56, capacity), (48, saturatingMul capacity 8)]\<rparr>)"

text \<open>
  What the resource manager is built from: system and transient limits laid over the scaled defaults
  (\<^const>\<open>None\<close>: only the defaults), and the caps per address.
\<close>

record resource_spec =
  spec_limits :: "(ResourceLimits \<times> ResourceLimits) option"
  spec_perAddress :: per_address

definition resource_manager_spec :: "'gt HostConfig \<Rightarrow> resource_spec" where
  "resource_manager_spec cfg =
     \<lparr>spec_limits =
        (let maxConns = h_MaxConnections cfg
         in if maxConns > 0 then
              let transientConns = max (maxConns sdiv 4) 64
              in Some (scope_limits maxConns, scope_limits transientConns)
            else None),
      spec_perAddress = perAddressOptions (h_MaxConnectionsPerIP cfg)\<rparr>"

record Resources =
  rc_MaxReservations :: int
  rc_MaxCircuits :: int
  rc_BufferSize :: int
  rc_MaxReservationsPerPeer :: int
  rc_MaxReservationsPerIP :: int
  rc_MaxReservationsPerASN :: int
  rc_ReservationTTL :: duration
  rc_Limit_Duration :: duration
  rc_Limit_Data :: int

record yamux_Config =
  KeepAliveInterval :: duration
  ConnectionWriteTimeout :: duration
  MaxIncomingStreams :: "32 word"

datatype ('k, 'gt, 'tr, 'ma, 'ai) libp2p_option =
    Opt_Identity 'k
  | Opt_Security_noise
  | Opt_Muxer_yamux yamux_Config
  | Opt_ResourceManager resource_spec
  | Opt_ConnectionManager int int duration
  | Opt_ConnectionGater 'gt
  | Opt_NoTransports
  | Opt_Transport 'tr
  | Opt_ListenAddrStrings "string list"
  | Opt_AddrsFactory "'ma list"
  | Opt_EnableAutoNATv2
  | Opt_EnableRelay
  | Opt_ForceReachabilityPublic
  | Opt_EnableHolePunching
  | Opt_EnableAutoRelayWithStaticRelays "'ai list"
  | Opt_DisableRelay

text \<open>
  What libp2p answers, and what this code holds: a host from the call that made it to its \<^verbatim>\<open>Close\<close>, a
  resource manager until it is closed or handed to \<^verbatim>\<open>libp2p.New\<close>.
\<close>

record ('k, 'gt, 'tr, 'ma, 'ai) host_env =
  NewMultiaddr :: "string \<Rightarrow> go_error + 'ma"
  AddrInfoFromP2pAddr :: "'ma \<Rightarrow> go_error + 'ai"
  yamux_Default :: yamux_Config
  relay_DefaultResources :: Resources
  NewResourceManager :: "resource_spec \<Rightarrow> go_error option"
  NewConnManager :: "int \<Rightarrow> int \<Rightarrow> duration \<Rightarrow> go_error option"
  libp2p_New :: "('k, 'gt, 'tr, 'ma, 'ai) libp2p_option list \<Rightarrow> go_error option"
  relay_New :: "Resources \<Rightarrow> go_error option"

record host_handles =
  open_mgr :: bool
  open_host :: bool

definition newResourceManager ::
  "('k, 'gt, 'tr, 'ma, 'ai) host_env \<Rightarrow> 'gt HostConfig \<Rightarrow> host_handles \<Rightarrow> (go_error + resource_spec) \<times> host_handles" where
  "newResourceManager env cfg hs =
     (let spec = resource_manager_spec cfg
      in case NewResourceManager env spec of
           Some e \<Rightarrow> (Inl (WrapError ''create resource manager'' e), hs)
         | None \<Rightarrow> (Inr spec, hs\<lparr>open_mgr := True\<rparr>))"

text \<open>The connection manager's low and high water marks.\<close>

definition watermarks :: "int \<Rightarrow> int \<times> int" where
  "watermarks maxConns =
     (let high = maxConns - maxConns sdiv 10;
          low = maxConns - maxConns sdiv 5;
          high = (if high \<le> 0 then maxConns else high);
          low = (if low \<le> 0 then high else low)
      in (low, high))"

definition connectionLimitOptions ::
  "('k, 'gt, 'tr, 'ma, 'ai) host_env \<Rightarrow> 'gt HostConfig \<Rightarrow> host_handles \<Rightarrow>
   (go_error + ('k, 'gt, 'tr, 'ma, 'ai) libp2p_option list) \<times> host_handles" where
  "connectionLimitOptions env cfg hs =
     (case newResourceManager env cfg hs of
        (Inl e, hs) \<Rightarrow> (Inl e, hs)
      | (Inr mgr, hs) \<Rightarrow>
          let opts = [Opt_ResourceManager mgr]; maxConns = h_MaxConnections cfg in
          if maxConns \<le> 0 then (Inr opts, hs)
          else
            let (low, high) = watermarks maxConns;
                grace = (if h_ConnManagerGracePeriod cfg \<le> 0 then DefaultConnManagerGracePeriod
                         else h_ConnManagerGracePeriod cfg)
            in case NewConnManager env low high grace of
                 Some e \<Rightarrow> (Inl (WrapError ''create connection manager'' e), hs\<lparr>open_mgr := False\<rparr>)
               | None \<Rightarrow> (Inr (opts @ [Opt_ConnectionManager low high grace]), hs))"

subsection \<open>Create\<close>

definition override :: "int \<Rightarrow> int \<Rightarrow> int" where
  "override v old = (if v > 0 then v else old)"

definition applyRelayLimits :: "RelayLimits \<Rightarrow> Resources \<Rightarrow> Resources" where
  "applyRelayLimits rl rc =
     \<lparr>rc_MaxReservations = override (rl_MaxReservations rl) (rc_MaxReservations rc),
      rc_MaxCircuits = override (rl_MaxCircuits rl) (rc_MaxCircuits rc),
      rc_BufferSize = override (rl_BufferSize rl) (rc_BufferSize rc),
      rc_MaxReservationsPerPeer = override (rl_MaxReservationsPerPeer rl) (rc_MaxReservationsPerPeer rc),
      rc_MaxReservationsPerIP = override (rl_MaxReservationsPerIP rl) (rc_MaxReservationsPerIP rc),
      rc_MaxReservationsPerASN = override (rl_MaxReservationsPerASN rl) (rc_MaxReservationsPerASN rc),
      rc_ReservationTTL = override (rl_ReservationTTL rl) (rc_ReservationTTL rc),
      rc_Limit_Duration = override (rl_ConnectionDuration rl) (rc_Limit_Duration rc),
      rc_Limit_Data = override (rl_ConnectionData rl) (rc_Limit_Data rc)\<rparr>"

fun parseBootstrapPeers :: "('k, 'gt, 'tr, 'ma, 'ai) host_env \<Rightarrow> string list \<Rightarrow> 'ai list" where
  "parseBootstrapPeers env [] = []"
| "parseBootstrapPeers env (addr # addrs) =
     (case NewMultiaddr env addr of
        Inl e \<Rightarrow> parseBootstrapPeers env addrs
      | Inr ma \<Rightarrow>
          (case AddrInfoFromP2pAddr env ma of
             Inl e \<Rightarrow> parseBootstrapPeers env addrs
           | Inr ai \<Rightarrow> ai # parseBootstrapPeers env addrs))"

fun external_addresses :: "('k, 'gt, 'tr, 'ma, 'ai) host_env \<Rightarrow> string list \<Rightarrow> 'ma list" where
  "external_addresses env [] = []"
| "external_addresses env (addr # addrs) =
     (case NewMultiaddr env addr of
        Inl e \<Rightarrow> external_addresses env addrs
      | Inr ma \<Rightarrow> ma # external_addresses env addrs)"

definition listen_addresses :: "'gt HostConfig \<Rightarrow> string list" where
  "listen_addresses cfg =
     (if h_ListenAddresses cfg = [] \<and> h_Port cfg > 0
      then [''/ip4/0.0.0.0/udp/'' @ dec_int (h_Port cfg) @ ''/udx''] else h_ListenAddresses cfg)"

definition yamux_config :: "('k, 'gt, 'tr, 'ma, 'ai) host_env \<Rightarrow> 'gt HostConfig \<Rightarrow> yamux_Config" where
  "yamux_config env cfg =
     (let y = yamux_Default env;
          y = (if h_YamuxKeepAlive cfg > 0 then y\<lparr>KeepAliveInterval := h_YamuxKeepAlive cfg\<rparr> else y);
          y = (if h_YamuxWriteTimeout cfg > 0 then y\<lparr>ConnectionWriteTimeout := h_YamuxWriteTimeout cfg\<rparr> else y);
          y = y\<lparr>MaxIncomingStreams := h_YamuxMaxIncomingStreams cfg\<rparr>
      in if MaxIncomingStreams y = 0 then y\<lparr>MaxIncomingStreams := DefaultYamuxMaxIncomingStreams\<rparr> else y)"

definition relay_options ::
  "('k, 'gt, 'tr, 'ma, 'ai) host_env \<Rightarrow> 'gt HostConfig \<Rightarrow> ('k, 'gt, 'tr, 'ma, 'ai) libp2p_option list" where
  "relay_options env cfg =
     (if h_EnableRelay cfg then
        [Opt_EnableRelay] @
        (if h_EnableRelayService cfg then [Opt_ForceReachabilityPublic] else []) @
        (if h_EnableHolePunching cfg then [Opt_EnableHolePunching] else []) @
        (if h_EnableAutoRelay cfg \<and> h_BootstrapPeers cfg \<noteq> [] then
           (let relayPeers = parseBootstrapPeers env (h_BootstrapPeers cfg)
            in if relayPeers \<noteq> [] then [Opt_EnableAutoRelayWithStaticRelays relayPeers] else [])
         else [])
      else [Opt_DisableRelay])"

definition relay_resources :: "('k, 'gt, 'tr, 'ma, 'ai) host_env \<Rightarrow> 'gt HostConfig \<Rightarrow> Resources option" where
  "relay_resources env cfg =
     (if h_EnableRelay cfg \<and> h_EnableRelayService cfg
      then Some (applyRelayLimits (h_RelayLimits cfg) (relay_DefaultResources env)) else None)"

definition host_options ::
  "('k, 'gt, 'tr, 'ma, 'ai) host_env \<Rightarrow> 'gt HostConfig \<Rightarrow> 'k \<Rightarrow> 'tr list \<Rightarrow>
   ('k, 'gt, 'tr, 'ma, 'ai) libp2p_option list \<Rightarrow> ('k, 'gt, 'tr, 'ma, 'ai) libp2p_option list" where
  "host_options env cfg priv transports limitOpts =
     [Opt_Identity priv, Opt_Security_noise, Opt_Muxer_yamux (yamux_config env cfg)] @
     limitOpts @
     (case h_ConnectionGater cfg of Some gt \<Rightarrow> [Opt_ConnectionGater gt] | None \<Rightarrow> []) @
     (if transports \<noteq> [] then Opt_NoTransports # map Opt_Transport transports else []) @
     (if listen_addresses cfg \<noteq> [] then [Opt_ListenAddrStrings (listen_addresses cfg)] else []) @
     (if h_ExternalAddresses cfg \<noteq> [] then
        (let extMAs = external_addresses env (h_ExternalAddresses cfg)
         in if extMAs \<noteq> [] then [Opt_AddrsFactory extMAs] else [])
      else []) @
     (if h_EnableAutoNAT cfg then [Opt_EnableAutoNATv2] else []) @
     relay_options env cfg"

text \<open>\<^verbatim>\<open>libp2p.New\<close> gets the resource manager with the options; \<^verbatim>\<open>Create\<close> does not touch it afterwards.\<close>

definition Create ::
  "('k, 'gt, 'tr, 'ma, 'ai) host_env \<Rightarrow> 'gt HostConfig \<Rightarrow> 'k \<Rightarrow> 'tr list \<Rightarrow> host_handles \<Rightarrow> go_error option \<times> host_handles" where
  "Create env cfg priv transports hs =
     (case connectionLimitOptions env cfg hs of
        (Inl e, hs) \<Rightarrow> (Some e, hs)
      | (Inr limitOpts, hs) \<Rightarrow>
          (case libp2p_New env (host_options env cfg priv transports limitOpts) of
             Some e \<Rightarrow> (Some (WrapError ''create host'' e), hs\<lparr>open_mgr := False\<rparr>)
           | None \<Rightarrow>
               let hs = hs\<lparr>open_mgr := False, open_host := True\<rparr> in
               (case relay_resources env cfg of
                  Some rc \<Rightarrow>
                    (case relay_New env rc of
                       Some e \<Rightarrow> (Some (WrapError ''create relay service'' e), hs\<lparr>open_host := False\<rparr>)
                     | None \<Rightarrow> (None, hs))
                | None \<Rightarrow> (None, hs))))"

subsection \<open>Facts\<close>

lemma sdiv_pos: "0 \<le> (a :: int) \<Longrightarrow> 0 < b \<Longrightarrow> a sdiv b = a div b"
  by (simp add: signed_divide_int_def sgn_if)

lemma watermarks_eq: "0 < m \<Longrightarrow> watermarks m = (m - m div 5, m - m div 10)"
proof -
  assume m: "0 < m"
  then have "0 < m - m div 10" "0 < m - m div 5" by linarith+
  with m show ?thesis by (simp add: watermarks_def sdiv_pos Let_def)
qed

lemma saturatingMul_eight:
  assumes "0 < a" "in_int64 a"
  shows "saturatingMul a 8 = min (8 * a) MaxInt"
  using assms by (auto simp: saturatingMul_def go_defs sdiv_pos)

lemma scope_limits_streams:
  assumes "0 < m" "16 * m \<le> MaxInt"
  shows "lim_StreamsInbound (scope_limits m) = 8 * m" "lim_StreamsOutbound (scope_limits m) = 8 * m"
    "lim_Streams (scope_limits m) = 16 * m"
proof -
  have "in_int64 (m * 8)" "in_int64 (m * 8 * 2)" using assms by (simp_all add: go_defs)
  then show "lim_StreamsInbound (scope_limits m) = 8 * m" "lim_StreamsOutbound (scope_limits m) = 8 * m"
    "lim_Streams (scope_limits m) = 16 * m"
    by (simp_all add: scope_limits_def streamsPerConn_def)
qed

lemma perAddressOptions_caps:
  assumes "in_int64 perIP"
  shows "perAddressOptions perIP =
    \<lparr>pa_ipv4 = [(32, if 0 < perIP then perIP else MaxInt)],
     pa_ipv6 = [(56, if 0 < perIP then perIP else MaxInt), (48, if 0 < perIP then min (8 * perIP) MaxInt else MaxInt)]\<rparr>"
proof -
  have "saturatingMul MaxInt 8 = MaxInt" using saturatingMul_eight [of MaxInt] by (simp add: go_defs)
  then show ?thesis using saturatingMul_eight [OF _ assms] by (simp add: perAddressOptions_def Let_def)
qed

text \<open>\<^verbatim>\<open>Create\<close> leaves a host behind exactly when it succeeds, and never a resource manager of its own.\<close>

lemma Create_handles:
  assumes "Create env cfg priv transports hs = (r, hs')" "\<not> open_host hs" "\<not> open_mgr hs"
  shows "\<not> open_mgr hs' \<and> (open_host hs' \<longleftrightarrow> r = None)"
  using assms
  by (auto simp: Create_def connectionLimitOptions_def newResourceManager_def Let_def
      split: sum.splits option.splits prod.splits if_splits)

lemma parseBootstrapPeers_filter:
  "parseBootstrapPeers env addrs =
     [ai. addr \<leftarrow> addrs, Inr ma \<leftarrow> [NewMultiaddr env addr], Inr ai \<leftarrow> [AddrInfoFromP2pAddr env ma]]"
  by (induction addrs) (auto split: sum.split)

subsection \<open>Properties\<close>

text \<open>
  C38.  The connection limits are what the configuration asks for.  For every positive
  \<^verbatim>\<open>max_connections\<close> such that 16 times it fits an \<^verbatim>\<open>int\<close>, the connection manager's marks satisfy 0 < low \<open>\<le>\<close> high \<open>\<le>\<close> max with the high mark
  at 90% (rounded up), so trimming starts before the hard cap from ten connections on; the resource
  manager allows exactly max connections each way, eight
  streams per connection each way and sixteen in all, with no wrap-around; the transient scope has a
  quarter of that and at least 64.  The caps per address are the configured number, eight times it
  per /48 without overflow, and no cap at all when the number is not positive.
\<close>

theorem connection_limits_sound:
  assumes "0 < h_MaxConnections cfg" "16 * h_MaxConnections cfg \<le> MaxInt" "in_int64 (h_MaxConnectionsPerIP cfg)"
  defines "m \<equiv> h_MaxConnections cfg" and "q \<equiv> max (h_MaxConnections cfg div 4) 64" and "ip \<equiv> h_MaxConnectionsPerIP cfg"
  shows "(let (low, high) = watermarks m in 0 < low \<and> low \<le> high \<and> high \<le> m \<and>
      9 * m \<le> 10 * high \<and> 10 * high < 9 * m + 10 \<and> (10 \<le> m \<longrightarrow> low < high \<and> high < m)) \<and>
    resource_manager_spec cfg =
      \<lparr>spec_limits = Some
         (\<lparr>lim_Conns = m, lim_ConnsInbound = m, lim_ConnsOutbound = m, lim_Streams = 16 * m,
           lim_StreamsInbound = 8 * m, lim_StreamsOutbound = 8 * m, lim_FD = m\<rparr>,
          \<lparr>lim_Conns = q, lim_ConnsInbound = q, lim_ConnsOutbound = q, lim_Streams = 16 * q,
           lim_StreamsInbound = 8 * q, lim_StreamsOutbound = 8 * q, lim_FD = q\<rparr>),
       spec_perAddress =
         \<lparr>pa_ipv4 = [(32, if 0 < ip then ip else MaxInt)],
          pa_ipv6 = [(56, if 0 < ip then ip else MaxInt), (48, if 0 < ip then min (8 * ip) MaxInt else MaxInt)]\<rparr>\<rparr>"
proof (intro conjI)
  have m: "0 < m" using assms(1) by (simp add: m_def)
  show "let (low, high) = watermarks m in 0 < low \<and> low \<le> high \<and> high \<le> m \<and>
      9 * m \<le> 10 * high \<and> 10 * high < 9 * m + 10 \<and> (10 \<le> m \<longrightarrow> low < high \<and> high < m)"
    unfolding watermarks_eq [OF m] Let_def prod.case by (intro conjI impI) (use m in presburger)+
  have "16 * q \<le> MaxInt" "0 < q" using assms(1,2) by (auto simp: q_def go_defs)
  then have streams: "scope_limits q =
      \<lparr>lim_Conns = q, lim_ConnsInbound = q, lim_ConnsOutbound = q, lim_Streams = 16 * q,
       lim_StreamsInbound = 8 * q, lim_StreamsOutbound = 8 * q, lim_FD = q\<rparr>"
    using scope_limits_streams [of q] by (simp add: scope_limits_def)
  moreover have "scope_limits m =
      \<lparr>lim_Conns = m, lim_ConnsInbound = m, lim_ConnsOutbound = m, lim_Streams = 16 * m,
       lim_StreamsInbound = 8 * m, lim_StreamsOutbound = 8 * m, lim_FD = m\<rparr>"
    using scope_limits_streams [of m] assms(1,2) by (simp add: scope_limits_def m_def)
  moreover have "max (m sdiv 4) 64 = q" using m by (simp add: q_def m_def sdiv_pos)
  ultimately show "resource_manager_spec cfg =
      \<lparr>spec_limits = Some
         (\<lparr>lim_Conns = m, lim_ConnsInbound = m, lim_ConnsOutbound = m, lim_Streams = 16 * m,
           lim_StreamsInbound = 8 * m, lim_StreamsOutbound = 8 * m, lim_FD = m\<rparr>,
          \<lparr>lim_Conns = q, lim_ConnsInbound = q, lim_ConnsOutbound = q, lim_Streams = 16 * q,
           lim_StreamsInbound = 8 * q, lim_StreamsOutbound = 8 * q, lim_FD = q\<rparr>),
       spec_perAddress =
         \<lparr>pa_ipv4 = [(32, if 0 < ip then ip else MaxInt)],
          pa_ipv6 = [(56, if 0 < ip then ip else MaxInt), (48, if 0 < ip then min (8 * ip) MaxInt else MaxInt)]\<rparr>\<rparr>"
    using m perAddressOptions_caps [OF assms(3)] unfolding resource_manager_spec_def Let_def m_def [symmetric] ip_def by simp
qed

theorem connection_limits_sound_witness:
  "(let (low, high) = watermarks 105 in 0 < low \<and> low < high \<and> high < 105) \<and>
   lim_Streams (snd (the (spec_limits (resource_manager_spec (Host_DefaultConfig\<lparr>h_MaxConnections := 105\<rparr> :: unit HostConfig))))) = 1024"
  using connection_limits_sound [of "Host_DefaultConfig\<lparr>h_MaxConnections := 105\<rparr> :: unit HostConfig"]
  by (auto simp: Host_DefaultConfig_def go_defs)

end
