(* ===== verification/Identity.thy ===== *)
theory Identity
  imports Forge_Errors
begin

text \<open>
  The node's identity, \<^verbatim>\<open>src/host/identity.go\<close>: a private key in a file.  Files are byte lists under
  path names, strings are lists of bytes where their encoding matters.  The operating system and the
  libp2p crypto package are the fields of \<open>identity_env\<close>; what a theorem relies on of them is a
  hypothesis.  The parts of \<^verbatim>\<open>path/filepath\<close>, \<^verbatim>\<open>strings\<close>, \<^verbatim>\<open>encoding/hex\<close> and \<^verbatim>\<open>encoding/base64\<close> the file
  uses are written out.
\<close>

subsection \<open>Paths\<close>

fun split_path :: "string \<Rightarrow> string list" where
  "split_path [] = [[]]"
| "split_path (c # cs) =
     (if c = CHR ''/'' then [] # split_path cs
      else case split_path cs of [] \<Rightarrow> [[c]] | x # xs \<Rightarrow> (c # x) # xs)"

fun join_path :: "string list \<Rightarrow> string" where
  "join_path [] = []"
| "join_path [x] = x"
| "join_path (x # y # xs) = x @ CHR ''/'' # join_path (y # xs)"

text \<open>\<^verbatim>\<open>filepath.Clean\<close>: the components, with the last one first in \<open>out\<close>.\<close>

fun clean_loop :: "bool \<Rightarrow> string list \<Rightarrow> string list \<Rightarrow> string list" where
  "clean_loop rooted [] out = rev out"
| "clean_loop rooted (x # xs) out =
     (if x = [] \<or> x = ''.'' then clean_loop rooted xs out
      else if x = ''..'' then
        (case out of
           y # ys \<Rightarrow> if y \<noteq> ''..'' then clean_loop rooted xs ys else clean_loop rooted xs (x # out)
         | [] \<Rightarrow> if rooted then clean_loop rooted xs out else clean_loop rooted xs [x])
      else clean_loop rooted xs (x # out))"

definition path_Clean :: "string \<Rightarrow> string" where
  "path_Clean p =
     (let rooted = (p \<noteq> [] \<and> hd p = CHR ''/'');
          body = join_path (clean_loop rooted (split_path p) [])
      in if rooted then CHR ''/'' # body else if body = [] then ''.'' else body)"

text \<open>\<^verbatim>\<open>filepath.Join\<close> of two elements ignores empty ones.\<close>

definition path_Join :: "string \<Rightarrow> string \<Rightarrow> string" where
  "path_Join a b =
     (if a = [] \<and> b = [] then []
      else if a = [] then path_Clean b
      else if b = [] then path_Clean a
      else path_Clean (a @ CHR ''/'' # b))"

text \<open>\<^verbatim>\<open>filepath.Dir\<close>: all but the last element, cleaned.\<close>

definition path_Dir :: "string \<Rightarrow> string" where
  "path_Dir p = path_Clean (rev (dropWhile (\<lambda>c. c \<noteq> CHR ''/'') (rev p)))"

subsection \<open>Encodings\<close>

text \<open>The UTF-8 encodings of the runes \<^verbatim>\<open>unicode.IsSpace\<close> accepts.\<close>

definition space_runes :: "byte list list" where
  "space_runes =
     [[9], [10], [11], [12], [13], [32], [0xC2, 0x85], [0xC2, 0xA0], [0xE1, 0x9A, 0x80],
      [0xE2, 0x80, 0x80], [0xE2, 0x80, 0x81], [0xE2, 0x80, 0x82], [0xE2, 0x80, 0x83], [0xE2, 0x80, 0x84],
      [0xE2, 0x80, 0x85], [0xE2, 0x80, 0x86], [0xE2, 0x80, 0x87], [0xE2, 0x80, 0x88], [0xE2, 0x80, 0x89],
      [0xE2, 0x80, 0x8A], [0xE2, 0x80, 0xA8], [0xE2, 0x80, 0xA9], [0xE2, 0x80, 0xAF], [0xE2, 0x81, 0x9F],
      [0xE3, 0x80, 0x80]]"

definition is_prefix :: "byte list \<Rightarrow> byte list \<Rightarrow> bool" where
  "is_prefix r xs \<longleftrightarrow> take (length r) xs = r"

function trim_left :: "byte list list \<Rightarrow> byte list \<Rightarrow> byte list" where
  "trim_left runes xs =
     (case find (\<lambda>r. r \<noteq> [] \<and> is_prefix r xs) runes of
        None \<Rightarrow> xs
      | Some r \<Rightarrow> trim_left runes (drop (length r) xs))"
  by pat_completeness auto
termination
proof (relation "measure (\<lambda>(runes, xs). length xs)", goal_cases)
  case (2 runes xs r)
  then have "r \<noteq> []" "take (length r) xs = r" by (auto simp: find_Some_iff is_prefix_def)
  then show ?case by (cases xs; cases r) auto
qed simp

declare trim_left.simps [simp del]

definition TrimSpace :: "byte list \<Rightarrow> byte list" where
  "TrimSpace s = rev (trim_left (map rev space_runes) (rev (trim_left space_runes s)))"

definition hex_digit :: "byte \<Rightarrow> byte option" where
  "hex_digit c =
     (if 48 \<le> c \<and> c \<le> 57 then Some (c - 48)
      else if 97 \<le> c \<and> c \<le> 102 then Some (c - 87)
      else if 65 \<le> c \<and> c \<le> 70 then Some (c - 55)
      else None)"

fun hex_Decode :: "byte list \<Rightarrow> go_error + byte list" where
  "hex_Decode [] = Inr []"
| "hex_Decode [c] = Inl (ExternalError (if hex_digit c = None then ''invalid byte'' else ''odd length hex string''))"
| "hex_Decode (a # b # cs) =
     (case (hex_digit a, hex_digit b) of
        (Some x, Some y) \<Rightarrow> (case hex_Decode cs of Inl e \<Rightarrow> Inl e | Inr d \<Rightarrow> Inr ((push_bit 4 x OR y) # d))
      | _ \<Rightarrow> Inl (ExternalError ''invalid byte''))"

definition b64_digit :: "byte \<Rightarrow> byte option" where
  "b64_digit c =
     (if 65 \<le> c \<and> c \<le> 90 then Some (c - 65)
      else if 97 \<le> c \<and> c \<le> 122 then Some (c - 71)
      else if 48 \<le> c \<and> c \<le> 57 then Some (c + 4)
      else if c = 43 then Some 62
      else if c = 47 then Some 63
      else None)"

text \<open>
  \<^verbatim>\<open>base64.StdEncoding.DecodeString\<close>: line breaks are skipped, the text is quanta of four digits, of
  which only the last may be padded.
\<close>

fun b64_quanta :: "byte list \<Rightarrow> go_error + byte list" where
  "b64_quanta [] = Inr []"
| "b64_quanta (a # b # c # d # rest) =
     (case (b64_digit a, b64_digit b) of
        (Some w, Some x) \<Rightarrow>
          (case (b64_digit c, b64_digit d) of
             (Some y, Some z) \<Rightarrow>
               (case b64_quanta rest of
                  Inl e \<Rightarrow> Inl e
                | Inr ds \<Rightarrow> Inr ((push_bit 2 w OR drop_bit 4 x) # (push_bit 4 x OR drop_bit 2 y) # (push_bit 6 y OR z) # ds))
           | (Some y, None) \<Rightarrow>
               if d = 61 \<and> rest = [] then Inr [push_bit 2 w OR drop_bit 4 x, push_bit 4 x OR drop_bit 2 y]
               else Inl (ExternalError ''illegal base64 data'')
           | (None, _) \<Rightarrow>
               if c = 61 \<and> d = 61 \<and> rest = [] then Inr [push_bit 2 w OR drop_bit 4 x]
               else Inl (ExternalError ''illegal base64 data''))
      | _ \<Rightarrow> Inl (ExternalError ''illegal base64 data''))"
| "b64_quanta _ = Inl (ExternalError ''illegal base64 data'')"

definition b64_Decode :: "byte list \<Rightarrow> go_error + byte list" where
  "b64_Decode s = b64_quanta (filter (\<lambda>c. c \<noteq> 10 \<and> c \<noteq> 13) s)"

subsection \<open>Keys and files\<close>

record ('k, 'f) identity_env =
  os_ReadFile :: "string \<Rightarrow> 'f \<Rightarrow> go_error + byte list"
  os_MkdirAll :: "string \<Rightarrow> 'f \<Rightarrow> go_error option \<times> 'f"
  os_WriteFile :: "string \<Rightarrow> byte list \<Rightarrow> 'f \<Rightarrow> go_error option \<times> 'f"
  os_UserHomeDir :: "go_error + string"
  UnmarshalEd25519PrivateKey :: "byte list \<Rightarrow> go_error + 'k"
  GenerateEd25519Key :: "go_error + 'k"
  key_Raw :: "'k \<Rightarrow> go_error + byte list"

text \<open>\<open>IDFromPrivateKey\<close> is \<^verbatim>\<open>peer.IDFromPrivateKey\<close>.\<close>

definition PeerIDFromIdentity :: "('k \<Rightarrow> go_error + peer_id) \<Rightarrow> 'k \<Rightarrow> go_error + peer_id" where
  "PeerIDFromIdentity IDFromPrivateKey priv = IDFromPrivateKey priv"

definition expandPath :: "('k, 'f) identity_env \<Rightarrow> string \<Rightarrow> string" where
  "expandPath env path =
     (if take 2 path = ''~/'' then
        (case os_UserHomeDir env of Inr home \<Rightarrow> path_Join home (drop 2 path) | Inl e \<Rightarrow> path)
      else path)"

definition LoadOrCreateIdentity :: "('k, 'f) identity_env \<Rightarrow> string \<Rightarrow> 'f \<Rightarrow> (go_error + 'k) \<times> 'f" where
  "LoadOrCreateIdentity env path0 f =
     (let path = expandPath env path0 in
      case os_ReadFile env path f of
        Inr data \<Rightarrow>
          (case UnmarshalEd25519PrivateKey env data of
             Inl e \<Rightarrow> (Inl (WrapError ''unmarshal identity'' e), f)
           | Inr priv \<Rightarrow> (Inr priv, f))
      | Inl err \<Rightarrow>
          if err \<noteq> ErrNotExist then (Inl (WrapError ''read identity'' err), f)
          else
            (case GenerateEd25519Key env of
               Inl e \<Rightarrow> (Inl (WrapError ''generate key'' e), f)
             | Inr priv \<Rightarrow>
                 (case os_MkdirAll env (path_Dir path) f of
                    (Some e, f1) \<Rightarrow> (Inl (WrapError ''create identity dir'' e), f1)
                  | (None, f1) \<Rightarrow>
                      (case key_Raw env priv of
                         Inl e \<Rightarrow> (Inl (WrapError ''marshal key'' e), f1)
                       | Inr raw \<Rightarrow>
                           (case os_WriteFile env path raw f1 of
                              (Some e, f2) \<Rightarrow> (Inl (WrapError ''save identity'' e), f2)
                            | (None, f2) \<Rightarrow> (Inr priv, f2))))))"

definition LoadIdentityFromSeed :: "('k, 'f) identity_env \<Rightarrow> byte list \<Rightarrow> go_error + 'k" where
  "LoadIdentityFromSeed env seed =
     (if length seed \<noteq> 32 then Inl (ErrorString (''seed must be 32 bytes, got '' @ dec_nat (length seed)))
      else UnmarshalEd25519PrivateKey env seed)"

text \<open>The two attempts to decode a text file fall through when they fail.\<close>

definition decoded_seed :: "go_error + byte list \<Rightarrow> byte list option" where
  "decoded_seed r = (case r of Inr seed \<Rightarrow> if length seed = 32 then Some seed else None | Inl e \<Rightarrow> None)"

definition seed_text :: "byte list \<Rightarrow> byte list option" where
  "seed_text content =
     (case (if length content = 64 then decoded_seed (hex_Decode content) else None) of
        Some seed \<Rightarrow> Some seed
      | None \<Rightarrow> if length content = 44 then decoded_seed (b64_Decode content) else None)"

definition LoadIdentityFromFile :: "('k, 'f) identity_env \<Rightarrow> string \<Rightarrow> 'f \<Rightarrow> go_error + 'k" where
  "LoadIdentityFromFile env path f =
     (case os_ReadFile env path f of
        Inl e \<Rightarrow> Inl (WrapError ''read identity file'' e)
      | Inr data \<Rightarrow>
          if length data = 32 then UnmarshalEd25519PrivateKey env data
          else
            (case seed_text (TrimSpace data) of
               Some seed \<Rightarrow> UnmarshalEd25519PrivateKey env seed
             | None \<Rightarrow> Inl (ErrorString
                 ''invalid identity format: expected 32 raw bytes, 64 hex chars, or 44 base64 chars'')))"

subsection \<open>Properties\<close>

text \<open>Documented behaviour of the file system and of the crypto package.\<close>

definition reads_back :: "('k, 'f) identity_env \<Rightarrow> bool" where
  "reads_back env \<longleftrightarrow>
     (\<forall>path d f f'. os_WriteFile env path d f = (None, f') \<longrightarrow> os_ReadFile env path f' = Inr d)"

definition keys_roundtrip :: "('k, 'f) identity_env \<Rightarrow> bool" where
  "keys_roundtrip env \<longleftrightarrow> (\<forall>k d. key_Raw env k = Inr d \<longrightarrow> UnmarshalEd25519PrivateKey env d = Inr k)"

text \<open>\<^verbatim>\<open>UnmarshalEd25519PrivateKey\<close> wants the private key, with or without the redundant public key.\<close>

definition wants_64_or_96 :: "('k, 'f) identity_env \<Rightarrow> bool" where
  "wants_64_or_96 env \<longleftrightarrow>
     (\<forall>d k. UnmarshalEd25519PrivateKey env d = Inr k \<longrightarrow> length d = 64 \<or> length d = 96)"

lemma LoadOrCreateIdentity_file:
  assumes "keys_roundtrip env" "reads_back env" "LoadOrCreateIdentity env path f = (Inr k, f')"
  shows "\<exists>d. os_ReadFile env (expandPath env path) f' = Inr d \<and> UnmarshalEd25519PrivateKey env d = Inr k"
  using assms(3) assms(1,2) unfolding LoadOrCreateIdentity_def Let_def keys_roundtrip_def reads_back_def
  by (auto split: sum.splits if_splits prod.splits option.splits)

text \<open>
  C39.  Identities persist.  With a file system that reads back what was written and keys that survive
  their raw form, a server that got its identity from \<^verbatim>\<open>LoadOrCreateIdentity\<close> gets the same identity
  from the next call with that path, which writes nothing.  A file that is there is never overwritten:
  unless the path does not exist, the call leaves the files alone, an unreadable or corrupt identity
  being an error and not a reason to make a new one.
\<close>

theorem identity_persists:
  assumes "keys_roundtrip env" "reads_back env"
  shows "(LoadOrCreateIdentity env path f = (Inr k, f') \<longrightarrow> LoadOrCreateIdentity env path f' = (Inr k, f')) \<and>
    (os_ReadFile env (expandPath env path) f \<noteq> Inl ErrNotExist \<longrightarrow> snd (LoadOrCreateIdentity env path f) = f)"
proof (intro conjI impI)
  assume "LoadOrCreateIdentity env path f = (Inr k, f')"
  then obtain d where "os_ReadFile env (expandPath env path) f' = Inr d" "UnmarshalEd25519PrivateKey env d = Inr k"
    using LoadOrCreateIdentity_file [OF assms] by blast
  then show "LoadOrCreateIdentity env path f' = (Inr k, f')" by (simp add: LoadOrCreateIdentity_def)
next
  assume "os_ReadFile env (expandPath env path) f \<noteq> Inl ErrNotExist"
  then show "snd (LoadOrCreateIdentity env path f) = f"
    by (auto simp: LoadOrCreateIdentity_def Let_def split: sum.splits)
qed

text \<open>Files in memory, keys of 64 bytes that are their own raw form.\<close>

definition memory_env :: "(byte list, string \<rightharpoonup> byte list) identity_env" where
  "memory_env =
     \<lparr>os_ReadFile = (\<lambda>p f. case f p of None \<Rightarrow> Inl ErrNotExist | Some d \<Rightarrow> Inr d),
      os_MkdirAll = (\<lambda>p f. (None, f)),
      os_WriteFile = (\<lambda>p d f. (None, f(p \<mapsto> d))),
      os_UserHomeDir = Inr ''/home/op'',
      UnmarshalEd25519PrivateKey = (\<lambda>d. if length d = 64 then Inr d else Inl (ExternalError ''size'')),
      GenerateEd25519Key = Inr (replicate 64 7),
      key_Raw = (\<lambda>k. if length k = 64 then Inr k else Inl (ExternalError ''size''))\<rparr>"

theorem identity_persists_witness:
  "expandPath memory_env ''~/forge//keys/../id.key'' = ''/home/op/forge/id.key'' \<and>
   LoadOrCreateIdentity memory_env ''~/forge//keys/../id.key'' Map.empty = (Inr (replicate 64 7), [''/home/op/forge/id.key'' \<mapsto> replicate 64 7]) \<and>
   LoadOrCreateIdentity memory_env ''~/forge//keys/../id.key'' [''/home/op/forge/id.key'' \<mapsto> replicate 64 7] =
     (Inr (replicate 64 7), [''/home/op/forge/id.key'' \<mapsto> replicate 64 7])"
proof -
  have path: "expandPath memory_env ''~/forge//keys/../id.key'' = ''/home/op/forge/id.key''"
    by (simp add: expandPath_def memory_env_def path_Join_def path_Clean_def)
  have first: "LoadOrCreateIdentity memory_env ''~/forge//keys/../id.key'' Map.empty =
      (Inr (replicate 64 7), [''/home/op/forge/id.key'' \<mapsto> replicate 64 7])"
    by (simp add: LoadOrCreateIdentity_def path) (simp add: memory_env_def)
  have env: "keys_roundtrip memory_env" "reads_back memory_env"
    by (auto simp: keys_roundtrip_def reads_back_def memory_env_def split: if_splits)
  show ?thesis using path first identity_persists [OF env] by blast
qed

text \<open>
  C40.  Seeds are never accepted.  \<^verbatim>\<open>LoadIdentityFromSeed\<close> takes 32 bytes and \<^verbatim>\<open>LoadIdentityFromFile\<close> takes 32
  raw bytes or the hex or base64 text of 32 bytes, but both hand the 32 bytes to
  \<^verbatim>\<open>UnmarshalEd25519PrivateKey\<close>, which by contract takes only 64 or 96: neither function ever returns a
  key, whatever the seed and whatever the file.
\<close>

theorem seed_identities_always_fail:
  assumes "wants_64_or_96 env"
  shows "LoadIdentityFromSeed env seed \<noteq> Inr k \<and> LoadIdentityFromFile env path f \<noteq> Inr k"
proof -
  have no: "UnmarshalEd25519PrivateKey env d \<noteq> Inr k" if "length d = 32" for d
    using assms that unfolding wants_64_or_96_def by (metis num.distinct numeral_eq_iff semiring_norm(85,87,88,89))
  have "length seed' = 32" if "seed_text c = Some seed'" for c seed'
    using that by (auto simp: seed_text_def decoded_seed_def split: option.splits if_splits sum.splits)
  with no show ?thesis
    by (auto simp: LoadIdentityFromSeed_def LoadIdentityFromFile_def split: sum.splits option.splits)
qed

theorem seed_identities_always_fail_witness:
  "wants_64_or_96 memory_env \<and> (\<forall>k. LoadIdentityFromSeed memory_env (replicate 32 1) \<noteq> Inr k) \<and>
   (\<forall>k. LoadIdentityFromFile memory_env ''id.hex'' [''id.hex'' \<mapsto> replicate 64 48] \<noteq> Inr k)"
proof -
  have env: "wants_64_or_96 memory_env" by (simp add: wants_64_or_96_def memory_env_def)
  show ?thesis
    using env seed_identities_always_fail [OF env, THEN conjunct1] seed_identities_always_fail [OF env, THEN conjunct2]
    by (intro conjI allI)
qed

end
