(* ===== verification/Node.thy ===== *)
theory Node
  imports Forge_Errors
begin

text \<open>
  The P2P node, \<^verbatim>\<open>src/node/node.go\<close> and \<^verbatim>\<open>src/node/filter.go\<close>.  The topic operations are called from
  many goroutines at once, so each is a sequence of atomic steps on the shared node: a load, store or
  delete of one of the \<^verbatim>\<open>sync.Map\<close>s, a lock or unlock of a per-topic mutex, one call into the pubsub
  library.  The library (go-libp2p-pubsub) is the argument \<open>api\<close> on a state of its own; what a theorem
  uses of its documented behaviour is a hypothesis.
\<close>

subsection \<open>The node\<close>

text \<open>
  The methods of \<^verbatim>\<open>pubsub.PubSub\<close>, \<^verbatim>\<open>pubsub.Topic\<close> (\<open>'t\<close>) and \<^verbatim>\<open>pubsub.Subscription\<close> (\<open>'b\<close>), and what
  the cancellation of the context given to \<^verbatim>\<open>NewGossipSub\<close> does to the library.
\<close>

record ('t, 'b, 'p) pubsub_api =
  ps_Join :: "string \<Rightarrow> 'p \<Rightarrow> (go_error + 't) \<times> 'p"
  ps_Subscribe :: "'t \<Rightarrow> 'p \<Rightarrow> (go_error + 'b) \<times> 'p"
  ps_Cancel :: "'b \<Rightarrow> 'p \<Rightarrow> 'p"
  ps_Close :: "'t \<Rightarrow> 'p \<Rightarrow> go_error option \<times> 'p"
  ps_Publish :: "'t \<Rightarrow> byte list \<Rightarrow> 'p \<Rightarrow> go_error option \<times> 'p"
  ps_ContextDone :: "'p \<Rightarrow> 'p"

text \<open>
  \<open>n_pubsub\<close> says whether \<^verbatim>\<open>n.pubsub\<close> is set.  A stored mutex carries the goroutine that holds it.
\<close>

record ('t, 'b, 'p) Node =
  n_pubsub :: bool
  n_topics :: "string \<rightharpoonup> 't"
  n_subs :: "string \<rightharpoonup> 'b"
  n_joinLocks :: "string \<rightharpoonup> nat option"
  n_lib :: 'p

definition LoadOrStore_lock :: "string \<Rightarrow> ('t, 'b, 'p) Node \<Rightarrow> ('t, 'b, 'p) Node" where
  "LoadOrStore_lock name n =
     (case n_joinLocks n name of Some _ \<Rightarrow> n | None \<Rightarrow> n\<lparr>n_joinLocks := (n_joinLocks n)(name \<mapsto> None)\<rparr>)"

definition Unlock_node :: "string \<Rightarrow> ('t, 'b, 'p) Node \<Rightarrow> ('t, 'b, 'p) Node" where
  "Unlock_node name n = n\<lparr>n_joinLocks := (n_joinLocks n)(name \<mapsto> None)\<rparr>"

text \<open>A running call and how far it is.\<close>

datatype node_call = CallJoin string | CallLeave string | CallPublish string "byte list"

datatype ('t, 'b) stage =
    AtStart
  | AtGetLock
  | AtAcquire
  | AtCheck
  | AtJoin
  | AtSubscribe 't
  | AtStoreTopic 't 'b
  | AtStoreSub 'b
  | AtDeleteSub
  | AtCancelSub 'b
  | AtDeleteTopic
  | AtCloseTopic 't
  | AtUnlock "go_error option"
  | AtPublish 't
  | AtDone "go_error option"

text \<open>\<^verbatim>\<open>lock.Lock()\<close>: the goroutine \<open>g\<close> waits (\<^const>\<open>None\<close>) while another holds the mutex.\<close>

definition acquire ::
  "nat \<Rightarrow> string \<Rightarrow> ('t, 'b) stage \<Rightarrow> ('t, 'b, 'p) Node \<Rightarrow> (('t, 'b) stage \<times> ('t, 'b, 'p) Node) option" where
  "acquire g name st n =
     (case n_joinLocks n name of
        Some None \<Rightarrow> Some (st, n\<lparr>n_joinLocks := (n_joinLocks n)(name \<mapsto> Some g)\<rparr>)
      | _ \<Rightarrow> None)"

fun JoinTopic ::
  "('t, 'b, 'p) pubsub_api \<Rightarrow> nat \<Rightarrow> string \<Rightarrow> ('t, 'b) stage \<Rightarrow> ('t, 'b, 'p) Node \<Rightarrow>
   (('t, 'b) stage \<times> ('t, 'b, 'p) Node) option" where
  "JoinTopic api g name AtStart n =
     (if \<not> n_pubsub n then Some (AtDone (Some (ErrorString ''pubsub not enabled'')), n)
      else if n_topics n name \<noteq> None then Some (AtDone None, n)
      else Some (AtGetLock, n))"
| "JoinTopic api g name AtGetLock n = Some (AtAcquire, LoadOrStore_lock name n)"
| "JoinTopic api g name AtAcquire n = acquire g name AtCheck n"
| "JoinTopic api g name AtCheck n =
     (if n_topics n name \<noteq> None then Some (AtUnlock None, n) else Some (AtJoin, n))"
| "JoinTopic api g name AtJoin n =
     (case ps_Join api name (n_lib n) of
        (Inl e, p) \<Rightarrow> Some (AtUnlock (Some (WrapError (''join topic '' @ name) e)), n\<lparr>n_lib := p\<rparr>)
      | (Inr topic, p) \<Rightarrow> Some (AtSubscribe topic, n\<lparr>n_lib := p\<rparr>))"
| "JoinTopic api g name (AtSubscribe topic) n =
     (case ps_Subscribe api topic (n_lib n) of
        (Inl e, p) \<Rightarrow> Some (AtUnlock (Some (WrapError (''subscribe topic '' @ name) e)), n\<lparr>n_lib := p\<rparr>)
      | (Inr sub, p) \<Rightarrow> Some (AtStoreTopic topic sub, n\<lparr>n_lib := p\<rparr>))"
| "JoinTopic api g name (AtStoreTopic topic sub) n =
     Some (AtStoreSub sub, n\<lparr>n_topics := (n_topics n)(name \<mapsto> topic)\<rparr>)"
| "JoinTopic api g name (AtStoreSub sub) n = Some (AtUnlock None, n\<lparr>n_subs := (n_subs n)(name \<mapsto> sub)\<rparr>)"
| "JoinTopic api g name (AtUnlock r) n = Some (AtDone r, Unlock_node name n)"
| "JoinTopic api g name st n = None"

fun LeaveTopic ::
  "('t, 'b, 'p) pubsub_api \<Rightarrow> nat \<Rightarrow> string \<Rightarrow> ('t, 'b) stage \<Rightarrow> ('t, 'b, 'p) Node \<Rightarrow>
   (('t, 'b) stage \<times> ('t, 'b, 'p) Node) option" where
  "LeaveTopic api g name AtStart n = Some (AtGetLock, n)"
| "LeaveTopic api g name AtGetLock n = Some (AtAcquire, LoadOrStore_lock name n)"
| "LeaveTopic api g name AtAcquire n = acquire g name AtDeleteSub n"
| "LeaveTopic api g name AtDeleteSub n =
     (case n_subs n name of
        Some sub \<Rightarrow> Some (AtCancelSub sub, n\<lparr>n_subs := (n_subs n)(name := None)\<rparr>)
      | None \<Rightarrow> Some (AtDeleteTopic, n))"
| "LeaveTopic api g name (AtCancelSub sub) n = Some (AtDeleteTopic, n\<lparr>n_lib := ps_Cancel api sub (n_lib n)\<rparr>)"
| "LeaveTopic api g name AtDeleteTopic n =
     (case n_topics n name of
        None \<Rightarrow> Some (AtUnlock None, n)
      | Some topic \<Rightarrow> Some (AtCloseTopic topic, n\<lparr>n_topics := (n_topics n)(name := None)\<rparr>))"
| "LeaveTopic api g name (AtCloseTopic topic) n =
     (case ps_Close api topic (n_lib n) of
        (Some e, p) \<Rightarrow> Some (AtUnlock (Some (WrapError (''close topic '' @ name) e)), n\<lparr>n_lib := p\<rparr>)
      | (None, p) \<Rightarrow> Some (AtUnlock None, n\<lparr>n_lib := p\<rparr>))"
| "LeaveTopic api g name (AtUnlock r) n = Some (AtDone r, Unlock_node name n)"
| "LeaveTopic api g name st n = None"

fun Publish ::
  "('t, 'b, 'p) pubsub_api \<Rightarrow> string \<Rightarrow> byte list \<Rightarrow> ('t, 'b) stage \<Rightarrow> ('t, 'b, 'p) Node \<Rightarrow>
   (('t, 'b) stage \<times> ('t, 'b, 'p) Node) option" where
  "Publish api topic d AtStart n =
     (case n_topics n topic of
        None \<Rightarrow> Some (AtDone (Some (ErrorString (''topic '' @ topic @ '' not joined''))), n)
      | Some val \<Rightarrow> Some (AtPublish val, n))"
| "Publish api topic d (AtPublish val) n =
     (case ps_Publish api val d (n_lib n) of (r, p) \<Rightarrow> Some (AtDone r, n\<lparr>n_lib := p\<rparr>))"
| "Publish api topic d st n = None"

text \<open>\<^verbatim>\<open>Subscribe\<close> is one load.\<close>

definition Subscribe :: "string \<Rightarrow> ('t, 'b, 'p) Node \<Rightarrow> 'b option" where
  "Subscribe topic n = n_subs n topic"

subsection \<open>Goroutines\<close>

fun call_step ::
  "('t, 'b, 'p) pubsub_api \<Rightarrow> nat \<Rightarrow> node_call \<Rightarrow> ('t, 'b) stage \<Rightarrow> ('t, 'b, 'p) Node \<Rightarrow>
   (('t, 'b) stage \<times> ('t, 'b, 'p) Node) option" where
  "call_step api g (CallJoin name) st n = JoinTopic api g name st n"
| "call_step api g (CallLeave name) st n = LeaveTopic api g name st n"
| "call_step api g (CallPublish name d) st n = Publish api name d st n"

fun call_name :: "node_call \<Rightarrow> string" where
  "call_name (CallJoin name) = name"
| "call_name (CallLeave name) = name"
| "call_name (CallPublish name d) = name"

record ('t, 'b, 'p) system =
  sys_node :: "('t, 'b, 'p) Node"
  sys_calls :: "nat \<Rightarrow> (node_call \<times> ('t, 'b) stage) option"

inductive step :: "('t, 'b, 'p) pubsub_api \<Rightarrow> ('t, 'b, 'p) system \<Rightarrow> ('t, 'b, 'p) system \<Rightarrow> bool"
  for api :: "('t, 'b, 'p) pubsub_api" where
  enter: "sys_calls s g = None \<Longrightarrow> step api s (s\<lparr>sys_calls := (sys_calls s)(g \<mapsto> (c, AtStart))\<rparr>)"
| advance: "sys_calls s g = Some (c, st) \<Longrightarrow> call_step api g c st (sys_node s) = Some (st', n') \<Longrightarrow>
    step api s (s\<lparr>sys_node := n', sys_calls := (sys_calls s)(g \<mapsto> (c, st'))\<rparr>)"
| leave: "sys_calls s g = Some (c, AtDone r) \<Longrightarrow> step api s (s\<lparr>sys_calls := (sys_calls s)(g := None)\<rparr>)"

definition initial_node :: "bool \<Rightarrow> 'p \<Rightarrow> ('t, 'b, 'p) Node" where
  "initial_node enabled p =
     \<lparr>n_pubsub = enabled, n_topics = Map.empty, n_subs = Map.empty, n_joinLocks = Map.empty, n_lib = p\<rparr>"

definition initial :: "bool \<Rightarrow> 'p \<Rightarrow> ('t, 'b, 'p) system" where
  "initial enabled p = \<lparr>sys_node = initial_node enabled p, sys_calls = (\<lambda>g. None)\<rparr>"

abbreviation reaches :: "('t, 'b, 'p) pubsub_api \<Rightarrow> ('t, 'b, 'p) system \<Rightarrow> ('t, 'b, 'p) system \<Rightarrow> bool" where
  "reaches api \<equiv> (step api)\<^sup>*\<^sup>*"

subsection \<open>Locks\<close>

text \<open>The stages between \<^verbatim>\<open>lock.Lock()\<close> and the deferred \<^verbatim>\<open>lock.Unlock()\<close>.\<close>

fun critical :: "('t, 'b) stage \<Rightarrow> bool" where
  "critical AtStart = False"
| "critical AtGetLock = False"
| "critical AtAcquire = False"
| "critical (AtPublish t) = False"
| "critical (AtDone r) = False"
| "critical st = True"

definition section_at :: "('t, 'b) stage \<Rightarrow> ('t, 'b) stage option" where
  "section_at st = (if critical st then Some st else None)"

text \<open>How one step of a call treats the mutex of its topic; the other mutexes are left alone.\<close>

lemma call_step_locks:
  assumes "call_step api g c st n = Some (st', n')"
  shows "critical st \<and> critical st' \<and> n_joinLocks n' = n_joinLocks n \<or>
    \<not> critical st \<and> \<not> critical st' \<and>
      (n_joinLocks n' = n_joinLocks n \<or>
       n_joinLocks n (call_name c) = None \<and> n_joinLocks n' = (n_joinLocks n)(call_name c \<mapsto> None)) \<and>
      (st' = AtAcquire \<longrightarrow> n_joinLocks n' (call_name c) \<noteq> None) \<or>
    \<not> critical st \<and> critical st' \<and> n_joinLocks n (call_name c) = Some None \<and>
      n_joinLocks n' = (n_joinLocks n)(call_name c \<mapsto> Some g) \<or>
    critical st \<and> \<not> critical st' \<and> n_joinLocks n' = (n_joinLocks n)(call_name c \<mapsto> None)"
  using assms
  by (cases c; cases st)
    (auto simp: acquire_def LoadOrStore_lock_def Unlock_node_def split: option.splits sum.splits if_splits prod.splits)

definition lock_inv :: "('t, 'b, 'p) system \<Rightarrow> bool" where
  "lock_inv s \<longleftrightarrow>
     (\<forall>g c st. sys_calls s g = Some (c, st) \<longrightarrow> critical st \<longrightarrow> n_joinLocks (sys_node s) (call_name c) = Some (Some g)) \<and>
     (\<forall>m g. n_joinLocks (sys_node s) m = Some (Some g) \<longrightarrow>
        (\<exists>c st. sys_calls s g = Some (c, st) \<and> call_name c = m \<and> critical st)) \<and>
     (\<forall>g c. sys_calls s g = Some (c, AtAcquire) \<longrightarrow> n_joinLocks (sys_node s) (call_name c) \<noteq> None)"

lemma lock_invD:
  assumes "lock_inv s"
  shows "sys_calls s g = Some (c, st) \<Longrightarrow> critical st \<Longrightarrow> n_joinLocks (sys_node s) (call_name c) = Some (Some g)"
    and "n_joinLocks (sys_node s) m = Some (Some g) \<Longrightarrow>
      \<exists>c st. sys_calls s g = Some (c, st) \<and> call_name c = m \<and> critical st"
    and "sys_calls s g = Some (c, AtAcquire) \<Longrightarrow> n_joinLocks (sys_node s) (call_name c) \<noteq> None"
  using assms unfolding lock_inv_def by blast+

lemma lock_inv_initial: "lock_inv (initial enabled p)"
  by (simp add: lock_inv_def initial_def initial_node_def)

lemma lock_inv_advance:
  assumes inv: "lock_inv s" and g: "sys_calls s g = Some (c, st)"
    and cs: "call_step api g c st (sys_node s) = Some (st', n')"
  shows "lock_inv (s\<lparr>sys_node := n', sys_calls := (sys_calls s)(g \<mapsto> (c, st'))\<rparr>)"
  unfolding lock_inv_def
proof (intro conjI allI impI, goal_cases)
  case (1 g' c' st'')
  with call_step_locks [OF cs] lock_invD [OF inv] g show ?case
    by (cases "g' = g") (auto, (metis option.inject option.distinct(1))+)
next
  case (2 m g')
  with call_step_locks [OF cs] lock_invD [OF inv] g show ?case
    by (cases "g' = g"; cases "m = call_name c") (auto, (metis option.inject option.distinct(1) prod.inject)+)
next
  case (3 g' c')
  with call_step_locks [OF cs] lock_invD [OF inv] g show ?case
    by (cases "g' = g") auto
qed

lemma lock_inv_step: "step api s s' \<Longrightarrow> lock_inv s \<Longrightarrow> lock_inv s'"
proof (induction rule: step.induct)
  case (advance s g c st st' n')
  then show ?case by (intro lock_inv_advance)
next
  case (enter s g c)
  show ?case unfolding lock_inv_def
  proof (intro conjI allI impI, goal_cases)
    case (2 m g')
    then show ?case using lock_invD(2) [OF enter.prems, of m g'] enter.hyps by (cases "g' = g") auto
  qed (use lock_invD [OF enter.prems] in \<open>auto split: if_splits\<close>)
next
  case (leave s g c r)
  show ?case unfolding lock_inv_def
  proof (intro conjI allI impI, goal_cases)
    case (2 m g')
    then show ?case using lock_invD(2) [OF leave.prems, of m g'] leave.hyps by (cases "g' = g") auto
  qed (use lock_invD [OF leave.prems] in \<open>auto split: if_splits\<close>)
qed

lemma lock_inv_reaches: "reaches api s s' \<Longrightarrow> lock_inv s \<Longrightarrow> lock_inv s'"
  by (induction rule: rtranclp_induct) (auto intro: lock_inv_step)

lemmas lock_inv_reachable = lock_inv_reaches [OF _ lock_inv_initial]

subsection \<open>Invariants of one topic\<close>

text \<open>
  A property \<open>P m x n\<close> of the topic \<open>m\<close> in the node \<open>n\<close>, where \<open>x\<close> is the stage of the call that holds
  the topic's mutex, or \<^const>\<open>None\<close> when it is free.  If single steps respect it, every state reachable
  from one in which it holds of every topic has it again: the holder is the only call that counts.
\<close>

definition owner :: "('t, 'b, 'p) Node \<Rightarrow> string \<Rightarrow> nat option" where
  "owner n m = (case n_joinLocks n m of Some (Some g) \<Rightarrow> Some g | _ \<Rightarrow> None)"

definition holder :: "('t, 'b, 'p) system \<Rightarrow> string \<Rightarrow> ('t, 'b) stage option" where
  "holder s m = (case owner (sys_node s) m of Some g \<Rightarrow> map_option snd (sys_calls s g) | None \<Rightarrow> None)"

lemma owner_Some: "owner n m = Some g \<longleftrightarrow> n_joinLocks n m = Some (Some g)"
  by (auto simp: owner_def split: option.splits)

lemma owner_unchanged:
  assumes "call_step api g c st n = Some (st', n')" "\<not> (critical st \<or> critical st') \<or> k \<noteq> call_name c"
  shows "owner n' k = owner n k"
  using call_step_locks [OF assms(1)] assms(2) by (cases "k = call_name c") (auto simp: owner_def)

lemma holder_free: "\<forall>g. n_joinLocks (sys_node s) m \<noteq> Some (Some g) \<Longrightarrow> holder s m = None"
  by (auto simp: holder_def owner_def split: option.splits)

lemma holder_own:
  "lock_inv s \<Longrightarrow> sys_calls s g = Some (c, st) \<Longrightarrow> critical st \<Longrightarrow> holder s (call_name c) = Some st"
  by (simp add: holder_def owner_def lock_invD(1))

locale topic_invariant =
  fixes api :: "('t, 'b, 'p) pubsub_api"
    and P :: "string \<Rightarrow> ('t, 'b) stage option \<Rightarrow> ('t, 'b, 'p) Node \<Rightarrow> bool"
  assumes outside: "call_step api g c st n = Some (st', n') \<Longrightarrow> \<not> critical st \<Longrightarrow> \<not> critical st' \<Longrightarrow> P m x n \<Longrightarrow> P m x n'"
    and inside: "call_step api g c st n = Some (st', n') \<Longrightarrow> critical st \<or> critical st' \<Longrightarrow>
      P (call_name c) (section_at st) n \<Longrightarrow> P (call_name c) (section_at st') n'"
    and elsewhere: "call_step api g c st n = Some (st', n') \<Longrightarrow> critical st \<or> critical st' \<Longrightarrow>
      P (call_name c) (section_at st) n \<Longrightarrow> m \<noteq> call_name c \<Longrightarrow> P m x n \<Longrightarrow> P m x n'"
begin

lemma advance_keeps:
  assumes inv: "lock_inv s" "\<forall>m. P m (holder s m) (sys_node s)" and g: "sys_calls s g = Some (c, st)"
    and cs: "call_step api g c st (sys_node s) = Some (st', n')"
  defines "s' \<equiv> s\<lparr>sys_node := n', sys_calls := (sys_calls s)(g \<mapsto> (c, st'))\<rparr>"
  shows "P m (holder s' m) (sys_node s')"
proof -
  have inv': "lock_inv s'" unfolding s'_def using inv(1) g cs by (rule lock_inv_advance)
  have same: "holder s' k = holder s k" if "\<not> (critical st \<or> critical st') \<or> k \<noteq> call_name c" for k
  proof -
    have "owner (sys_node s) k \<noteq> Some g"
      using lock_invD(2) [OF inv(1), of k g] that g by (auto simp: owner_Some)
    then show ?thesis using owner_unchanged [OF cs that]
      by (auto simp: holder_def s'_def split: option.splits)
  qed
  show ?thesis
  proof (cases "critical st \<or> critical st'")
    case False
    then show ?thesis using outside [OF cs _ _ inv(2) [rule_format]] same [of m] by (simp add: s'_def)
  next
    case True
    have before: "P (call_name c) (section_at st) (sys_node s)"
    proof (cases "critical st")
      case True
      then show ?thesis using inv(2) [rule_format, of "call_name c"] holder_own [OF inv(1) g] by (simp add: section_at_def)
    next
      case False
      with True call_step_locks [OF cs] have "holder s (call_name c) = None" by (auto simp: holder_def owner_def)
      then show ?thesis using inv(2) [rule_format, of "call_name c"] False by (simp add: section_at_def)
    qed
    have after: "holder s' (call_name c) = section_at st'"
    proof (cases "critical st'")
      case True
      then show ?thesis using holder_own [OF inv', of g c st'] by (simp add: s'_def section_at_def)
    next
      case False
      with True call_step_locks [OF cs] have "n_joinLocks n' (call_name c) = Some None" by auto
      then show ?thesis using False by (simp add: holder_def owner_def s'_def section_at_def)
    qed
    show ?thesis
    proof (cases "m = call_name c")
      case True
      then show ?thesis using inside [OF cs \<open>critical st \<or> critical st'\<close> before] after by (simp add: s'_def)
    next
      case False
      then show ?thesis
        using elsewhere [OF cs True before False inv(2) [rule_format]] same [of m] by (simp add: s'_def)
    qed
  qed
qed

lemma step_keeps:
  assumes "step api s s'" "lock_inv s" "\<forall>m. P m (holder s m) (sys_node s)"
  shows "P m (holder s' m) (sys_node s')"
  using assms
proof (cases rule: step.cases)
  case (enter g c)
  have "holder s' m = holder s m"
    using lock_invD(2) [OF assms(2), of m g] enter by (auto simp: holder_def owner_def split: option.splits)
  then show ?thesis using enter assms(3) by simp
next
  case (advance g c st st' n')
  then show ?thesis using advance_keeps [OF assms(2,3) advance(2,3)] by simp
next
  case (leave g c r)
  have "holder s' m = holder s m"
    using lock_invD(2) [OF assms(2), of m g] leave by (auto simp: holder_def owner_def split: option.splits)
  then show ?thesis using leave assms(3) by simp
qed

lemma reaches_keeps:
  assumes "reaches api s s'" "lock_inv s" "\<forall>m. P m (holder s m) (sys_node s)"
  shows "\<forall>m. P m (holder s' m) (sys_node s')"
  using assms
proof (induction rule: rtranclp_induct)
  case (step s' s'')
  then show ?case using step_keeps [of s' s''] lock_inv_reaches [of api s s'] by blast
qed

end

subsection \<open>Topic and subscription go together\<close>

fun paired :: "('t, 'b) stage option \<Rightarrow> 't option \<Rightarrow> 'b option \<Rightarrow> bool" where
  "paired (Some AtJoin) a b \<longleftrightarrow> a = None \<and> b = None"
| "paired (Some (AtSubscribe t)) a b \<longleftrightarrow> a = None \<and> b = None"
| "paired (Some (AtStoreTopic t s)) a b \<longleftrightarrow> a = None \<and> b = None"
| "paired (Some (AtStoreSub s)) a b \<longleftrightarrow> a \<noteq> None \<and> b = None"
| "paired (Some (AtCancelSub s)) a b \<longleftrightarrow> a \<noteq> None \<and> b = None"
| "paired (Some AtDeleteTopic) a b \<longleftrightarrow> b = None"
| "paired (Some (AtCloseTopic t)) a b \<longleftrightarrow> a = None \<and> b = None"
| "paired x a b \<longleftrightarrow> (a = None \<longleftrightarrow> b = None)"

text \<open>What a step does to the two maps: nothing away from its own topic.\<close>

lemma call_step_elsewhere:
  assumes "call_step api g c st n = Some (st', n')" "m \<noteq> call_name c"
  shows "n_topics n' m = n_topics n m" "n_subs n' m = n_subs n m"
  using assms
  by (cases c; cases st;
      auto simp: acquire_def LoadOrStore_lock_def Unlock_node_def split: option.splits sum.splits if_splits prod.splits)+

lemma call_step_outside:
  assumes "call_step api g c st n = Some (st', n')" "\<not> critical st"
  shows "n_topics n' = n_topics n" "n_subs n' = n_subs n"
  using assms
  by (cases c; cases st;
      auto simp: acquire_def LoadOrStore_lock_def Unlock_node_def split: option.splits sum.splits if_splits prod.splits)+

lemma call_step_pubsub: "call_step api g c st n = Some (st', n') \<Longrightarrow> n_pubsub n' = n_pubsub n"
  by (cases c; cases st;
      auto simp: acquire_def LoadOrStore_lock_def Unlock_node_def split: option.splits sum.splits if_splits prod.splits)

text \<open>The steps inside a section, one case per stage.\<close>

lemma section_step_cases:
  assumes "call_step api g c st n = Some (st', n')" "critical st \<or> critical st'"
  obtains
    (locked) "\<not> critical st" "st' = AtCheck \<or> st' = AtDeleteSub"
      "n_topics n' = n_topics n" "n_subs n' = n_subs n" "n_lib n' = n_lib n"
  | (found) "st = AtCheck" "st' = AtUnlock None" "n' = n" "n_topics n (call_name c) \<noteq> None"
  | (absent) "st = AtCheck" "st' = AtJoin" "n' = n" "n_topics n (call_name c) = None"
  | (refused) e p where "st = AtJoin" "ps_Join api (call_name c) (n_lib n) = (Inl e, p)"
      "st' = AtUnlock (Some (WrapError (''join topic '' @ call_name c) e))" "n' = n\<lparr>n_lib := p\<rparr>"
  | (joined) t p where "st = AtJoin" "ps_Join api (call_name c) (n_lib n) = (Inr t, p)"
      "st' = AtSubscribe t" "n' = n\<lparr>n_lib := p\<rparr>"
  | (unsubscribed) t e p where "st = AtSubscribe t" "ps_Subscribe api t (n_lib n) = (Inl e, p)"
      "st' = AtUnlock (Some (WrapError (''subscribe topic '' @ call_name c) e))" "n' = n\<lparr>n_lib := p\<rparr>"
  | (subscribed) t s p where "st = AtSubscribe t" "ps_Subscribe api t (n_lib n) = (Inr s, p)"
      "st' = AtStoreTopic t s" "n' = n\<lparr>n_lib := p\<rparr>"
  | (stored_topic) t s where "st = AtStoreTopic t s" "st' = AtStoreSub s"
      "n' = n\<lparr>n_topics := (n_topics n)(call_name c \<mapsto> t)\<rparr>"
  | (stored_sub) s where "st = AtStoreSub s" "st' = AtUnlock None" "n' = n\<lparr>n_subs := (n_subs n)(call_name c \<mapsto> s)\<rparr>"
  | (deleted_sub) s where "st = AtDeleteSub" "n_subs n (call_name c) = Some s" "st' = AtCancelSub s"
      "n' = n\<lparr>n_subs := (n_subs n)(call_name c := None)\<rparr>"
  | (no_sub) "st = AtDeleteSub" "n_subs n (call_name c) = None" "st' = AtDeleteTopic" "n' = n"
  | (cancelled) s where "st = AtCancelSub s" "st' = AtDeleteTopic" "n' = n\<lparr>n_lib := ps_Cancel api s (n_lib n)\<rparr>"
  | (no_topic) "st = AtDeleteTopic" "n_topics n (call_name c) = None" "st' = AtUnlock None" "n' = n"
  | (deleted_topic) t where "st = AtDeleteTopic" "n_topics n (call_name c) = Some t" "st' = AtCloseTopic t"
      "n' = n\<lparr>n_topics := (n_topics n)(call_name c := None)\<rparr>"
  | (not_closed) t e p where "st = AtCloseTopic t" "ps_Close api t (n_lib n) = (Some e, p)"
      "st' = AtUnlock (Some (WrapError (''close topic '' @ call_name c) e))" "n' = n\<lparr>n_lib := p\<rparr>"
  | (closed) t p where "st = AtCloseTopic t" "ps_Close api t (n_lib n) = (None, p)" "st' = AtUnlock None" "n' = n\<lparr>n_lib := p\<rparr>"
  | (unlocked) r where "st = AtUnlock r" "st' = AtDone r"
      "n_topics n' = n_topics n" "n_subs n' = n_subs n" "n_lib n' = n_lib n"
proof (cases c)
  case (CallJoin name)
  with assms show ?thesis
    by (cases st) (auto simp: acquire_def LoadOrStore_lock_def Unlock_node_def
      split: option.splits sum.splits if_splits prod.splits
      intro: locked found absent refused joined unsubscribed subscribed stored_topic stored_sub unlocked)
next
  case (CallLeave name)
  with assms show ?thesis
    by (cases st) (auto simp: acquire_def LoadOrStore_lock_def Unlock_node_def
      split: option.splits sum.splits if_splits prod.splits
      intro: locked deleted_sub no_sub cancelled no_topic deleted_topic not_closed closed unlocked)
next
  case (CallPublish name d)
  with assms show ?thesis by (cases st) (auto split: option.splits prod.splits)
qed

interpretation pairing: topic_invariant api "\<lambda>m x n. paired x (n_topics n m) (n_subs n m)"
  for api :: "('t, 'b, 'p) pubsub_api"
proof (unfold_locales, goal_cases)
  case (1 g c st n st' n' m x)
  then show ?case by (simp add: call_step_outside)
next
  case (2 g c st n st' n')
  from 2(1,2) show ?case by (rule section_step_cases) (use 2(3) in \<open>auto simp: section_at_def\<close>)
next
  case (3 g c st n st' n' m x)
  then show ?case by (simp add: call_step_elsewhere)
qed

end
