(* ===== verification/Node_Topics.thy ===== *)
theory Node_Topics
  imports Node
begin

text \<open>
  What concurrent joins, leaves and publishes of topics guarantee: mutual exclusion per topic, agreement
  of the node's maps with each other and with the pubsub library, completion of every call, and the
  one way a topic is lost.  The library is described by the topics it has open, each with its handle
  and its active subscriptions.
\<close>

subsection \<open>The pubsub library\<close>

text \<open>
  Documented behaviour of go-libp2p-pubsub.  \<open>view p name\<close> is the open handle of a topic and its
  active subscriptions.  \<^verbatim>\<open>Join\<close> gives a handle only for a topic that has none; \<^verbatim>\<open>Subscribe\<close> needs an open
  handle; \<^verbatim>\<open>Cancel\<close> ends one subscription; \<^verbatim>\<open>Close\<close> needs a topic without subscriptions, and closing a
  closed topic does nothing; \<^verbatim>\<open>Publish\<close> changes no handle.
\<close>

definition pubsub_contract ::
  "('t, 'b, 'p) pubsub_api \<Rightarrow> ('p \<Rightarrow> string \<rightharpoonup> 't \<times> 'b set) \<Rightarrow> ('t \<Rightarrow> string) \<Rightarrow> ('b \<Rightarrow> string) \<Rightarrow> bool" where
  "pubsub_contract api view tname sname \<longleftrightarrow>
     (\<forall>name p. case ps_Join api name p of
        (Inl e, p') \<Rightarrow> view p' = view p
      | (Inr t, p') \<Rightarrow> view p name = None \<and> tname t = name \<and> view p' = (view p)(name \<mapsto> (t, {}))) \<and>
     (\<forall>t p. case ps_Subscribe api t p of
        (Inl e, p') \<Rightarrow> view p' = view p
      | (Inr s, p') \<Rightarrow> \<exists>S. view p (tname t) = Some (t, S) \<and> sname s = tname t \<and>
          view p' = (view p)(tname t \<mapsto> (t, insert s S))) \<and>
     (\<forall>s p. view (ps_Cancel api s p) =
        (case view p (sname s) of None \<Rightarrow> view p | Some (t, S) \<Rightarrow> (view p)(sname s \<mapsto> (t, S - {s})))) \<and>
     (\<forall>t p. case ps_Close api t p of
        (Some e, p') \<Rightarrow> view p' = view p
      | (None, p') \<Rightarrow> view p (tname t) = Some (t, {}) \<and> view p' = (view p)(tname t := None) \<or>
          (\<forall>S. view p (tname t) \<noteq> Some (t, S)) \<and> view p' = view p) \<and>
     (\<forall>t d p. view (snd (ps_Publish api t d p)) = view p)"

lemma pubsub_contractD:
  assumes "pubsub_contract api view tname sname"
  shows "ps_Join api name p = (Inl e, p') \<Longrightarrow> view p' = view p"
    and "ps_Join api name p = (Inr t, p') \<Longrightarrow>
      view p name = None \<and> tname t = name \<and> view p' = (view p)(name \<mapsto> (t, {}))"
    and "ps_Subscribe api t p = (Inl e, p') \<Longrightarrow> view p' = view p"
    and "ps_Subscribe api t p = (Inr s, p') \<Longrightarrow>
      \<exists>S. view p (tname t) = Some (t, S) \<and> sname s = tname t \<and> view p' = (view p)(tname t \<mapsto> (t, insert s S))"
    and "view (ps_Cancel api s p) =
      (case view p (sname s) of None \<Rightarrow> view p | Some (t, S) \<Rightarrow> (view p)(sname s \<mapsto> (t, S - {s})))"
    and "ps_Close api t p = (Some e, p') \<Longrightarrow> view p' = view p"
    and "ps_Close api t p = (None, p') \<Longrightarrow>
      view p (tname t) = Some (t, {}) \<and> view p' = (view p)(tname t := None) \<or>
      (\<forall>S. view p (tname t) \<noteq> Some (t, S)) \<and> view p' = view p"
    and "ps_Publish api t d p = (r, p') \<Longrightarrow> view p' = view p"
proof -
  note c = assms [unfolded pubsub_contract_def]
  show "ps_Join api name p = (Inl e, p') \<Longrightarrow> view p' = view p"
    and "ps_Join api name p = (Inr t, p') \<Longrightarrow> view p name = None \<and> tname t = name \<and> view p' = (view p)(name \<mapsto> (t, {}))"
    using c [THEN conjunct1, THEN spec, of name, THEN spec, of p] by simp_all
  show "ps_Subscribe api t p = (Inl e, p') \<Longrightarrow> view p' = view p"
    and "ps_Subscribe api t p = (Inr s, p') \<Longrightarrow>
      \<exists>S. view p (tname t) = Some (t, S) \<and> sname s = tname t \<and> view p' = (view p)(tname t \<mapsto> (t, insert s S))"
    using c [THEN conjunct2, THEN conjunct1, THEN spec, of t, THEN spec, of p] by simp_all
  show "view (ps_Cancel api s p) =
      (case view p (sname s) of None \<Rightarrow> view p | Some (t, S) \<Rightarrow> (view p)(sname s \<mapsto> (t, S - {s})))"
    using c [THEN conjunct2, THEN conjunct2, THEN conjunct1, THEN spec, of s, THEN spec, of p] .
  show "ps_Close api t p = (Some e, p') \<Longrightarrow> view p' = view p"
    and "ps_Close api t p = (None, p') \<Longrightarrow> view p (tname t) = Some (t, {}) \<and> view p' = (view p)(tname t := None) \<or>
      (\<forall>S. view p (tname t) \<noteq> Some (t, S)) \<and> view p' = view p"
    using c [THEN conjunct2, THEN conjunct2, THEN conjunct2, THEN conjunct1, THEN spec, of t, THEN spec, of p] by simp_all
  show "ps_Publish api t d p = (r, p') \<Longrightarrow> view p' = view p"
    using c [THEN conjunct2, THEN conjunct2, THEN conjunct2, THEN conjunct2, THEN spec, of t, THEN spec, of d, THEN spec, of p] by simp
qed

text \<open>A library that refuses nothing it has no documented reason to refuse.\<close>

definition pubsub_reliable ::
  "('t, 'b, 'p) pubsub_api \<Rightarrow> ('p \<Rightarrow> string \<rightharpoonup> 't \<times> 'b set) \<Rightarrow> ('t \<Rightarrow> string) \<Rightarrow> bool" where
  "pubsub_reliable api view tname \<longleftrightarrow>
     (\<forall>name p. view p name = None \<longrightarrow> (\<forall>e. fst (ps_Join api name p) \<noteq> Inl e)) \<and>
     (\<forall>t S p. view p (tname t) = Some (t, S) \<longrightarrow> (\<forall>e. fst (ps_Subscribe api t p) \<noteq> Inl e)) \<and>
     (\<forall>t p. view p (tname t) = Some (t, {}) \<longrightarrow> fst (ps_Close api t p) = None)"

lemma pubsub_reliableD:
  assumes "pubsub_reliable api view tname"
  shows "view p name = None \<Longrightarrow> ps_Join api name p \<noteq> (Inl e, p')"
    and "view p (tname t) = Some (t, S) \<Longrightarrow> ps_Subscribe api t p \<noteq> (Inl e, p')"
    and "view p (tname t) = Some (t, {}) \<Longrightarrow> ps_Close api t p \<noteq> (Some e, p')"
  using assms unfolding pubsub_reliable_def by (metis fst_conv option.distinct(1))+

text \<open>Only the library calls of a section touch the handles.\<close>

lemma outside_view:
  assumes "pubsub_contract api view tname sname" "call_step api g c st n = Some (st', n')" "\<not> critical st"
  shows "view (n_lib n') = view (n_lib n)"
  using assms(2,3) pubsub_contractD(8) [OF assms(1)]
  by (cases c; cases st)
    (auto simp: acquire_def LoadOrStore_lock_def Unlock_node_def split: option.splits if_splits prod.splits)

subsection \<open>Handles are stored under their own name\<close>

fun named :: "('t \<Rightarrow> string) \<Rightarrow> ('b \<Rightarrow> string) \<Rightarrow> string \<Rightarrow> ('t, 'b) stage option \<Rightarrow> bool" where
  "named tname sname m (Some (AtSubscribe t)) \<longleftrightarrow> tname t = m"
| "named tname sname m (Some (AtStoreTopic t s)) \<longleftrightarrow> tname t = m \<and> sname s = m"
| "named tname sname m (Some (AtStoreSub s)) \<longleftrightarrow> sname s = m"
| "named tname sname m (Some (AtCancelSub s)) \<longleftrightarrow> sname s = m"
| "named tname sname m (Some (AtCloseTopic t)) \<longleftrightarrow> tname t = m"
| "named tname sname m x \<longleftrightarrow> True"

definition own_handles ::
  "('t \<Rightarrow> string) \<Rightarrow> ('b \<Rightarrow> string) \<Rightarrow> string \<Rightarrow> ('t, 'b) stage option \<Rightarrow> ('t, 'b, 'p) Node \<Rightarrow> bool" where
  "own_handles tname sname m x n \<longleftrightarrow>
     (\<forall>t. n_topics n m = Some t \<longrightarrow> tname t = m) \<and> (\<forall>s. n_subs n m = Some s \<longrightarrow> sname s = m) \<and> named tname sname m x"

lemma own_handles_invariant:
  fixes api :: "('t, 'b, 'p) pubsub_api"
  assumes "pubsub_contract api view tname sname"
  shows "topic_invariant api (own_handles tname sname)"
proof (unfold_locales, goal_cases)
  case (1 g c st n st' n' m x)
  then show ?case by (simp add: own_handles_def call_step_outside)
next
  case (2 g c st n st' n')
  from 2(1,2) show ?case
  proof (cases rule: section_step_cases)
    case (joined t p)
    then show ?thesis using 2(3) pubsub_contractD(2) [OF assms joined(2)] by (simp add: own_handles_def section_at_def)
  next
    case (subscribed t s p)
    then show ?thesis using 2(3) pubsub_contractD(4) [OF assms subscribed(2)] by (auto simp: own_handles_def section_at_def)
  qed (use 2(3) in \<open>auto simp: own_handles_def section_at_def\<close>)
next
  case (3 g c st n st' n' m x)
  then show ?case by (simp add: own_handles_def call_step_elsewhere)
qed

lemma elsewhere_view:
  assumes "pubsub_contract api view tname sname" "call_step api g c st n = Some (st', n')"
    "critical st \<or> critical st'" "own_handles tname sname (call_name c) (section_at st) n" "m \<noteq> call_name c"
  shows "view (n_lib n') m = view (n_lib n) m"
  using assms(2,3)
proof (cases rule: section_step_cases)
  case (refused e p)
  then show ?thesis using pubsub_contractD(1) [OF assms(1)] by simp
next
  case (joined t p)
  then show ?thesis using pubsub_contractD(2) [OF assms(1) joined(2)] assms(5) by simp
next
  case (unsubscribed t e p)
  then show ?thesis using pubsub_contractD(3) [OF assms(1)] by simp
next
  case (subscribed t s p)
  then show ?thesis using pubsub_contractD(4) [OF assms(1) subscribed(2)] assms(4,5)
    by (auto simp: own_handles_def section_at_def)
next
  case (cancelled s)
  then show ?thesis using pubsub_contractD(5) [OF assms(1), of s "n_lib n"] assms(4,5)
    by (auto simp: own_handles_def section_at_def split: option.splits)
next
  case (not_closed t e p)
  then show ?thesis using pubsub_contractD(6) [OF assms(1)] by simp
next
  case (closed t p)
  then show ?thesis using pubsub_contractD(7) [OF assms(1) closed(2)] assms(4,5)
    by (auto simp: own_handles_def section_at_def)
qed simp_all

text \<open>The handle a join is about to subscribe to is open.\<close>

definition opened ::
  "('p \<Rightarrow> string \<rightharpoonup> 't \<times> 'b set) \<Rightarrow> ('t \<Rightarrow> string) \<Rightarrow> ('b \<Rightarrow> string) \<Rightarrow>
   string \<Rightarrow> ('t, 'b) stage option \<Rightarrow> ('t, 'b, 'p) Node \<Rightarrow> bool" where
  "opened view tname sname m x n \<longleftrightarrow>
     own_handles tname sname m x n \<and> (\<forall>t. x = Some (AtSubscribe t) \<longrightarrow> view (n_lib n) m \<noteq> None)"

lemma opened_invariant:
  fixes api :: "('t, 'b, 'p) pubsub_api"
  assumes con: "pubsub_contract api view tname sname"
  shows "topic_invariant api (opened view tname sname)"
proof (unfold_locales, goal_cases)
  case (1 g c st n st' n' m x)
  then show ?case using topic_invariant.outside [OF own_handles_invariant [OF con] 1(1-3)]
    by (simp add: opened_def outside_view [OF con 1(1,2)])
next
  case (2 g c st n st' n')
  have "view (n_lib n') (call_name c) \<noteq> None" if "section_at st' = Some (AtSubscribe t)" for t
    using 2(1,2)
  proof (cases rule: section_step_cases)
    case (joined t' p)
    then show ?thesis using pubsub_contractD(2) [OF con joined(2)] by simp
  qed (use that in \<open>auto simp: section_at_def split: if_splits\<close>)
  moreover have "own_handles tname sname (call_name c) (section_at st) n" using 2(3) by (simp add: opened_def)
  ultimately show ?case using topic_invariant.inside [OF own_handles_invariant [OF con] 2(1,2)] by (simp add: opened_def)
next
  case (3 g c st n st' n' m x)
  have own: "own_handles tname sname (call_name c) (section_at st) n" using 3(3) by (simp add: opened_def)
  with 3(5) show ?case
    using topic_invariant.elsewhere [OF own_handles_invariant [OF con] 3(1,2) own 3(4)] elsewhere_view [OF con 3(1,2) own 3(4)]
    by (simp add: opened_def)
qed

subsection \<open>The node and the library agree\<close>

text \<open>
  The state of one topic, by the stage of the call that holds its mutex: handle in \<^verbatim>\<open>topics\<close>,
  subscription in \<^verbatim>\<open>subs\<close>, and the library's view.
\<close>

definition settled :: "'t option \<Rightarrow> 'b option \<Rightarrow> ('t \<times> 'b set) option \<Rightarrow> bool" where
  "settled a b v \<longleftrightarrow>
     (case (a, b) of
        (None, None) \<Rightarrow> v = None
      | (Some t, Some s) \<Rightarrow> v = Some (t, {s})
      | _ \<Rightarrow> False)"

lemma settled_iff:
  "settled a b v \<longleftrightarrow> (case a of None \<Rightarrow> b = None \<and> v = None | Some t \<Rightarrow> \<exists>s. b = Some s \<and> v = Some (t, {s}))"
  by (cases a; cases b) (simp_all add: settled_def)

fun linked :: "('t, 'b) stage option \<Rightarrow> 't option \<Rightarrow> 'b option \<Rightarrow> ('t \<times> 'b set) option \<Rightarrow> bool" where
  "linked (Some AtJoin) a b v \<longleftrightarrow> a = None \<and> b = None \<and> v = None"
| "linked (Some (AtSubscribe t)) a b v \<longleftrightarrow> a = None \<and> b = None \<and> v = Some (t, {})"
| "linked (Some (AtStoreTopic t s)) a b v \<longleftrightarrow> a = None \<and> b = None \<and> v = Some (t, {s})"
| "linked (Some (AtStoreSub s)) a b v \<longleftrightarrow> b = None \<and> (\<exists>t. a = Some t \<and> v = Some (t, {s}))"
| "linked (Some (AtCancelSub s)) a b v \<longleftrightarrow> b = None \<and> (\<exists>t. a = Some t \<and> v = Some (t, {s}))"
| "linked (Some AtDeleteTopic) a b v \<longleftrightarrow> b = None \<and> v = map_option (\<lambda>t. (t, {})) a"
| "linked (Some (AtCloseTopic t)) a b v \<longleftrightarrow> a = None \<and> b = None \<and> v = Some (t, {})"
| "linked (Some (AtUnlock r)) a b v \<longleftrightarrow> r = None \<and> settled a b v"
| "linked x a b v \<longleftrightarrow> settled a b v"

definition in_step ::
  "('p \<Rightarrow> string \<rightharpoonup> 't \<times> 'b set) \<Rightarrow> ('t \<Rightarrow> string) \<Rightarrow> ('b \<Rightarrow> string) \<Rightarrow>
   string \<Rightarrow> ('t, 'b) stage option \<Rightarrow> ('t, 'b, 'p) Node \<Rightarrow> bool" where
  "in_step view tname sname m x n \<longleftrightarrow>
     own_handles tname sname m x n \<and> linked x (n_topics n m) (n_subs n m) (view (n_lib n) m)"

lemma in_step_invariant:
  fixes api :: "('t, 'b, 'p) pubsub_api"
  assumes con: "pubsub_contract api view tname sname" and rel: "pubsub_reliable api view tname"
  shows "topic_invariant api (in_step view tname sname)"
proof (unfold_locales, goal_cases)
  case (1 g c st n st' n' m x)
  then show ?case using topic_invariant.outside [OF own_handles_invariant [OF con] 1(1-3)]
    by (simp add: in_step_def call_step_outside outside_view [OF con 1(1,2)])
next
  case (2 g c st n st' n')
  have own: "own_handles tname sname (call_name c) (section_at st) n"
    and lk: "linked (section_at st) (n_topics n (call_name c)) (n_subs n (call_name c)) (view (n_lib n) (call_name c))"
    using 2(3) by (simp_all add: in_step_def)
  have "linked (section_at st') (n_topics n' (call_name c)) (n_subs n' (call_name c)) (view (n_lib n') (call_name c))"
    using 2(1,2)
  proof (cases rule: section_step_cases)
    case (refused e p)
    then show ?thesis using lk pubsub_reliableD(1) [OF rel] by (simp add: section_at_def)
  next
    case (joined t p)
    then show ?thesis using lk pubsub_contractD(2) [OF con joined(2)] by (simp add: section_at_def)
  next
    case (unsubscribed t e p)
    then show ?thesis using lk own pubsub_reliableD(2) [OF rel] by (auto simp: own_handles_def section_at_def)
  next
    case (subscribed t s p)
    then show ?thesis using lk own pubsub_contractD(4) [OF con subscribed(2)] by (auto simp: own_handles_def section_at_def)
  next
    case (cancelled s)
    then show ?thesis using lk own pubsub_contractD(5) [OF con, of s "n_lib n"] by (auto simp: own_handles_def section_at_def)
  next
    case (not_closed t e p)
    then show ?thesis using lk own pubsub_reliableD(3) [OF rel] by (auto simp: own_handles_def section_at_def)
  next
    case (closed t p)
    then show ?thesis using lk own pubsub_contractD(7) [OF con closed(2)]
      by (auto simp: own_handles_def section_at_def settled_def)
  qed (use lk in \<open>auto simp: section_at_def settled_def split: option.splits\<close>)
  then show ?case using topic_invariant.inside [OF own_handles_invariant [OF con] 2(1,2) own] by (simp add: in_step_def)
next
  case (3 g c st n st' n' m x)
  then show ?case
    using topic_invariant.elsewhere [OF own_handles_invariant [OF con] 3(1,2) _ 3(4)] elsewhere_view [OF con 3(1,2) _ 3(4)]
    by (simp add: in_step_def call_step_elsewhere)
qed

subsection \<open>Results of finished calls\<close>

definition good_results :: "('t, 'b, 'p) system \<Rightarrow> bool" where
  "good_results s \<longleftrightarrow>
     n_pubsub (sys_node s) \<and>
     (\<forall>g c r. sys_calls s g = Some (c, AtDone r) \<longrightarrow> (\<exists>name d. c = CallPublish name d) \<or> r = None)"

lemma done_cases:
  assumes "call_step api g c st n = Some (AtDone r, n')" "n_pubsub n"
  shows "(\<exists>name d. c = CallPublish name d) \<or> r = None \<or> st = AtUnlock r"
  using assms
  by (cases c; cases st)
    (auto simp: acquire_def split: option.splits sum.splits if_splits prod.splits)

lemma good_results_step:
  assumes "step api s s'" "lock_inv s" "\<forall>m. in_step view tname sname m (holder s m) (sys_node s)" "good_results s"
  shows "good_results s'"
  using assms(1)
proof (cases rule: step.cases)
  case (advance g c st st' n')
  have "(\<exists>name d. c = CallPublish name d) \<or> r = None" if "st' = AtDone r" for r
  proof -
    from advance(3) that assms(4) consider "(\<exists>name d. c = CallPublish name d) \<or> r = None" | "st = AtUnlock r"
      using done_cases [of api g c st "sys_node s" r n'] by (auto simp: good_results_def)
    then show ?thesis
    proof cases
      case 2
      then have "holder s (call_name c) = Some (AtUnlock r)" using holder_own [OF assms(2) advance(2)] by simp
      with assms(3) [rule_format, of "call_name c"] show ?thesis by (simp add: in_step_def)
    qed
  qed
  then show ?thesis using advance assms(4) call_step_pubsub [OF advance(3)] by (auto simp: good_results_def)
qed (use assms(4) in \<open>auto simp: good_results_def\<close>)

lemma good_results_reaches:
  assumes con: "pubsub_contract api view tname sname" "pubsub_reliable api view tname"
    and "reaches api s s'" "lock_inv s" "\<forall>m. in_step view tname sname m (holder s m) (sys_node s)" "good_results s"
  shows "good_results s'"
  using assms(3-)
proof (induction rule: rtranclp_induct)
  case (step s' s'')
  then show ?case
    using good_results_step lock_inv_reaches [of api s s'] topic_invariant.reaches_keeps [OF in_step_invariant [OF con]] by blast
qed

lemma initial_holder [simp]: "holder (initial enabled p) m = None"
  by (simp add: holder_def owner_def initial_def initial_node_def)

lemma initial_fields [simp]:
  "n_pubsub (sys_node (initial enabled p)) = enabled" "n_topics (sys_node (initial enabled p)) = Map.empty"
  "n_subs (sys_node (initial enabled p)) = Map.empty" "n_lib (sys_node (initial enabled p)) = p"
  "sys_calls (initial enabled p) = (\<lambda>g. None)"
  by (simp_all add: initial_def initial_node_def)

subsection \<open>Completion\<close>

text \<open>Steps of the calls that are running, no call entering or leaving.\<close>

definition progresses :: "('t, 'b, 'p) pubsub_api \<Rightarrow> ('t, 'b, 'p) system \<Rightarrow> ('t, 'b, 'p) system \<Rightarrow> bool" where
  "progresses api s s' \<longleftrightarrow>
     (\<exists>g c st st' n'. sys_calls s g = Some (c, st) \<and> call_step api g c st (sys_node s) = Some (st', n') \<and>
        s' = s\<lparr>sys_node := n', sys_calls := (sys_calls s)(g \<mapsto> (c, st'))\<rparr>)"

text \<open>An upper bound on the steps a call has left.\<close>

fun steps_left :: "('t, 'b) stage \<Rightarrow> nat" where
  "steps_left AtStart = 9"
| "steps_left AtGetLock = 8"
| "steps_left AtAcquire = 7"
| "steps_left AtCheck = 6"
| "steps_left AtJoin = 5"
| "steps_left (AtSubscribe t) = 4"
| "steps_left (AtStoreTopic t s) = 3"
| "steps_left (AtStoreSub s) = 2"
| "steps_left AtDeleteSub = 5"
| "steps_left (AtCancelSub s) = 4"
| "steps_left AtDeleteTopic = 3"
| "steps_left (AtCloseTopic t) = 2"
| "steps_left (AtUnlock r) = 1"
| "steps_left (AtPublish t) = 1"
| "steps_left (AtDone r) = 0"

lemma call_step_left: "call_step api g c st n = Some (st', n') \<Longrightarrow> steps_left st' < steps_left st"
  by (cases c; cases st)
    (auto simp: acquire_def split: option.splits sum.splits if_splits prod.splits)

text \<open>The stages a call passes through.\<close>

fun proper :: "node_call \<Rightarrow> ('t, 'b) stage \<Rightarrow> bool" where
  "proper (CallJoin name) st \<longleftrightarrow>
     (case st of AtDeleteSub \<Rightarrow> False | AtCancelSub s \<Rightarrow> False | AtDeleteTopic \<Rightarrow> False | AtCloseTopic t \<Rightarrow> False
      | AtPublish t \<Rightarrow> False | _ \<Rightarrow> True)"
| "proper (CallLeave name) st \<longleftrightarrow>
     (case st of AtCheck \<Rightarrow> False | AtJoin \<Rightarrow> False | AtSubscribe t \<Rightarrow> False | AtStoreTopic t s \<Rightarrow> False | AtStoreSub s \<Rightarrow> False
      | AtPublish t \<Rightarrow> False | _ \<Rightarrow> True)"
| "proper (CallPublish name d) st \<longleftrightarrow> (case st of AtStart \<Rightarrow> True | AtPublish t \<Rightarrow> True | AtDone r \<Rightarrow> True | _ \<Rightarrow> False)"

lemma call_step_proper: "call_step api g c st n = Some (st', n') \<Longrightarrow> proper c st'"
  by (cases c; cases st)
    (auto simp: acquire_def split: option.splits sum.splits if_splits prod.splits)

lemma proper_start: "proper c AtStart"
  by (cases c) simp_all

lemma proper_reaches:
  assumes "reaches api (initial enabled p) s" "sys_calls s g = Some (c, st)"
  shows "proper c st"
  using assms
proof (induction arbitrary: g c st rule: rtranclp_induct)
  case base
  then show ?case by (simp add: initial_def)
next
  case (step s s')
  from step(2) show ?case
  proof (cases rule: step.cases)
    case (enter g' c')
    then show ?thesis using step.IH step.prems proper_start by (cases "g = g'") auto
  next
    case (advance g' c' st0 st' n')
    then show ?thesis using step.IH step.prems call_step_proper [OF advance(3)] by (auto split: if_splits)
  next
    case (leave g' c' r)
    then show ?thesis using step.IH step.prems by (auto split: if_splits)
  qed
qed

text \<open>A call that is not waiting for a mutex can take its next step.\<close>

lemma call_step_enabled:
  assumes "proper c st" "st = AtAcquire \<Longrightarrow> n_joinLocks n (call_name c) = Some None" "\<forall>r. st \<noteq> AtDone r"
  shows "call_step api g c st n \<noteq> None"
  using assms by (cases c; cases st) (auto simp: acquire_def split: option.splits sum.splits prod.splits)

lemma no_deadlock:
  assumes inv: "lock_inv s" "\<forall>g c st. sys_calls s g = Some (c, st) \<longrightarrow> proper c st"
    and g: "sys_calls s g = Some (c, st)" "\<forall>r. st \<noteq> AtDone r"
  shows "\<exists>s'. progresses api s s'"
proof -
  have can: "\<exists>s'. progresses api s s'"
    if "sys_calls s g' = Some (c', st')" "call_step api g' c' st' (sys_node s) \<noteq> None" for g' c' st'
  proof -
    from that(2) obtain st'' n'' where "call_step api g' c' st' (sys_node s) = Some (st'', n'')" by auto
    with that(1) show ?thesis unfolding progresses_def by blast
  qed
  show ?thesis
  proof (cases "call_step api g c st (sys_node s)")
    case None
    then have st: "st = AtAcquire" and "n_joinLocks (sys_node s) (call_name c) \<noteq> Some None"
      using call_step_enabled [of c st "sys_node s" api g] inv(2) g by blast+
    then obtain h where h: "n_joinLocks (sys_node s) (call_name c) = Some (Some h)"
      using lock_invD(3) [OF inv(1)] g(1) by (metis not_None_eq)
    then obtain c' st' where "sys_calls s h = Some (c', st')" "critical st'"
      using lock_invD(2) [OF inv(1)] by blast
    moreover from this have "call_step api h c' st' (sys_node s) \<noteq> None"
      using inv(2) by (intro call_step_enabled) auto
    ultimately show ?thesis using can by blast
  qed (use can [OF g(1)] in auto)
qed

definition work :: "('t, 'b, 'p) system \<Rightarrow> nat" where
  "work s = (\<Sum>g \<in> dom (sys_calls s). steps_left (snd (the (sys_calls s g))))"

lemma progresses_work:
  assumes "progresses api s s'" "finite (dom (sys_calls s))"
  shows "work s' < work s" "finite (dom (sys_calls s'))"
proof -
  from assms(1) obtain g c st st' n' where g: "sys_calls s g = Some (c, st)"
    and cs: "call_step api g c st (sys_node s) = Some (st', n')"
    and s': "s' = s\<lparr>sys_node := n', sys_calls := (sys_calls s)(g \<mapsto> (c, st'))\<rparr>"
    unfolding progresses_def by blast
  have dom: "dom (sys_calls s') = dom (sys_calls s)" using g by (auto simp: s')
  then show "finite (dom (sys_calls s'))" using assms(2) by simp
  have gin: "g \<in> dom (sys_calls s)" using g by blast
  let ?f = "\<lambda>s g. steps_left (snd (the (sys_calls s g)))"
  have "work s = ?f s g + (\<Sum>x \<in> dom (sys_calls s) - {g}. ?f s x)"
    unfolding work_def using gin by (rule sum.remove [OF assms(2)])
  moreover have "work s' = ?f s' g + (\<Sum>x \<in> dom (sys_calls s) - {g}. ?f s' x)"
    unfolding work_def dom using gin by (rule sum.remove [OF assms(2)])
  moreover have "(\<Sum>x \<in> dom (sys_calls s) - {g}. ?f s' x) = (\<Sum>x \<in> dom (sys_calls s) - {g}. ?f s x)"
    by (rule sum.cong) (auto simp: s')
  moreover have "?f s' g < ?f s g" using call_step_left [OF cs] g by (simp add: s')
  ultimately show "work s' < work s" by simp
qed

lemma progresses_power:
  "(progresses api ^^ k) s s' \<Longrightarrow> finite (dom (sys_calls s)) \<Longrightarrow>
   k + work s' \<le> work s \<and> (progresses api)\<^sup>*\<^sup>* s s'"
proof (induction k arbitrary: s')
  case (Suc k)
  then obtain s1 where s1: "(progresses api ^^ k) s s1" "progresses api s1 s'" by auto
  have "finite (dom (sys_calls s1))" using s1(1) Suc.prems(2)
    by (induction k arbitrary: s1) (auto dest: progresses_work(2))
  then have "work s' < work s1" using progresses_work(1) [OF s1(2)] by simp
  with Suc.IH [OF s1(1) Suc.prems(2)] s1(2) show ?case by auto
qed simp

lemma progresses_reaches: "(progresses api)\<^sup>*\<^sup>* s s' \<Longrightarrow> reaches api s s'"
proof (induction rule: rtranclp_induct)
  case (step s1 s2)
  from step(2) have "Node.step api s1 s2" unfolding progresses_def using Node.step.advance by blast
  with step.IH show ?case by (rule rtranclp.rtrancl_into_rtrancl)
qed simp

subsection \<open>A lost topic\<close>

text \<open>
  The library has the topic open, the node has no handle to it, and no call is about to store one.
\<close>

fun keeps_lost :: "('t, 'b) stage option \<Rightarrow> bool" where
  "keeps_lost (Some (AtSubscribe t)) = False"
| "keeps_lost (Some (AtStoreTopic t s)) = False"
| "keeps_lost (Some (AtStoreSub s)) = False"
| "keeps_lost (Some (AtCloseTopic t)) = False"
| "keeps_lost x = True"

definition lost ::
  "('p \<Rightarrow> string \<rightharpoonup> 't \<times> 'b set) \<Rightarrow> ('t \<Rightarrow> string) \<Rightarrow> ('b \<Rightarrow> string) \<Rightarrow> string \<Rightarrow>
   string \<Rightarrow> ('t, 'b) stage option \<Rightarrow> ('t, 'b, 'p) Node \<Rightarrow> bool" where
  "lost view tname sname name m x n \<longleftrightarrow>
     own_handles tname sname m x n \<and>
     (m = name \<longrightarrow> n_topics n m = None \<and> view (n_lib n) m \<noteq> None \<and> keeps_lost x)"

lemma lost_invariant:
  fixes api :: "('t, 'b, 'p) pubsub_api"
  assumes con: "pubsub_contract api view tname sname"
  shows "topic_invariant api (lost view tname sname name)"
proof (unfold_locales, goal_cases)
  case (1 g c st n st' n' m x)
  then show ?case using topic_invariant.outside [OF own_handles_invariant [OF con] 1(1-3)]
    by (simp add: lost_def call_step_outside outside_view [OF con 1(1,2)])
next
  case (2 g c st n st' n')
  have own: "own_handles tname sname (call_name c) (section_at st) n" using 2(3) by (simp add: lost_def)
  have "n_topics n' name = None \<and> view (n_lib n') name \<noteq> None \<and> keeps_lost (section_at st')" if c: "call_name c = name"
  proof -
    from 2(3) c have lk: "n_topics n name = None" "view (n_lib n) name \<noteq> None" "keeps_lost (section_at st)"
      by (simp_all add: lost_def)
    from 2(1,2) show ?thesis
    proof (cases rule: section_step_cases)
      case (refused e p)
      then show ?thesis using lk pubsub_contractD(1) [OF con refused(2)] by (simp add: section_at_def)
    next
      case (joined t p)
      then show ?thesis using lk c pubsub_contractD(2) [OF con joined(2)] by simp
    next
      case (cancelled s)
      then show ?thesis using lk pubsub_contractD(5) [OF con, of s "n_lib n"]
        by (auto simp: section_at_def split: option.splits)
    qed (use lk c in \<open>auto simp: section_at_def\<close>)
  qed
  then show ?case using topic_invariant.inside [OF own_handles_invariant [OF con] 2(1,2) own] by (simp add: lost_def)
next
  case (3 g c st n st' n' m x)
  have "own_handles tname sname m x n'" "view (n_lib n') m = view (n_lib n) m" "n_topics n' m = n_topics n m"
    using topic_invariant.elsewhere [OF own_handles_invariant [OF con] 3(1,2) _ 3(4)] elsewhere_view [OF con 3(1,2) _ 3(4)]
      3(3,5) call_step_elsewhere [OF 3(1,4)] by (simp_all add: lost_def)
  with 3(5) show ?case by (cases "m = name") (auto simp: lost_def)
qed

text \<open>A call of \<^verbatim>\<open>JoinTopic\<close> that has succeeded.\<close>

definition joined_ok :: "string \<Rightarrow> ('t, 'b, 'p) system \<Rightarrow> nat \<Rightarrow> bool" where
  "joined_ok name s u \<longleftrightarrow> sys_calls s u \<in> {Some (CallJoin name, AtUnlock None), Some (CallJoin name, AtDone None)}"

lemma lost_join_fails:
  assumes lost: "lost view tname sname name name (holder s name) (sys_node s)" and lock: "lock_inv s"
    and "step api s s'" "joined_ok name s' u"
  shows "joined_ok name s u"
  using assms(3)
proof (cases rule: step.cases)
  case (advance g c st st' n')
  show ?thesis
  proof (cases "g = u")
    case False
    then show ?thesis using advance assms(4) by (simp add: joined_ok_def)
  next
    case True
    with advance assms(4) have c: "c = CallJoin name" and st': "st' = AtUnlock None \<or> st' = AtDone None"
      by (auto simp: joined_ok_def)
    have none: "n_topics (sys_node s) name = None" using lost by (simp add: lost_def)
    have "st \<noteq> AtStoreSub sub" for sub
      using holder_own [OF lock advance(2)] lost c by (auto simp: lost_def)
    with advance(3) c st' none have "st = AtUnlock None"
      by (cases st) (auto simp: acquire_def split: option.splits sum.splits prod.splits if_splits)
    then show ?thesis using advance(2) True c by (simp add: joined_ok_def)
  qed
qed (use assms(4) in \<open>auto simp: joined_ok_def split: if_splits\<close>)

lemma lost_forever:
  assumes con: "pubsub_contract api view tname sname"
    and "reaches api s s'" "lock_inv s" "\<forall>m. lost view tname sname name m (holder s m) (sys_node s)" "\<not> joined_ok name s u"
  shows "\<not> joined_ok name s' u \<and> n_topics (sys_node s') name = None"
  using assms(2-)
proof (induction rule: rtranclp_induct)
  case base
  then show ?case by (simp add: lost_def)
next
  case (step s' s'')
  have inv: "lock_inv s'" "\<forall>m. lost view tname sname name m (holder s' m) (sys_node s')"
    using step(1) step.prems(1,2) lock_inv_reaches topic_invariant.reaches_keeps [OF lost_invariant [OF con]] by blast+
  then have "lost view tname sname name name (holder s'' name) (sys_node s'')"
    using topic_invariant.step_keeps [OF lost_invariant [OF con] step(2)] by blast
  then show ?case using lost_join_fails [OF _ inv(1) step(2), of view tname sname name u] inv(2) step.IH step.prems
    by (auto simp: lost_def)
qed

subsection \<open>Schedules\<close>

text \<open>A schedule fixes which goroutine moves; running it gives a reachable state.\<close>

datatype move = Enter nat node_call | Advance nat | Leave nat

fun exec :: "('t, 'b, 'p) pubsub_api \<Rightarrow> move list \<Rightarrow> ('t, 'b, 'p) system \<Rightarrow> ('t, 'b, 'p) system option" where
  "exec api [] s = Some s"
| "exec api (Enter g c # ms) s =
     (case sys_calls s g of
        None \<Rightarrow> exec api ms (s\<lparr>sys_calls := (sys_calls s)(g \<mapsto> (c, AtStart))\<rparr>)
      | Some _ \<Rightarrow> None)"
| "exec api (Advance g # ms) s =
     (case sys_calls s g of
        None \<Rightarrow> None
      | Some (c, st) \<Rightarrow>
          (case call_step api g c st (sys_node s) of
             None \<Rightarrow> None
           | Some (st', n') \<Rightarrow> exec api ms (s\<lparr>sys_node := n', sys_calls := (sys_calls s)(g \<mapsto> (c, st'))\<rparr>)))"
| "exec api (Leave g # ms) s =
     (case sys_calls s g of
        Some (c, AtDone r) \<Rightarrow> exec api ms (s\<lparr>sys_calls := (sys_calls s)(g := None)\<rparr>)
      | _ \<Rightarrow> None)"

lemma exec_reaches: "exec api ms s = Some s' \<Longrightarrow> reaches api s s'"
proof (induction api ms s rule: exec.induct)
  case (2 api g c ms s)
  then show ?case using step.enter [of s g api c] by (auto split: option.splits intro: converse_rtranclp_into_rtranclp)
next
  case (3 api g ms s)
  from "3.prems" obtain c st st' n' where run: "sys_calls s g = Some (c, st)"
    "call_step api g c st (sys_node s) = Some (st', n')"
    "exec api ms (s\<lparr>sys_node := n', sys_calls := (sys_calls s)(g \<mapsto> (c, st'))\<rparr>) = Some s'"
    by (auto split: option.splits)
  with "3.IH" [OF run(1) refl run(2) refl] step.advance [OF run(1,2)] show ?case
    by (auto intro: converse_rtranclp_into_rtranclp)
next
  case (4 api g ms s)
  from "4.prems" obtain c r where run: "sys_calls s g = Some (c, AtDone r)"
    "exec api ms (s\<lparr>sys_calls := (sys_calls s)(g := None)\<rparr>) = Some s'"
    by (auto split: option.splits stage.splits)
  with "4.IH" [OF run(1) refl refl] step.leave [OF run(1)] show ?case
    by (auto intro: converse_rtranclp_into_rtranclp)
qed simp

lemma exec_append: "exec api ms s = Some s' \<Longrightarrow> exec api (ms @ ms') s = exec api ms' s'"
  by (induction api ms s rule: exec.induct) (auto split: option.splits prod.splits stage.splits)

text \<open>
  A library in memory, which keeps the contract; with \<open>fails\<close>, its \<^verbatim>\<open>Subscribe\<close> always fails.  It drops all
  it has when its context is cancelled.
\<close>

definition memory_pubsub :: "bool \<Rightarrow> (string, string, string \<rightharpoonup> string set) pubsub_api" where
  "memory_pubsub fails =
     \<lparr>ps_Join = (\<lambda>name p. case p name of
        None \<Rightarrow> (Inr name, p(name \<mapsto> {})) | Some _ \<Rightarrow> (Inl (ExternalError ''topic already exists''), p)),
      ps_Subscribe = (\<lambda>t p. case p t of
        Some S \<Rightarrow> if fails then (Inl (ExternalError ''subscribe''), p) else (Inr t, p(t \<mapsto> insert t S))
      | None \<Rightarrow> (Inl (ExternalError ''topic closed''), p)),
      ps_Cancel = (\<lambda>s p. case p s of None \<Rightarrow> p | Some S \<Rightarrow> p(s \<mapsto> S - {s})),
      ps_Close = (\<lambda>t p. case p t of
        None \<Rightarrow> (None, p)
      | Some S \<Rightarrow> if S = {} then (None, p(t := None)) else (Some (ExternalError ''active subscriptions''), p)),
      ps_Publish = (\<lambda>t d p. (None, p)),
      ps_ContextDone = (\<lambda>p. Map.empty)\<rparr>"

definition memory_view :: "(string \<rightharpoonup> string set) \<Rightarrow> string \<rightharpoonup> string \<times> string set" where
  "memory_view p name = map_option (Pair name) (p name)"

lemma memory_contract: "pubsub_contract (memory_pubsub fails) memory_view id id"
  by (auto simp: pubsub_contract_def memory_pubsub_def memory_view_def fun_eq_iff split: option.splits)

lemma memory_reliable: "pubsub_reliable (memory_pubsub False) memory_view id"
  by (auto simp: pubsub_reliable_def memory_pubsub_def memory_view_def split: option.splits)

subsection \<open>Properties\<close>

text \<open>
  C12.  Joins and leaves of one topic exclude each other.  However the goroutines of a node are
  scheduled and whatever the pubsub library answers, two calls are never between lock and unlock of the
  same topic at once, and a topic whose mutex is free has either both a handle and a subscription
  stored or neither.
\<close>

theorem topic_mutual_exclusion:
  assumes "reaches api (initial enabled p) s"
  shows "(\<forall>g g' c c' st st'. sys_calls s g = Some (c, st) \<longrightarrow> sys_calls s g' = Some (c', st') \<longrightarrow>
      critical st \<longrightarrow> critical st' \<longrightarrow> call_name c = call_name c' \<longrightarrow> g = g') \<and>
    (\<forall>m. owner (sys_node s) m = None \<longrightarrow> (n_topics (sys_node s) m = None \<longleftrightarrow> Subscribe m (sys_node s) = None))"
proof (intro conjI allI impI)
  fix g g' c c' st st'
  assume "sys_calls s g = Some (c, st)" "sys_calls s g' = Some (c', st')"
    "critical st" "critical st'" "call_name c = call_name c'"
  then show "g = g'" using lock_invD(1) [OF lock_inv_reachable [OF assms]] by (metis option.inject)
next
  fix m
  assume "owner (sys_node s) m = None"
  moreover have "paired (holder s m) (n_topics (sys_node s) m) (n_subs (sys_node s) m)"
    using pairing.reaches_keeps [OF assms lock_inv_initial] by simp
  ultimately show "n_topics (sys_node s) m = None \<longleftrightarrow> Subscribe m (sys_node s) = None"
    by (simp add: holder_def Subscribe_def)
qed

text \<open>Two goroutines join the same topic; the second waits for the first.\<close>

abbreviation two_joins :: "move list" where
  "two_joins \<equiv> [Enter 1 (CallJoin ''t''), Advance 1, Enter 2 (CallJoin ''t''), Advance 2, Advance 2, Advance 1, Advance 1,
     Advance 1, Advance 1, Advance 1, Advance 1, Advance 1]"

lemma two_joins_run:
  "\<exists>s. exec (memory_pubsub False) two_joins (initial True Map.empty) = Some s \<and>
     n_topics (sys_node s) ''t'' = Some ''t'' \<and> sys_calls s = [1 \<mapsto> (CallJoin ''t'', AtUnlock None), 2 \<mapsto> (CallJoin ''t'', AtAcquire)] \<and>
     n_joinLocks (sys_node s) = [''t'' \<mapsto> Some 1]"
  by (simp add: initial_def initial_node_def memory_pubsub_def LoadOrStore_lock_def acquire_def fun_upd_twist)

theorem topic_mutual_exclusion_witness:
  "\<exists>s. exec (memory_pubsub False) two_joins (initial True Map.empty) = Some s \<and>
     owner (sys_node s) ''u'' = None \<and> (n_topics (sys_node s) ''u'' = None \<longleftrightarrow> Subscribe ''u'' (sys_node s) = None)"
proof -
  obtain s where s: "exec (memory_pubsub False) two_joins (initial True Map.empty) = Some s" "n_joinLocks (sys_node s) = [''t'' \<mapsto> Some 1]"
    using two_joins_run by blast
  then have "owner (sys_node s) ''u'' = None" by (simp add: owner_def)
  with s(1) topic_mutual_exclusion [OF exec_reaches [OF s(1)]] show ?thesis by blast
qed

text \<open>
  C4.  The node's maps and the library agree.  With a library that keeps its documented contract and
  refuses nothing without a documented reason, starting with no topic open: in every interleaving of
  joins, leaves and publishes, no call of \<^verbatim>\<open>JoinTopic\<close> or \<^verbatim>\<open>LeaveTopic\<close> ever returns an error (in particular
  concurrent joins of a topic never meet the library's refusal of a second handle, and a leave never
  closes a topic with a live subscription), and whenever a topic's mutex is free, the library has
  the topic open exactly when the node has joined it, with the stored handle and the stored
  subscription as its only one.
\<close>

theorem topics_agree_with_library:
  assumes con: "pubsub_contract api view tname sname" "pubsub_reliable api view tname"
    and start: "view p = Map.empty" and run: "reaches api (initial True p) s"
  shows "(\<forall>g c r. sys_calls s g = Some (c, AtDone r) \<longrightarrow> (\<exists>name d. c = CallPublish name d) \<or> r = None) \<and>
    (\<forall>m. owner (sys_node s) m = None \<longrightarrow>
       (case n_topics (sys_node s) m of
          None \<Rightarrow> n_subs (sys_node s) m = None \<and> view (n_lib (sys_node s)) m = None
        | Some t \<Rightarrow> \<exists>b. n_subs (sys_node s) m = Some b \<and> view (n_lib (sys_node s)) m = Some (t, {b})))"
proof (intro conjI)
  have init: "\<forall>m. in_step view tname sname m (holder (initial True p) m) (sys_node (initial True p))"
    by (simp add: in_step_def own_handles_def settled_def start)
  have "good_results s"
    by (rule good_results_reaches [OF con run lock_inv_initial init]) (simp add: good_results_def)
  then show "\<forall>g c r. sys_calls s g = Some (c, AtDone r) \<longrightarrow> (\<exists>name d. c = CallPublish name d) \<or> r = None"
    by (simp add: good_results_def)
  have inv: "\<forall>m. in_step view tname sname m (holder s m) (sys_node s)"
    by (rule topic_invariant.reaches_keeps [OF in_step_invariant [OF con] run lock_inv_initial init])
  show "\<forall>m. owner (sys_node s) m = None \<longrightarrow>
       (case n_topics (sys_node s) m of
          None \<Rightarrow> n_subs (sys_node s) m = None \<and> view (n_lib (sys_node s)) m = None
        | Some t \<Rightarrow> \<exists>b. n_subs (sys_node s) m = Some b \<and> view (n_lib (sys_node s)) m = Some (t, {b}))"
  proof (intro allI impI)
    fix m
    assume "owner (sys_node s) m = None"
    then show "case n_topics (sys_node s) m of
          None \<Rightarrow> n_subs (sys_node s) m = None \<and> view (n_lib (sys_node s)) m = None
        | Some t \<Rightarrow> \<exists>b. n_subs (sys_node s) m = Some b \<and> view (n_lib (sys_node s)) m = Some (t, {b})"
      using inv [rule_format, of m] by (simp add: in_step_def holder_def settled_iff)
  qed
qed

theorem topics_agree_with_library_witness:
  "\<exists>s. exec (memory_pubsub False) (two_joins @ [Advance 1, Advance 2, Advance 2, Advance 2]) (initial True Map.empty) = Some s \<and>
     sys_calls s 2 = Some (CallJoin ''t'', AtDone None) \<and> memory_view (n_lib (sys_node s)) ''t'' = Some (''t'', {''t''})"
proof -
  obtain s where s: "exec (memory_pubsub False) (two_joins @ [Advance 1, Advance 2, Advance 2, Advance 2]) (initial True Map.empty) = Some s"
    "n_joinLocks (sys_node s) ''t'' = Some None" "\<exists>r. sys_calls s 2 = Some (CallJoin ''t'', AtDone r)"
    "n_topics (sys_node s) ''t'' = Some ''t''" "n_subs (sys_node s) ''t'' = Some ''t''"
    by (simp add: initial_def initial_node_def memory_pubsub_def LoadOrStore_lock_def Unlock_node_def acquire_def)
  have "memory_view Map.empty = Map.empty" by (simp add: memory_view_def fun_eq_iff)
  note agree = topics_agree_with_library [OF memory_contract memory_reliable this exec_reaches [OF s(1)]]
  have "sys_calls s 2 = Some (CallJoin ''t'', AtDone None)" using agree [THEN conjunct1] s(3) by fastforce
  moreover have "memory_view (n_lib (sys_node s)) ''t'' = Some (''t'', {''t''})"
    using agree [THEN conjunct2, rule_format, of "''t''"] s(2,4,5) by (simp add: owner_def)
  ultimately show ?thesis using s(1) by blast
qed

text \<open>
  C13.  Calls complete.  As long as every call into the pubsub library returns, from any reachable state with
  finitely many running calls, every schedule of their steps stops after at most nine steps per call, and where it stops every call has returned:
  there is no deadlock on the per-topic mutexes and no call loops.
\<close>

theorem topic_calls_complete:
  assumes "reaches api (initial enabled p) s" "finite (dom (sys_calls s))" "(progresses api ^^ k) s s'"
  shows "k \<le> 9 * card (dom (sys_calls s)) \<and>
    ((\<nexists>s''. progresses api s' s'') \<longrightarrow> (\<forall>g c st. sys_calls s' g = Some (c, st) \<longrightarrow> (\<exists>r. st = AtDone r)))"
proof (intro conjI impI allI)
  have "steps_left st \<le> 9" for st :: "('a, 'b) stage" by (cases st) simp_all
  then have "work s \<le> 9 * card (dom (sys_calls s))"
    unfolding work_def using sum_bounded_above [of "dom (sys_calls s)" "\<lambda>g. steps_left (snd (the (sys_calls s g)))" 9] by simp
  then show "k \<le> 9 * card (dom (sys_calls s))" using progresses_power [OF assms(3,2)] by simp
next
  fix g c st
  assume stop: "\<nexists>s''. progresses api s' s''" and g: "sys_calls s' g = Some (c, st)"
  have run: "reaches api (initial enabled p) s'"
    using assms(1) progresses_reaches progresses_power [OF assms(3,2)] by (meson rtranclp_trans)
  show "\<exists>r. st = AtDone r"
    using no_deadlock [OF lock_inv_reachable [OF run] _ g, of api] proper_reaches [OF run] stop by blast
qed

theorem topic_calls_complete_witness:
  "\<exists>s s'. exec (memory_pubsub False) two_joins (initial True Map.empty) = Some s \<and> finite (dom (sys_calls s)) \<and>
     (progresses (memory_pubsub False) ^^ 1) s s' \<and> 1 \<le> 9 * card (dom (sys_calls s))"
proof -
  obtain s where s: "exec (memory_pubsub False) two_joins (initial True Map.empty) = Some s"
    "sys_calls s = [1 \<mapsto> (CallJoin ''t'', AtUnlock None), 2 \<mapsto> (CallJoin ''t'', AtAcquire)]"
    using two_joins_run by blast
  have fin: "finite (dom (sys_calls s))" using s(2) by simp
  have "sys_calls s 1 = Some (CallJoin ''t'', AtUnlock None)"
    "call_step (memory_pubsub False) 1 (CallJoin ''t'') (AtUnlock None) (sys_node s) = Some (AtDone None, Unlock_node ''t'' (sys_node s))"
    using s(2) by simp_all
  then have "\<exists>s'. progresses (memory_pubsub False) s s'" unfolding progresses_def by blast
  then obtain s' where s': "(progresses (memory_pubsub False) ^^ 1) s s'" by auto
  show ?thesis using s(1) fin s' topic_calls_complete [OF exec_reaches [OF s(1)] fin s'] by blast
qed

text \<open>
  C37.  A failed subscription loses the topic.  \<^verbatim>\<open>JoinTopic\<close> does not close the handle it has just got when
  the subscription fails.  The library, by contract, gives no second handle while one is open, and the
  node has kept none it could close: from then on every call of \<^verbatim>\<open>JoinTopic\<close> for that topic that returns
  has failed, whatever other joins and leaves run, and the topic is never published to.
\<close>

theorem failed_subscribe_loses_topic:
  assumes con: "pubsub_contract api view tname sname" and run: "reaches api (initial enabled p) s"
    and call: "sys_calls s g = Some (CallJoin name, AtSubscribe t)"
    and fails: "ps_Subscribe api t (n_lib (sys_node s)) = (Inl e, p')"
    and after: "call_step api g (CallJoin name) (AtSubscribe t) (sys_node s) = Some (st', n')"
      "s1 = s\<lparr>sys_node := n', sys_calls := (sys_calls s)(g \<mapsto> (CallJoin name, st'))\<rparr>"
    and later: "reaches api s1 s2" "sys_calls s1 u = None" "sys_calls s2 u = Some (CallJoin name, AtDone r)"
  shows "r \<noteq> None \<and> n_topics (sys_node s2) name = None"
proof -
  have lock: "lock_inv s" "lock_inv s1"
    using lock_inv_reachable [OF run] lock_inv_advance [OF lock_inv_reachable [OF run] call after(1)] after(2) by simp_all
  have "\<forall>m. opened view tname sname m (holder s m) (sys_node s)"
    by (rule topic_invariant.reaches_keeps [OF opened_invariant [OF con] run lock_inv_initial])
      (simp add: opened_def own_handles_def)
  note op = this
  have own: "own_handles tname sname m (holder s1 m) (sys_node s1)" for m
    using topic_invariant.advance_keeps [OF opened_invariant [OF con] lock(1) op call after(1), of m] after(2)
    by (simp add: opened_def)
  have hold: "holder s name = Some (AtSubscribe t)" using holder_own [OF lock(1) call] by simp
  have was: "view (n_lib (sys_node s)) name \<noteq> None" using op [rule_format, of name] hold by (simp add: opened_def)
  have "\<forall>m. paired (holder s m) (n_topics (sys_node s) m) (n_subs (sys_node s) m)"
    by (rule pairing.reaches_keeps [OF run lock_inv_initial]) simp
  then have none: "n_topics (sys_node s) name = None" using hold by (metis paired.simps(2))
  have st': "st' = AtUnlock (Some (WrapError (''subscribe topic '' @ name) e))" "n' = (sys_node s)\<lparr>n_lib := p'\<rparr>"
    using after(1) fails by simp_all
  have "holder s1 name = Some st'"
    using holder_own [OF lock(2), of g "CallJoin name" st'] after(2) st'(1) by simp
  then have "\<forall>m. lost view tname sname name m (holder s1 m) (sys_node s1)"
    using own none was pubsub_contractD(3) [OF con fails] st' after(2) by (simp add: lost_def)
  moreover have "\<not> joined_ok name s1 u" using later(2) by (simp add: joined_ok_def)
  ultimately show ?thesis
    using lost_forever [OF con later(1) lock(2), of name u] later(3) by (cases r) (simp_all add: joined_ok_def)
qed

theorem failed_subscribe_loses_topic_witness:
  "\<exists>s2 e. exec (memory_pubsub True) ([Enter 1 (CallJoin ''t''), Advance 1, Advance 1, Advance 1, Advance 1, Advance 1] @
       [Advance 1, Advance 1, Enter 2 (CallJoin ''t''), Advance 2, Advance 2, Advance 2, Advance 2, Advance 2, Advance 2])
       (initial True Map.empty) = Some s2 \<and> sys_calls s2 2 = Some (CallJoin ''t'', AtDone (Some e))"
proof -
  let ?api = "memory_pubsub True" and ?c = "CallJoin ''t''"
  note eval = initial_def initial_node_def memory_pubsub_def LoadOrStore_lock_def Unlock_node_def acquire_def
  obtain s where s: "exec ?api [Enter 1 ?c, Advance 1, Advance 1, Advance 1, Advance 1, Advance 1] (initial True Map.empty) = Some s"
    "sys_calls s = [1 \<mapsto> (?c, AtSubscribe ''t'')]" "n_lib (sys_node s) = [''t'' \<mapsto> {}]"
    by (simp add: eval)
  let ?n = "(sys_node s)\<lparr>n_lib := n_lib (sys_node s)\<rparr>"
  let ?st = "AtUnlock (Some (WrapError ''subscribe topic t'' (ExternalError ''subscribe''))) :: (string, string) stage"
  let ?s1 = "s\<lparr>sys_node := ?n, sys_calls := (sys_calls s)(1 \<mapsto> (?c, ?st))\<rparr>"
  have fails: "ps_Subscribe ?api ''t'' (n_lib (sys_node s)) = (Inl (ExternalError ''subscribe''), n_lib (sys_node s))"
    using s(3) by (simp add: memory_pubsub_def)
  then have adv: "call_step ?api 1 ?c (AtSubscribe ''t'') (sys_node s) = Some (?st, ?n)" by simp
  have first: "exec ?api (Advance 1 # ms) s = exec ?api ms ?s1" for ms using s(2) fails by simp
  obtain s2 r where s2: "exec ?api [Advance 1, Enter 2 ?c, Advance 2, Advance 2, Advance 2, Advance 2, Advance 2, Advance 2] ?s1 = Some s2"
    "sys_calls s2 2 = Some (?c, AtDone r)"
    using s(1) by (auto simp: eval)
  have "r \<noteq> None"
    using failed_subscribe_loses_topic [OF memory_contract exec_reaches [OF s(1)] _ fails adv refl exec_reaches [OF s2(1)] _ s2(2)] s(2)
    by simp
  moreover have "exec ?api ([Enter 1 ?c, Advance 1, Advance 1, Advance 1, Advance 1, Advance 1] @
      [Advance 1, Advance 1, Enter 2 ?c, Advance 2, Advance 2, Advance 2, Advance 2, Advance 2, Advance 2]) (initial True Map.empty) = Some s2"
    unfolding exec_append [OF s(1)] first by (rule s2(1))
  ultimately show ?thesis using s2(2) by blast
qed

end
