(* ===== verification/Node_Life.thy ===== *)
theory Node_Life
  imports Node_Topics
begin

text \<open>
  A node from \<^verbatim>\<open>New\<close> to \<^verbatim>\<open>Close\<close>, \<^verbatim>\<open>src/node/node.go\<close>, and the routing table filter it installs,
  \<^verbatim>\<open>src/node/filter.go\<close>.  \<open>node_handles\<close> counts what the code has been given and has to give back: the
  host, the DHT and the node's context.  The answers of libp2p are the fields of \<open>node_env\<close>.  Of the
  DHT's options, the mode and the filter vary; the refresh timeout and the address filter, which keeps
  every address, are constants.  \<open>Close_time\<close> is how long the calls that \<^verbatim>\<open>Close\<close> makes into libp2p take.
\<close>

subsection \<open>Routing table filter\<close>

datatype Direction = DirUnknown | DirInbound | DirOutbound

text \<open>A connection: its direction, the limited mark, and the protocol codes of its remote address.\<close>

record Conn =
  c_Direction :: Direction
  c_Limited :: bool
  c_RemoteMultiaddr :: "int list"

text \<open>The callback of \<^verbatim>\<open>ma.ForEach\<close> assigns \<^verbatim>\<open>relayed\<close> and stops the walk when it is set.\<close>

fun relayed_loop :: "int \<Rightarrow> int list \<Rightarrow> bool \<Rightarrow> bool" where
  "relayed_loop P_CIRCUIT [] relayed = relayed"
| "relayed_loop P_CIRCUIT (code # codes) relayed =
     (let relayed = (code = P_CIRCUIT) in if \<not> relayed then relayed_loop P_CIRCUIT codes relayed else relayed)"

definition isDirect :: "int \<Rightarrow> Conn \<Rightarrow> bool" where
  "isDirect P_CIRCUIT c =
     (if c_Limited c then False else \<not> relayed_loop P_CIRCUIT (c_RemoteMultiaddr c) False)"

fun dialable_loop :: "int \<Rightarrow> Conn list \<Rightarrow> bool" where
  "dialable_loop P_CIRCUIT [] = False"
| "dialable_loop P_CIRCUIT (c # conns) =
     (if c_Direction c = DirOutbound \<and> isDirect P_CIRCUIT c then True else dialable_loop P_CIRCUIT conns)"

definition dialableFilter :: "int \<Rightarrow> (peer_id \<Rightarrow> Conn list) \<Rightarrow> peer_id \<Rightarrow> bool" where
  "dialableFilter P_CIRCUIT conns_to p = dialable_loop P_CIRCUIT (conns_to p)"

subsection \<open>Configuration\<close>

text \<open>\<^verbatim>\<open>DHTMode\<close> is an \<^verbatim>\<open>int\<close> that a configuration file can set to anything.\<close>

definition DHTModeServer :: int where [forge_defs]: "DHTModeServer = 0"
definition DHTModeClient :: int where [forge_defs]: "DHTModeClient = 1"
definition DHTModeAuto :: int where [forge_defs]: "DHTModeAuto = 2"

record NodeConfig =
  nc_DHTMode :: int
  nc_BootstrapPeers :: "string list"
  nc_EnablePubSub :: bool

definition Node_DefaultConfig :: NodeConfig where
  "Node_DefaultConfig = \<lparr>nc_DHTMode = DHTModeServer, nc_BootstrapPeers = [], nc_EnablePubSub = True\<rparr>"

datatype ModeOpt = ModeAuto | ModeClient | ModeServer

definition dht_mode :: "NodeConfig \<Rightarrow> ModeOpt" where
  "dht_mode cfg =
     (if nc_DHTMode cfg = DHTModeServer then ModeServer
      else if nc_DHTMode cfg = DHTModeClient then ModeClient
      else if nc_DHTMode cfg = DHTModeAuto then ModeAuto
      else ModeServer)"

subsection \<open>New and Close\<close>

record ('ma, 'ai, 'p) node_env =
  P_CIRCUIT_code :: int
  ConnsToPeer :: "peer_id \<Rightarrow> Conn list"
  dht_New :: "ModeOpt \<Rightarrow> (peer_id \<Rightarrow> bool) \<Rightarrow> go_error option"
  dht_Bootstrap :: "go_error option"
  dht_Close :: "go_error option"
  node_NewMultiaddr :: "string \<Rightarrow> go_error + 'ma"
  node_AddrInfoFromP2pAddr :: "'ma \<Rightarrow> go_error + 'ai"
  h_Connect :: "'ai \<Rightarrow> go_error option"
  NewGossipSub :: "go_error + 'p"
  no_pubsub :: 'p
  h_Close :: "go_error option"
  Close_time :: duration

record 'ai node_handles =
  live_host :: bool
  live_dht :: bool
  live_ctx :: bool
  dialled :: "'ai list"

fun connect_loop :: "('ma, 'ai, 'p) node_env \<Rightarrow> string list \<Rightarrow> 'ai node_handles \<Rightarrow> 'ai node_handles" where
  "connect_loop env [] hs = hs"
| "connect_loop env (peerAddr # peers) hs =
     (case node_NewMultiaddr env peerAddr of
        Inl e \<Rightarrow> connect_loop env peers hs
      | Inr maddr \<Rightarrow>
          (case node_AddrInfoFromP2pAddr env maddr of
             Inl e \<Rightarrow> connect_loop env peers hs
           | Inr info \<Rightarrow>
               (case h_Connect env info of
                  Some e \<Rightarrow> connect_loop env peers hs
                | None \<Rightarrow> connect_loop env peers (hs\<lparr>dialled := dialled hs @ [info]\<rparr>))))"

definition New ::
  "('ma, 'ai, 'p) node_env \<Rightarrow> NodeConfig \<Rightarrow> 'ai node_handles \<Rightarrow> (go_error + ('t, 'b, 'p) Node) \<times> 'ai node_handles" where
  "New env cfg hs =
     (let hs = hs\<lparr>live_ctx := True\<rparr> in
      case dht_New env (dht_mode cfg) (dialableFilter (P_CIRCUIT_code env) (ConnsToPeer env)) of
        Some e \<Rightarrow> (Inl (WrapError ''create dht'' e), hs\<lparr>live_ctx := False\<rparr>)
      | None \<Rightarrow>
          let hs = hs\<lparr>live_dht := True\<rparr> in
          (case dht_Bootstrap env of
             Some e \<Rightarrow> (Inl (WrapError ''bootstrap dht'' e), hs\<lparr>live_dht := False, live_ctx := False\<rparr>)
           | None \<Rightarrow>
               let hs = connect_loop env (nc_BootstrapPeers cfg) hs in
               if nc_EnablePubSub cfg then
                 (case NewGossipSub env of
                    Inl e \<Rightarrow> (Inl (WrapError ''create gossipsub'' e), hs\<lparr>live_dht := False, live_ctx := False\<rparr>)
                  | Inr ps \<Rightarrow> (Inr (initial_node True ps), hs))
               else (Inr (initial_node False (no_pubsub env)), hs)))"

text \<open>
  \<^verbatim>\<open>Close\<close>, with the orders in which \<^verbatim>\<open>Range\<close> visits the two maps.  \<^verbatim>\<open>n.cancel()\<close> comes first: it cancels the
  context that \<^verbatim>\<open>NewGossipSub\<close> was given, so the library may answer the calls of the two loops with the
  context's error and do nothing.  The code ignores what they return.
\<close>

definition cancel_all :: "('t, 'b, 'p) pubsub_api \<Rightarrow> string list \<Rightarrow> ('t, 'b, 'p) Node \<Rightarrow> ('t, 'b, 'p) Node" where
  "cancel_all api order n =
     n\<lparr>n_lib := fold (\<lambda>k p. case n_subs n k of Some sub \<Rightarrow> ps_Cancel api sub p | None \<Rightarrow> p) order (n_lib n)\<rparr>"

definition close_all :: "('t, 'b, 'p) pubsub_api \<Rightarrow> string list \<Rightarrow> ('t, 'b, 'p) Node \<Rightarrow> ('t, 'b, 'p) Node" where
  "close_all api order n =
     n\<lparr>n_lib := fold (\<lambda>k p. case n_topics n k of Some topic \<Rightarrow> snd (ps_Close api topic p) | None \<Rightarrow> p) order (n_lib n)\<rparr>"

definition node_cancel ::
  "('t, 'b, 'p) pubsub_api \<Rightarrow> ('t, 'b, 'p) Node \<Rightarrow> 'ai node_handles \<Rightarrow> ('t, 'b, 'p) Node \<times> 'ai node_handles" where
  "node_cancel api n hs = (n\<lparr>n_lib := ps_ContextDone api (n_lib n)\<rparr>, hs\<lparr>live_ctx := False\<rparr>)"

definition node_release ::
  "('ma, 'ai, 'p) node_env \<Rightarrow> ('t, 'b, 'p) pubsub_api \<Rightarrow> string list \<Rightarrow> string list \<Rightarrow> ('t, 'b, 'p) Node \<Rightarrow> 'ai node_handles \<Rightarrow>
   go_error option \<times> ('t, 'b, 'p) Node \<times> 'ai node_handles" where
  "node_release env api subs_order topics_order n hs =
     (let n = cancel_all api subs_order n;
          n = close_all api topics_order n;
          hs = hs\<lparr>live_dht := False\<rparr>
      in (h_Close env, n, hs\<lparr>live_host := False\<rparr>))"

definition Node_Close ::
  "('ma, 'ai, 'p) node_env \<Rightarrow> ('t, 'b, 'p) pubsub_api \<Rightarrow> string list \<Rightarrow> string list \<Rightarrow> ('t, 'b, 'p) Node \<Rightarrow> 'ai node_handles \<Rightarrow>
   go_error option \<times> ('t, 'b, 'p) Node \<times> 'ai node_handles" where
  "Node_Close env api subs_order topics_order n hs =
     (case node_cancel api n hs of (n, hs) \<Rightarrow> node_release env api subs_order topics_order n hs)"

text \<open>
  The accessors and the status line.  \<open>host\<close> and \<open>dht\<close> are the libp2p values the node was made with;
  \<open>rtPeers\<close>, \<open>rtSize\<close>, \<open>connected\<close> and \<open>known\<close> are the peers and the size of the routing table, the
  peers of the network and of the peerstore.
\<close>

definition Node_Host :: "'h \<Rightarrow> ('t, 'b, 'p) Node \<Rightarrow> 'h" where "Node_Host host n = host"
definition Node_PeerID :: "('h \<Rightarrow> peer_id) \<Rightarrow> 'h \<Rightarrow> ('t, 'b, 'p) Node \<Rightarrow> peer_id" where
  "Node_PeerID host_ID host n = host_ID (Node_Host host n)"
definition Node_Addrs :: "('h \<Rightarrow> 'ma list) \<Rightarrow> 'h \<Rightarrow> ('t, 'b, 'p) Node \<Rightarrow> 'ma list" where
  "Node_Addrs host_Addrs host n = host_Addrs (Node_Host host n)"
definition Node_DHT :: "'d \<Rightarrow> ('t, 'b, 'p) Node \<Rightarrow> 'd" where "Node_DHT dht n = dht"
definition Node_PubSub :: "('t, 'b, 'p) Node \<Rightarrow> 'p option" where
  "Node_PubSub n = (if n_pubsub n then Some (n_lib n) else None)"

record dht_status =
  routing_table_size :: nat
  routing_table_peers :: "string list"
  connected_peers :: nat
  peerstore_peers :: nat

definition LogDHTStatus :: "(peer_id \<Rightarrow> string) \<Rightarrow> peer_id list \<Rightarrow> nat \<Rightarrow> peer_id list \<Rightarrow> peer_id list \<Rightarrow> dht_status" where
  "LogDHTStatus str rtPeers rtSize connected known =
     \<lparr>routing_table_size = rtSize, routing_table_peers = map str rtPeers, connected_peers = length connected,
      peerstore_peers = length known\<rparr>"

subsection \<open>Facts\<close>

lemma relayed_loop_iff: "relayed_loop pc codes r \<longleftrightarrow> (if codes = [] then r else pc \<in> set codes)"
  by (induction codes arbitrary: r) (auto simp: Let_def)

lemma isDirect_iff: "isDirect pc c \<longleftrightarrow> \<not> c_Limited c \<and> pc \<notin> set (c_RemoteMultiaddr c)"
  by (auto simp: isDirect_def relayed_loop_iff)

lemma dialable_loop_iff: "dialable_loop pc conns \<longleftrightarrow> (\<exists>c \<in> set conns. c_Direction c = DirOutbound \<and> isDirect pc c)"
  by (induction conns) auto

lemma connect_loop_handles [simp]:
  "live_host (connect_loop env ps hs) = live_host hs" "live_dht (connect_loop env ps hs) = live_dht hs"
  "live_ctx (connect_loop env ps hs) = live_ctx hs"
  by (induction env ps hs rule: connect_loop.induct) (simp_all split: sum.split option.split)

text \<open>A \<^verbatim>\<open>New\<close> that fails gives back all it took; the host stays with the caller.\<close>

lemma New_handles:
  assumes "New env cfg hs = (r, hs')" "\<not> live_dht hs" "\<not> live_ctx hs"
  shows "live_host hs' = live_host hs \<and>
    (case r of Inl e \<Rightarrow> \<not> live_dht hs' \<and> \<not> live_ctx hs' | Inr n \<Rightarrow> live_dht hs' \<and> live_ctx hs')"
  using assms by (auto simp: New_def Let_def split: option.splits sum.splits if_splits)

lemma Node_Close_handles:
  "Node_Close env api so to n hs = (r, n', hs') \<Longrightarrow> \<not> live_host hs' \<and> \<not> live_dht hs' \<and> \<not> live_ctx hs'"
  by (auto simp: Node_Close_def node_cancel_def node_release_def Let_def)

subsection \<open>Properties\<close>

text \<open>
  The routing table admits exactly the dialable peers: a peer passes the filter if and only if some
  connection to it was opened by this host, is not marked limited, and has no circuit component
  anywhere in its remote address.
\<close>

lemma dialableFilter_iff:
  "dialableFilter P_CIRCUIT conns_to p \<longleftrightarrow>
     (\<exists>c \<in> set (conns_to p). c_Direction c = DirOutbound \<and> \<not> c_Limited c \<and> P_CIRCUIT \<notin> set (c_RemoteMultiaddr c))"
  by (simp add: dialableFilter_def dialable_loop_iff isDirect_iff)

end
