(* ===== verification/Server.thy ===== *)
theory Server
  imports Pipeline Services Host Identity Node_Life
begin

text \<open>
  The server, \<^verbatim>\<open>src/forge.go\<close>, and its configuration, \<^verbatim>\<open>src/config.go\<close>: the options, \<^verbatim>\<open>Start\<close> with its
  cleanup on every failing path, \<^verbatim>\<open>Stop\<close> with the drain of active streams, outbound streams and
  connection callbacks.  A \<open>deployment\<close> is what lives outside the \<^verbatim>\<open>Server\<close> value: files, host, node
  context, the handlers the host dispatches to, the state of the background services.
\<close>

subsection \<open>Configuration\<close>

record 'gt Config =
  cfg_Host :: "'gt HostConfig"
  cfg_Node :: NodeConfig
  cfg_IdentityFile :: string
  cfg_DataDirectory :: string
  cfg_RateLimitWindow :: duration
  cfg_MaxRequestsPerWindow :: int
  cfg_ShutdownTimeout :: duration

definition DefaultConfig :: "'gt Config" where
  "DefaultConfig =
     \<lparr>cfg_Host = Host_DefaultConfig, cfg_Node = Node_DefaultConfig, cfg_IdentityFile = [],
      cfg_DataDirectory = ''./data'', cfg_RateLimitWindow = Minute, cfg_MaxRequestsPerWindow = 100,
      cfg_ShutdownTimeout = 5 * Second\<rparr>"

definition Validate :: "'gt Config \<Rightarrow> go_error option" where
  "Validate c =
     (if h_Port (cfg_Host c) < 0 \<or> h_Port (cfg_Host c) > 65535
      then Some (ErrorString (''invalid port: '' @ dec_int (h_Port (cfg_Host c))))
      else if cfg_MaxRequestsPerWindow c \<le> 0 then Some (ErrorString ''max_requests_per_window must be positive'')
      else if h_EnableAutoRelay (cfg_Host c) \<and> \<not> h_EnableRelay (cfg_Host c)
      then Some (ErrorString ''enable_auto_relay requires enable_relay'')
      else if h_EnableHolePunching (cfg_Host c) \<and> \<not> h_EnableRelay (cfg_Host c)
      then Some (ErrorString ''enable_hole_punching requires enable_relay'')
      else if h_EnableRelayService (cfg_Host c) \<and> \<not> h_EnableRelay (cfg_Host c)
      then Some (ErrorString ''enable_relay_service requires enable_relay'')
      else None)"

type_synonym 'gt Preset = "'gt Config \<Rightarrow> 'gt Config"

definition DevelopmentPreset :: "'gt Preset" where
  "DevelopmentPreset cfg = cfg\<lparr>cfg_RateLimitWindow := Minute, cfg_MaxRequestsPerWindow := 1000\<rparr>"

definition ProductionPreset :: "'gt Preset" where
  "ProductionPreset cfg = cfg\<lparr>cfg_RateLimitWindow := Minute, cfg_MaxRequestsPerWindow := 100\<rparr>"

text \<open>
  \<open>read_file\<close> is \<^verbatim>\<open>os.ReadFile\<close>; \<open>yaml_Unmarshal\<close> decodes onto the value it is given, which may have
  changed even when it fails.
\<close>

definition LoadConfigFromFile ::
  "(string \<Rightarrow> go_error + byte list) \<Rightarrow> (byte list \<Rightarrow> 'gt Config \<Rightarrow> go_error option \<times> 'gt Config) \<Rightarrow>
   string \<Rightarrow> 'gt Config \<Rightarrow> go_error option \<times> 'gt Config" where
  "LoadConfigFromFile read_file yaml_Unmarshal path base =
     (case read_file path of
        Inl e \<Rightarrow> (Some (WrapError ''read config file'' e), base)
      | Inr d \<Rightarrow>
          (case yaml_Unmarshal d base of
             (Some e, base') \<Rightarrow> (Some (WrapError ''parse config file'' e), base')
           | (None, base') \<Rightarrow> (None, base')))"

subsection \<open>The server and its options\<close>

text \<open>
  \<open>'cb\<close> is a connection callback, \<open>'hd\<close> a stream handler, \<open>'w\<close> the state of the services,
  \<open>'mt\<close> a metrics collector (\<^const>\<open>None\<close>: \<^verbatim>\<open>NoopMetrics\<close>).  A logger is an opaque handle (\<^const>\<open>None\<close>:
  \<^verbatim>\<open>slog.Default()\<close>); what is written to it is left out.
\<close>

record ('gt, 'k, 'tr, 't, 'b, 'p, 'w, 'hd, 'cb, 'v, 'i, 'mt) Server =
  srv_config :: "'gt Config"
  srv_logger :: "nat option"
  srv_identity :: "'k option"
  srv_host :: bool
  srv_node :: "('t, 'b, 'p) Node option"
  srv_lifecycle :: "'w Lifecycle"
  srv_handlers :: "string \<rightharpoonup> 'hd"
  srv_transports :: "'tr list"
  srv_registry :: "('v, 'i) Registry"
  srv_onConnected :: "'cb list"
  srv_onDisconnected :: "'cb list"
  srv_activeStreams :: int
  srv_metrics :: "'mt option"

definition initial_server :: "('gt, 'k, 'tr, 't, 'b, 'p, 'w, 'hd, 'cb, 'v, 'i, 'mt) Server" where
  "initial_server =
     \<lparr>srv_config = DefaultConfig, srv_logger = None, srv_identity = None, srv_host = False, srv_node = None,
      srv_lifecycle = NewLifecycle, srv_handlers = Map.empty, srv_transports = [], srv_registry = NewRegistry,
      srv_onConnected = [], srv_onDisconnected = [], srv_activeStreams = 0, srv_metrics = None\<rparr>"

text \<open>The options run in order on the defaults; the lifecycle is made after them.\<close>

definition NewServer ::
  "(('gt, 'k, 'tr, 't, 'b, 'p, 'w, 'hd, 'cb, 'v, 'i, 'mt) Server \<Rightarrow> ('gt, 'k, 'tr, 't, 'b, 'p, 'w, 'hd, 'cb, 'v, 'i, 'mt) Server) list \<Rightarrow>
   ('gt, 'k, 'tr, 't, 'b, 'p, 'w, 'hd, 'cb, 'v, 'i, 'mt) Server" where
  "NewServer opts = (fold (\<lambda>opt s. opt s) opts initial_server)\<lparr>srv_lifecycle := NewLifecycle\<rparr>"

definition WithConfig where "WithConfig cfg s = s\<lparr>srv_config := cfg\<rparr>"
definition WithLogger where "WithLogger logger s = s\<lparr>srv_logger := Some logger\<rparr>"
definition WithIdentity where "WithIdentity priv s = s\<lparr>srv_identity := Some priv\<rparr>"
definition WithPort where
  "WithPort port s = s\<lparr>srv_config := (srv_config s)\<lparr>cfg_Host := (cfg_Host (srv_config s))\<lparr>h_Port := port\<rparr>\<rparr>\<rparr>"
definition WithListenAddrs where
  "WithListenAddrs addrs s =
     s\<lparr>srv_config := (srv_config s)\<lparr>cfg_Host := (cfg_Host (srv_config s))\<lparr>h_ListenAddresses := addrs\<rparr>\<rparr>\<rparr>"
definition WithBootstrapPeers where
  "WithBootstrapPeers peers s =
     s\<lparr>srv_config := (srv_config s)\<lparr>cfg_Node := (cfg_Node (srv_config s))\<lparr>nc_BootstrapPeers := peers\<rparr>\<rparr>\<rparr>"
definition WithTransport where "WithTransport t s = s\<lparr>srv_transports := srv_transports s @ [t]\<rparr>"
definition WithPreset where "WithPreset preset s = s\<lparr>srv_config := preset (srv_config s)\<rparr>"
definition WithMetrics where "WithMetrics m s = s\<lparr>srv_metrics := Some m\<rparr>"
definition Metrics where "Metrics s = srv_metrics s"
definition WithShutdownTimeout where
  "WithShutdownTimeout d s = s\<lparr>srv_config := (srv_config s)\<lparr>cfg_ShutdownTimeout := d\<rparr>\<rparr>"
definition OnPeerConnected where "OnPeerConnected fn s = s\<lparr>srv_onConnected := srv_onConnected s @ [fn]\<rparr>"
definition OnPeerDisconnected where "OnPeerDisconnected fn s = s\<lparr>srv_onDisconnected := srv_onDisconnected s @ [fn]\<rparr>"
definition Handle where "Handle proto handler s = s\<lparr>srv_handlers := (srv_handlers s)(proto \<mapsto> handler)\<rparr>"
definition AddService where "AddService svc s = s\<lparr>srv_lifecycle := Register svc (srv_lifecycle s)\<rparr>"

text \<open>\<^verbatim>\<open>Provide\<close> panics (\<^const>\<open>None\<close>) on a duplicate key.\<close>

definition Server_Provide where
  "Server_Provide key val s =
     (case Provide key val (srv_registry s) of None \<Rightarrow> None | Some r \<Rightarrow> Some (s\<lparr>srv_registry := r\<rparr>))"

text \<open>The accessors; the host itself is outside the model, \<open>host\<close> is the value \<^verbatim>\<open>Create\<close> returned.\<close>

definition Server_ActiveStreams where "Server_ActiveStreams s = srv_activeStreams s"
definition Server_Registry where "Server_Registry s = srv_registry s"
definition Server_Host where "Server_Host host s = (if srv_host s then Some host else None)"
definition Server_Node where "Server_Node s = srv_node s"

subsection \<open>Start\<close>

record ('f, 'ai, 'hd, 'w) deployment =
  d_files :: 'f
  d_mgr :: bool
  d_node :: "'ai node_handles"
  d_handlers :: "string \<rightharpoonup> 'hd"
  d_notify :: bool
  d_services :: 'w

record ('k, 'f, 'gt, 'tr, 'ma, 'ai, 't, 'b, 'p) server_env =
  e_identity :: "('k, 'f) identity_env"
  e_host :: "('k, 'gt, 'tr, 'ma, 'ai) host_env"
  e_node :: "('ma, 'ai, 'p) node_env"
  e_pubsub :: "('t, 'b, 'p) pubsub_api"

definition identity_path :: "'gt Config \<Rightarrow> string" where
  "identity_path cfg = (if cfg_IdentityFile cfg \<noteq> [] then cfg_IdentityFile cfg else cfg_DataDirectory cfg @ ''/peer_identity.key'')"

definition server_identity ::
  "('k, 'f, 'gt, 'tr, 'ma, 'ai, 't, 'b, 'p) server_env \<Rightarrow> ('gt, 'k, 'tr, 't, 'b, 'p, 'w, 'hd, 'cb, 'v, 'i, 'mt) Server \<Rightarrow> 'f \<Rightarrow>
   (go_error + 'k) \<times> 'f" where
  "server_identity env s f =
     (case srv_identity s of
        Some priv \<Rightarrow> (Inr priv, f)
      | None \<Rightarrow> LoadOrCreateIdentity (e_identity env) (identity_path (srv_config s)) f)"

text \<open>
  The rest of \<^verbatim>\<open>Start\<close> once the host is there: hooks, node, handlers, services.  When a service fails to
  start, the node is closed; it has joined no topic yet, so the loops of \<^verbatim>\<open>Close\<close> visit nothing.
\<close>

definition notify_hooks ::
  "('gt, 'k, 'tr, 't, 'b, 'p, 'w, 'hd, 'cb, 'v, 'i, 'mt) Server \<Rightarrow> ('f, 'ai, 'hd, 'w) deployment \<Rightarrow> ('f, 'ai, 'hd, 'w) deployment" where
  "notify_hooks s d = (if srv_onConnected s \<noteq> [] \<or> srv_onDisconnected s \<noteq> [] then d\<lparr>d_notify := True\<rparr> else d)"

definition start_on_host ::
  "('k, 'f, 'gt, 'tr, 'ma, 'ai, 't, 'b, 'p) server_env \<Rightarrow> ('gt, 'k, 'tr, 't, 'b, 'p, 'w, 'hd, 'cb, 'v, 'i, 'mt) Server \<Rightarrow>
   ('f, 'ai, 'hd, 'w) deployment \<Rightarrow>
   go_error option \<times> ('gt, 'k, 'tr, 't, 'b, 'p, 'w, 'hd, 'cb, 'v, 'i, 'mt) Server \<times> ('f, 'ai, 'hd, 'w) deployment" where
  "start_on_host env s d =
     (let d = notify_hooks s d in
      case New (e_node env) (cfg_Node (srv_config s)) (d_node d) of
        (Inl e, hs) \<Rightarrow> (Some (WrapError ''create node'' e), s, d\<lparr>d_node := hs\<lparr>live_host := False\<rparr>\<rparr>)
      | (Inr n, hs) \<Rightarrow>
          let s = s\<lparr>srv_node := Some n\<rparr>;
              d = d\<lparr>d_node := hs, d_handlers := d_handlers d ++ srv_handlers s\<rparr> in
          (case StartAll (srv_lifecycle s) (d_services d) of
             (Some e, w) \<Rightarrow>
               (case Node_Close (e_node env) (e_pubsub env) [] [] n (d_node d) of
                  (_, n', hs') \<Rightarrow>
                    (Some (WrapError ''start services'' e), s\<lparr>srv_node := Some n'\<rparr>, d\<lparr>d_services := w, d_node := hs'\<rparr>))
           | (None, w) \<Rightarrow> (None, s, d\<lparr>d_services := w\<rparr>)))"

definition Start ::
  "('k, 'f, 'gt, 'tr, 'ma, 'ai, 't, 'b, 'p) server_env \<Rightarrow> ('gt, 'k, 'tr, 't, 'b, 'p, 'w, 'hd, 'cb, 'v, 'i, 'mt) Server \<Rightarrow>
   ('f, 'ai, 'hd, 'w) deployment \<Rightarrow>
   go_error option \<times> ('gt, 'k, 'tr, 't, 'b, 'p, 'w, 'hd, 'cb, 'v, 'i, 'mt) Server \<times> ('f, 'ai, 'hd, 'w) deployment" where
  "Start env s d =
     (case Validate (srv_config s) of
        Some e \<Rightarrow> (Some (WrapError ''invalid config'' e), s, d)
      | None \<Rightarrow>
          (case server_identity env s (d_files d) of
             (Inl e, f) \<Rightarrow> (Some (WrapError ''load identity'' e), s, d\<lparr>d_files := f\<rparr>)
           | (Inr priv, f) \<Rightarrow>
               let s = s\<lparr>srv_identity := Some priv\<rparr>; d = d\<lparr>d_files := f\<rparr> in
               (case Create (e_host env) (cfg_Host (srv_config s)) priv (srv_transports s)
                       \<lparr>open_mgr = d_mgr d, open_host = live_host (d_node d)\<rparr> of
                  (Some e, hh) \<Rightarrow> (Some (WrapError ''create host'' e), s, d\<lparr>d_mgr := open_mgr hh\<rparr>)
                | (None, hh) \<Rightarrow>
                    start_on_host env (s\<lparr>srv_host := True\<rparr>)
                      (d\<lparr>d_mgr := open_mgr hh, d_node := (d_node d)\<lparr>live_host := open_host hh\<rparr>\<rparr>))))"

subsection \<open>Stop\<close>

text \<open>
  The drain: each active stream ends at some instant or never.  \<^verbatim>\<open>Stop\<close> goes on at the last of them, or
  when the timeout has passed; the flag says whether all streams had ended.  Then time passes while the
  services stop one after the other and while the node closes.
\<close>

definition all_end :: "time option list \<Rightarrow> time \<Rightarrow> bool" where
  "all_end ends t \<longleftrightarrow> (\<forall>e \<in> set ends. case e of None \<Rightarrow> False | Some u \<Rightarrow> u \<le> t)"

definition last_end :: "time \<Rightarrow> time option list \<Rightarrow> time" where
  "last_end now ends = fold (\<lambda>e t. case e of Some u \<Rightarrow> max u t | None \<Rightarrow> t) ends now"

definition drain :: "duration \<Rightarrow> time option list \<Rightarrow> time \<Rightarrow> time \<times> bool" where
  "drain timeout ends now =
     (if timeout \<le> 0 then (now, all_end ends now)
      else if all_end ends (now + timeout) then (last_end now ends, True)
      else (now + timeout, False))"

definition Stop ::
  "('k, 'f, 'gt, 'tr, 'ma, 'ai, 't, 'b, 'p) server_env \<Rightarrow> time option list \<Rightarrow> time \<Rightarrow> string list \<Rightarrow> string list \<Rightarrow>
   ('gt, 'k, 'tr, 't, 'b, 'p, 'w, 'hd, 'cb, 'v, 'i, 'mt) Server \<Rightarrow> ('f, 'ai, 'hd, 'w) deployment \<Rightarrow>
   (go_error option \<times> time \<times> ('gt, 'k, 'tr, 't, 'b, 'p, 'w, 'hd, 'cb, 'v, 'i, 'mt) Server \<times> ('f, 'ai, 'hd, 'w) deployment) outcome" where
  "Stop env ends now so to s d =
     (if \<not> srv_host s \<and> dom (srv_handlers s) \<noteq> {}
      then Panicked ''nil pointer dereference'' (None, now, s, d)
      else
        let d = d\<lparr>d_handlers := d_handlers d |` (- dom (srv_handlers s))\<rparr>;
            now = fst (drain (cfg_ShutdownTimeout (srv_config s)) ends now);
            now = now + StopAll_time (srv_lifecycle s) (d_services d);
            d = d\<lparr>d_services := snd (StopAll (srv_lifecycle s) (d_services d))\<rparr>
        in case srv_node s of
             None \<Rightarrow> Returned (None, now, s, d)
           | Some n \<Rightarrow>
               (case Node_Close (e_node env) (e_pubsub env) so to n (d_node d) of
                  (_, n', hs') \<Rightarrow>
                    Returned (None, now + max 0 (Close_time (e_node env)), s\<lparr>srv_node := Some n'\<rparr>, d\<lparr>d_node := hs'\<rparr>)))"

text \<open>
  \<^verbatim>\<open>ListenAndServe\<close>: \<open>started\<close> is the instant \<^verbatim>\<open>Start\<close> returns, \<open>until\<close> the one at which the context is
  cancelled, which may be earlier (the calls of \<^verbatim>\<open>Start\<close> that see it answer with an error, or \<^verbatim>\<open>Start\<close> gets
  through); \<open>meanwhile\<close> is what has happened to the running server when \<^verbatim>\<open>Stop\<close> begins: topic calls on
  its node, the work of its services, and what the cancellation did to contexts made from this one.
\<close>

definition ListenAndServe ::
  "('k, 'f, 'gt, 'tr, 'ma, 'ai, 't, 'b, 'p) server_env \<Rightarrow> time option list \<Rightarrow> time \<Rightarrow> time \<Rightarrow> string list \<Rightarrow> string list \<Rightarrow>
   (('gt, 'k, 'tr, 't, 'b, 'p, 'w, 'hd, 'cb, 'v, 'i, 'mt) Server \<times> ('f, 'ai, 'hd, 'w) deployment \<Rightarrow>
    ('gt, 'k, 'tr, 't, 'b, 'p, 'w, 'hd, 'cb, 'v, 'i, 'mt) Server \<times> ('f, 'ai, 'hd, 'w) deployment) \<Rightarrow>
   ('gt, 'k, 'tr, 't, 'b, 'p, 'w, 'hd, 'cb, 'v, 'i, 'mt) Server \<Rightarrow> ('f, 'ai, 'hd, 'w) deployment \<Rightarrow>
   (go_error option \<times> time \<times> ('gt, 'k, 'tr, 't, 'b, 'p, 'w, 'hd, 'cb, 'v, 'i, 'mt) Server \<times> ('f, 'ai, 'hd, 'w) deployment) outcome" where
  "ListenAndServe env ends started until so to meanwhile s d =
     (case Start env s d of
        (Some e, s, d) \<Rightarrow> Returned (Some e, started, s, d)
      | (None, s, d) \<Rightarrow> (case meanwhile (s, d) of (s, d) \<Rightarrow> Stop env ends (max started until) so to s d))"

subsection \<open>Streams and callbacks\<close>

definition PeerID :: "peer_id \<Rightarrow> ('gt, 'k, 'tr, 't, 'b, 'p, 'w, 'hd, 'cb, 'v, 'i, 'mt) Server \<Rightarrow> peer_id" where
  "PeerID host_ID s = (if \<not> srv_host s then [] else host_ID)"

definition OpenStream ::
  "(peer_id \<Rightarrow> string \<Rightarrow> go_error + 's) \<Rightarrow> time option \<Rightarrow> peer_id \<Rightarrow> string \<Rightarrow>
   ('gt, 'k, 'tr, 't, 'b, 'p, 'w, 'hd, 'cb, 'v, 'i, 'mt) Server \<Rightarrow> go_error + ('s, 'v, 'i) StreamContext" where
  "OpenStream NewStream ctx peerID proto s =
     (if \<not> srv_host s then Inl ErrServerNotStarted
      else case NewStream peerID proto of
        Inl e \<Rightarrow> Inl (WrapError (''open stream to '' @ peerID) e)
      | Inr stream \<Rightarrow> Inr
          \<lparr>sc_Ctx = ctx, sc_Stream = stream, sc_PeerID = peerID, sc_RawBytes = None, sc_Request = None,
           sc_Response = None, sc_Err = None, sc_PoolBuf = None, sc_Registry = None, sc_IdleTimeout = 0,
           sc_values = None\<rparr>)"

definition safeCallback :: "(peer_id \<Rightarrow> 'g \<Rightarrow> 'g outcome) \<Rightarrow> peer_id \<Rightarrow> 'g \<Rightarrow> 'g outcome" where
  "safeCallback fn pid g = (case fn pid g of Panicked v g' \<Rightarrow> Returned g' | r \<Rightarrow> r)"

text \<open>
  A connection event starts one goroutine per callback; \<open>order\<close> is the order in which they get to run.
\<close>

fun run_callbacks :: "(peer_id \<Rightarrow> 'g \<Rightarrow> 'g outcome) list \<Rightarrow> nat list \<Rightarrow> peer_id \<Rightarrow> 'g \<Rightarrow> 'g outcome" where
  "run_callbacks fns [] pid g = Returned g"
| "run_callbacks fns (i # is) pid g = outcome_bind (safeCallback (fns ! i) pid g) (\<lambda>g. run_callbacks fns is pid g)"

subsection \<open>Facts\<close>

lemma Validate_iff:
  "Validate c = None \<longleftrightarrow>
     0 \<le> h_Port (cfg_Host c) \<and> h_Port (cfg_Host c) \<le> 65535 \<and> 0 < cfg_MaxRequestsPerWindow c \<and>
     (h_EnableRelay (cfg_Host c) \<or>
        \<not> h_EnableAutoRelay (cfg_Host c) \<and> \<not> h_EnableHolePunching (cfg_Host c) \<and> \<not> h_EnableRelayService (cfg_Host c))"
  by (auto simp: Validate_def)

lemma DefaultConfig_valid:
  "Validate DefaultConfig = None" "Validate (DevelopmentPreset DefaultConfig) = None" "Validate (ProductionPreset DefaultConfig) = None"
  by (simp_all add: Validate_def DefaultConfig_def Host_DefaultConfig_def DevelopmentPreset_def ProductionPreset_def)

lemma last_end_bounds:
  "now \<le> last_end now ends" "all_end ends t \<Longrightarrow> now \<le> t \<Longrightarrow> last_end now ends \<le> t"
  "all_end ends t \<Longrightarrow> all_end ends (last_end now ends)"
proof -
  have up: "now \<le> last_end now ends \<and> (\<forall>u. Some u \<in> set ends \<longrightarrow> u \<le> last_end now ends)" for now ends
  proof (induction ends arbitrary: now)
    case (Cons e ends)
    show ?case using Cons.IH [of "case e of Some u \<Rightarrow> max u now | None \<Rightarrow> now"]
      by (auto simp: last_end_def split: option.splits)
  qed (simp add: last_end_def)
  then show "now \<le> last_end now ends" by blast
  show "all_end ends t \<Longrightarrow> all_end ends (last_end now ends)"
    using up [of now ends] by (auto simp: all_end_def split: option.splits)
  show "all_end ends t \<Longrightarrow> now \<le> t \<Longrightarrow> last_end now ends \<le> t"
    by (induction ends arbitrary: now) (auto simp: last_end_def all_end_def split: option.splits)
qed

lemma drain_bounds:
  assumes "drain timeout ends now = (t, ok)"
  shows "now \<le> t" "t \<le> now + max 0 timeout" "ok \<longleftrightarrow> all_end ends (now + max 0 timeout)" "ok \<longrightarrow> all_end ends t"
  using assms last_end_bounds(1) [of now ends] last_end_bounds(2,3) [of ends "now + timeout" now]
  by (auto simp: drain_def split: if_splits)

lemma all_end_mono: "all_end ends t \<Longrightarrow> t \<le> u \<Longrightarrow> all_end ends u"
  by (fastforce simp: all_end_def split: option.splits)

lemma notify_hooks_fields [simp]:
  "d_mgr (notify_hooks s d) = d_mgr d" "d_services (notify_hooks s d) = d_services d"
  "d_node (notify_hooks s d) = d_node d" "d_handlers (notify_hooks s d) = d_handlers d"
  by (simp_all add: notify_hooks_def)

lemma start_on_host_result:
  fixes s :: "('gt, 'k, 'tr, 't, 'b, 'p, nat \<Rightarrow> 'q background, 'hd, 'cb, 'v, 'i, 'mt) Server"
  assumes "start_on_host env s d = (err, s', d')"
    and members: "srv_lifecycle s = members listen shutdown n"
    and down: "\<forall>i < n. \<not> background_up (d_services d i)"
    and fresh: "live_host (d_node d)" "\<not> live_dht (d_node d)" "\<not> live_ctx (d_node d)"
  shows "d_mgr d' = d_mgr d \<and>
    (if err = None
     then live_host (d_node d') \<and> live_dht (d_node d') \<and> live_ctx (d_node d') \<and> (\<forall>i < n. background_up (d_services d' i)) \<and>
       (\<forall>proto hd. srv_handlers s proto = Some hd \<longrightarrow> d_handlers d' proto = Some hd) \<and> srv_node s' \<noteq> None
     else \<not> live_host (d_node d') \<and> \<not> live_dht (d_node d') \<and> \<not> live_ctx (d_node d') \<and> (\<forall>i < n. \<not> background_up (d_services d' i)))"
proof -
  obtain r :: "go_error + ('t, 'b, 'p) Node" and hs where new: "New (e_node env) (cfg_Node (srv_config s)) (d_node d) = (r, hs)" by fastforce
  note hs = New_handles [OF new fresh(2,3)]
  show ?thesis
  proof (cases r)
    case (Inl e)
    then show ?thesis using assms(1) new hs down by (auto simp: start_on_host_def Let_def)
  next
    case (Inr n0)
    obtain e w where w: "StartAll (members listen shutdown n) (d_services d) = (e, w)" by fastforce
    note up = StartAll_members [OF down w]
    show ?thesis
    proof (cases e)
      case None
      then show ?thesis using assms(1) new hs up Inr w members fresh(1)
        by (auto simp: start_on_host_def Let_def map_add_def split: option.splits)
    next
      case (Some x)
      obtain r' n' hs' where cl: "Node_Close (e_node env) (e_pubsub env) [] [] n0 hs = (r', n', hs')"
        by (cases "Node_Close (e_node env) (e_pubsub env) [] [] n0 hs") auto
      show ?thesis using assms(1) new Inr w members Some up cl Node_Close_handles [OF cl]
        by (auto simp: start_on_host_def Let_def)
    qed
  qed
qed

text \<open>A panicking connection callback does not keep the others from running, in whatever order they run.\<close>

lemma run_callbacks_total:
  assumes "\<forall>fn \<in> set fns. \<forall>g. fn pid g \<noteq> Diverged" "set is \<subseteq> {..<length fns}"
  shows "\<exists>g'. run_callbacks fns is pid g = Returned g'"
  using assms(2)
proof (induction "is" arbitrary: g)
  case (Cons i "is")
  then have "fns ! i \<in> set fns" by simp
  with assms(1) have "(fns ! i) pid g \<noteq> Diverged" by blast
  then obtain g' where "safeCallback (fns ! i) pid g = Returned g'"
    by (cases "(fns ! i) pid g") (auto simp: safeCallback_def)
  with Cons show ?case by simp
qed simp

text \<open>A sequence of \<^verbatim>\<open>Provide\<close> calls; a panic ends it.\<close>

fun provide_services where
  "provide_services [] s = Some s"
| "provide_services ((key, val) # kvs) s =
     (case Server_Provide key val s of None \<Rightarrow> None | Some s' \<Rightarrow> provide_services kvs s')"

lemma provide_services_registry:
  "map_option srv_registry (provide_services kvs s) = provide_all kvs (srv_registry s)"
proof (induction kvs s rule: provide_services.induct)
  case (2 key val kvs s)
  then show ?case by (cases "Provide key val (srv_registry s)") (simp_all add: Server_Provide_def)
qed simp

lemma Start_result:
  fixes s :: "('gt, 'k, 'tr, 't, 'b, 'p, nat \<Rightarrow> 'q background, 'hd, 'cb, 'v, 'i, 'mt) Server"
  assumes "Start env s d = (err, s', d')"
    and members: "srv_lifecycle s = members listen shutdown n"
    and down: "\<forall>i < n. \<not> background_up (d_services d i)"
    and fresh: "\<not> d_mgr d" "\<not> live_host (d_node d)" "\<not> live_dht (d_node d)" "\<not> live_ctx (d_node d)"
  shows "\<not> d_mgr d' \<and>
    (if err = None
     then live_host (d_node d') \<and> live_dht (d_node d') \<and> live_ctx (d_node d') \<and> (\<forall>i < n. background_up (d_services d' i)) \<and>
       (\<forall>proto hd. srv_handlers s proto = Some hd \<longrightarrow> d_handlers d' proto = Some hd) \<and> srv_node s' \<noteq> None
     else \<not> live_host (d_node d') \<and> \<not> live_dht (d_node d') \<and> \<not> live_ctx (d_node d') \<and> (\<forall>i < n. \<not> background_up (d_services d' i)))"
proof (cases "Validate (srv_config s)")
  case (Some e)
  with assms show ?thesis by (auto simp: Start_def)
next
  case None
  obtain i f where i: "server_identity env s (d_files d) = (i, f)" by fastforce
  show ?thesis
  proof (cases i)
    case (Inl e)
    with assms None i show ?thesis by (auto simp: Start_def)
  next
    case (Inr priv)
    obtain r hh where c: "Create (e_host env) (cfg_Host (srv_config s)) priv (srv_transports s)
        \<lparr>open_mgr = d_mgr d, open_host = live_host (d_node d)\<rparr> = (r, hh)" by fastforce
    have hh: "\<not> open_mgr hh \<and> (open_host hh \<longleftrightarrow> r = None)" by (rule Create_handles [OF c]) (simp_all add: fresh)
    show ?thesis
    proof (cases r)
      case (Some e)
      with assms None i Inr c hh show ?thesis by (auto simp: Start_def Let_def)
    next
      case r: None
      let ?s = "s\<lparr>srv_identity := Some priv, srv_host := True\<rparr>"
      let ?d = "d\<lparr>d_files := f, d_mgr := open_mgr hh, d_node := (d_node d)\<lparr>live_host := open_host hh\<rparr>\<rparr>"
      have "start_on_host env ?s ?d = (err, s', d')" using assms(1) None i Inr c r by (simp add: Start_def Let_def)
      from start_on_host_result [OF this, of listen shutdown n] show ?thesis
        using members down fresh hh r by simp
    qed
  qed
qed

lemma Start_keeps:
  assumes "Start env s d = (err, s', d')"
  shows "srv_config s' = srv_config s \<and> srv_lifecycle s' = srv_lifecycle s \<and> srv_handlers s' = srv_handlers s \<and>
    (err = None \<longrightarrow> srv_host s')"
  using assms
  by (auto simp: Start_def start_on_host_def notify_hooks_def Let_def split: option.splits sum.splits prod.splits if_splits)

lemma Stop_result:
  fixes s :: "('gt, 'k, 'tr, 't, 'b, 'p, nat \<Rightarrow> 'q background, 'hd, 'cb, 'v, 'i, 'mt) Server"
  assumes started: "srv_host s" "srv_node s = Some n0" "srv_lifecycle s = members listen shutdown n"
  shows "\<exists>t s' d'. Stop env ends now so to s d = Returned (None, t, s', d') \<and>
    d_handlers d' = d_handlers d |` (- dom (srv_handlers s)) \<and> d_mgr d' = d_mgr d \<and> now \<le> t \<and>
    t \<le> now + max 0 (cfg_ShutdownTimeout (srv_config s)) + int n * shutdown_limit + max 0 (Close_time (e_node env)) \<and>
    (all_end ends (now + max 0 (cfg_ShutdownTimeout (srv_config s))) \<longrightarrow> all_end ends t) \<and> (\<forall>i < n. \<not> background_up (d_services d' i)) \<and>
    \<not> live_host (d_node d') \<and> \<not> live_dht (d_node d') \<and> \<not> live_ctx (d_node d')"
proof -
  obtain t ok where dr: "drain (cfg_ShutdownTimeout (srv_config s)) ends now = (t, ok)" by fastforce
  obtain r n' hs' where cl: "Node_Close (e_node env) (e_pubsub env) so to n0 (d_node d) = (r, n', hs')"
    by (cases "Node_Close (e_node env) (e_pubsub env) so to n0 (d_node d)") auto
  have down: "\<not> background_up (snd (StopAll (members listen shutdown n) (d_services d)) i)" if "i < n" for i
    using that by (rule StopAll_members)
  let ?v = "StopAll_time (members listen shutdown n) (d_services d)"
  have v: "0 \<le> ?v" "?v \<le> int n * shutdown_limit" using StopAll_time_members by blast+
  have "Stop env ends now so to s d = Returned (None, t + ?v + max 0 (Close_time (e_node env)), s\<lparr>srv_node := Some n'\<rparr>,
      d\<lparr>d_handlers := d_handlers d |` (- dom (srv_handlers s)),
        d_services := snd (StopAll (members listen shutdown n) (d_services d)), d_node := hs'\<rparr>)"
    using started dr cl by (simp add: Stop_def Let_def)
  moreover have "all_end ends (t + ?v + max 0 (Close_time (e_node env)))"
    if "all_end ends (now + max 0 (cfg_ShutdownTimeout (srv_config s)))"
    by (rule all_end_mono [of ends t]) (use that drain_bounds(3,4) [OF dr] v(1) in simp_all)
  moreover have "now \<le> t + ?v + max 0 (Close_time (e_node env))"
    "t + ?v + max 0 (Close_time (e_node env)) \<le>
      now + max 0 (cfg_ShutdownTimeout (srv_config s)) + int n * shutdown_limit + max 0 (Close_time (e_node env))"
    using drain_bounds(1,2) [OF dr] v by linarith+
  ultimately show ?thesis using Node_Close_handles [OF cl] down
    by (intro exI conjI) (assumption | simp)+
qed

subsection \<open>Properties\<close>

text \<open>
  C8.  Starting a server is all or nothing.  From a state with nothing running, \<^verbatim>\<open>Start\<close> either reports
  success, and then the host, the DHT and the node's context are live, every service runs and every
  registered handler is installed on the host; or it reports an error, wherever in the sequence it
  occurred, and then no host, no DHT, no context and no service is left running.  A resource manager
  it has made is closed or was handed to \<^verbatim>\<open>libp2p.New\<close>.  The services are tickers and health checks.
\<close>

theorem Start_all_or_nothing:
  fixes s :: "('gt, 'k, 'tr, 't, 'b, 'p, nat \<Rightarrow> 'q background, 'hd, 'cb, 'v, 'i, 'mt) Server"
  assumes "Start env s d = (err, s', d')"
    and members: "srv_lifecycle s = members listen shutdown n"
    and down: "\<forall>i < n. \<not> background_up (d_services d i)"
    and fresh: "\<not> d_mgr d" "\<not> live_host (d_node d)" "\<not> live_dht (d_node d)" "\<not> live_ctx (d_node d)"
  shows "\<not> d_mgr d' \<and>
    (if err = None
     then live_host (d_node d') \<and> live_dht (d_node d') \<and> live_ctx (d_node d') \<and> (\<forall>i < n. background_up (d_services d' i)) \<and>
       (\<forall>proto hd. srv_handlers s proto = Some hd \<longrightarrow> d_handlers d' proto = Some hd) \<and> srv_node s' \<noteq> None
     else \<not> live_host (d_node d') \<and> \<not> live_dht (d_node d') \<and> \<not> live_ctx (d_node d') \<and> (\<forall>i < n. \<not> background_up (d_services d' i)))"
  using assms by (rule Start_result)

text \<open>An environment in which everything works, with files and pubsub in memory.\<close>

definition memory_server ::
  "(byte list, string \<rightharpoonup> byte list, unit, unit, string, string, string, string, string \<rightharpoonup> string set) server_env" where
  "memory_server =
     \<lparr>e_identity = memory_env,
      e_host = \<lparr>NewMultiaddr = Inr, AddrInfoFromP2pAddr = Inr,
        yamux_Default = \<lparr>KeepAliveInterval = 0, ConnectionWriteTimeout = 0, MaxIncomingStreams = 0\<rparr>,
        relay_DefaultResources = \<lparr>rc_MaxReservations = 1, rc_MaxCircuits = 1, rc_BufferSize = 1, rc_MaxReservationsPerPeer = 1,
          rc_MaxReservationsPerIP = 1, rc_MaxReservationsPerASN = 1, rc_ReservationTTL = 1, rc_Limit_Duration = 1, rc_Limit_Data = 1\<rparr>,
        NewResourceManager = (\<lambda>_. None), NewConnManager = (\<lambda>_ _ _. None), libp2p_New = (\<lambda>_. None), relay_New = (\<lambda>_. None)\<rparr>,
      e_node = \<lparr>P_CIRCUIT_code = 290, ConnsToPeer = (\<lambda>_. []), dht_New = (\<lambda>_ _. None), dht_Bootstrap = None, dht_Close = None, node_NewMultiaddr = Inr,
        node_AddrInfoFromP2pAddr = Inr, h_Connect = (\<lambda>_. None), NewGossipSub = Inr Map.empty, no_pubsub = Map.empty, h_Close = None, Close_time = 40\<rparr>,
      e_pubsub = memory_pubsub False\<rparr>"

definition two_services :: "nat \<Rightarrow> unit background" where
  "two_services i = (if i = 0 then TickerSvc (NewTickerService ''t'' 5) else HealthSvc (NewHealthCheck ''h''))"

definition fresh_deployment :: "(string \<rightharpoonup> byte list, string, unit, nat \<Rightarrow> unit background) deployment" where
  "fresh_deployment =
     \<lparr>d_files = Map.empty, d_mgr = False, d_node = \<lparr>live_host = False, live_dht = False, live_ctx = False, dialled = []\<rparr>,
      d_handlers = Map.empty, d_notify = False, d_services = two_services\<rparr>"

definition memory_app ::
  "(unit, byte list, unit, string, string, string \<rightharpoonup> string set, nat \<Rightarrow> unit background, unit, unit, unit, unit, unit) Server" where
  "memory_app = (Handle ''/ping/1'' () (NewServer [WithPort 4001]))\<lparr>srv_lifecycle := members (\<lambda>a. None) (\<lambda>i. (None, 0)) 2\<rparr>"

lemma two_services_down: "\<forall>i < 2. \<not> background_up (two_services i)"
  by (simp add: two_services_def NewTickerService_def NewHealthCheck_def ticker_running_def)

lemma memory_app_starts: "fst (Start memory_server memory_app fresh_deployment) = None"
proof -
  have cfg: "Validate (srv_config memory_app) = None" "srv_identity memory_app = None"
    by (simp_all add: memory_app_def NewServer_def initial_server_def WithPort_def Handle_def Validate_def DefaultConfig_def
      Host_DefaultConfig_def)
  have idn: "\<exists>f. server_identity memory_server memory_app (d_files fresh_deployment) = (Inr (replicate 64 7), f)"
    using cfg(2) by (simp add: server_identity_def fresh_deployment_def LoadOrCreateIdentity_def memory_server_def)
      (simp add: memory_env_def)
  have host: "\<exists>hh. Create (e_host memory_server) c k tr hs = (None, hh)" for c k tr hs
    by (simp add: Create_def connectionLimitOptions_def newResourceManager_def memory_server_def Let_def split: option.split prod.split)
  have svc: "fst (StartAll (members (\<lambda>a. None) (\<lambda>i. (None, 0)) 2) two_services) = None"
    by (simp add: StartAll_def start_loop.simps member_def two_services_def Ticker_Start_def Health_Start_def upt_rec Let_def)
  have rest: "fst (start_on_host memory_server s d) = None"
    if "srv_lifecycle s = members (\<lambda>a. None) (\<lambda>i. (None, 0)) 2" "d_services d = two_services"
    for s :: "(unit, byte list, unit, string, string, string \<rightharpoonup> string set, nat \<Rightarrow> unit background, unit, unit, unit, unit, unit) Server" and d
    using svc that by (auto simp: start_on_host_def New_def memory_server_def Let_def split: option.splits prod.splits)
  obtain f where f: "server_identity memory_server memory_app (d_files fresh_deployment) = (Inr (replicate 64 7), f)"
    using idn by blast
  obtain hh where hh: "Create (e_host memory_server) (cfg_Host (srv_config memory_app)) (replicate 64 7) (srv_transports memory_app)
      \<lparr>open_mgr = d_mgr fresh_deployment, open_host = live_host (d_node fresh_deployment)\<rparr> = (None, hh)"
    using host by blast
  show ?thesis using cfg(1) f hh by (simp add: Start_def Let_def rest memory_app_def fresh_deployment_def)
qed

theorem Start_all_or_nothing_witness:
  "\<exists>s' d'. Start memory_server memory_app fresh_deployment = (None, s', d') \<and> live_dht (d_node d') \<and>
     background_up (d_services d' 0) \<and> background_up (d_services d' 1)"
proof -
  obtain err s' d' where st: "Start memory_server memory_app fresh_deployment = (err, s', d')"
    by (cases "Start memory_server memory_app fresh_deployment") auto
  have "err = None" using memory_app_starts st by simp
  moreover have "srv_lifecycle memory_app = members (\<lambda>a. None) (\<lambda>i. (None, 0)) 2" by (simp add: memory_app_def)
  ultimately show ?thesis
    using st Start_all_or_nothing [OF st, of "\<lambda>a. None" "\<lambda>i. (None, 0)" 2] two_services_down by (simp add: fresh_deployment_def)
qed



text \<open>
  C17.  Singletons reach the handlers at their type.  Providing services to a fresh server panics exactly
  when a key is used twice; otherwise a handler of any pipeline that was given the server's registry,
  with the contents these calls left in it, finds, on every stream, under each key exactly the value that was provided under it, if that value
  has the type the handler asks for, and a zero value with \<^verbatim>\<open>ok = false\<close> in all other cases.  A lookup never
  yields a value of another type.
\<close>

theorem services_reach_handlers_typed:
  fixes s :: "('gt, 'k, 'tr, 't, 'b, 'p, 'w, 'hd, 'cb, 'v, 'i, 'mt) Server"
  assumes fresh: "srv_registry s = NewRegistry"
  shows "case provide_services kvs s of
      None \<Rightarrow> \<not> distinct (map fst kvs)
    | Some s' \<Rightarrow> distinct (map fst kvs) \<and>
        (\<forall>key. ServiceFrom assert zero (new_context so (WithRegistry (Server_Registry s') p) stream pool active app) key =
          (case map_of kvs key of
             None \<Rightarrow> (zero, False)
           | Some val \<Rightarrow> (case assert val of None \<Rightarrow> (zero, False) | Some t \<Rightarrow> (t, True))))"
proof -
  have reg: "map_option srv_registry (provide_services kvs s) =
      (if distinct (map fst kvs) then Some (map_of kvs) else None)"
    unfolding provide_services_registry fresh provide_all_iff by (simp add: NewRegistry_def)
  show ?thesis
  proof (cases "provide_services kvs s")
    case None
    with reg show ?thesis by (auto split: if_splits)
  next
    case (Some s')
    with reg have "distinct (map fst kvs)" "srv_registry s' = map_of kvs" by (auto split: if_splits)
    with Some show ?thesis
      by (auto simp: ServiceFrom_def Service_def registry_get_def new_context_def Let_def WithRegistry_def Server_Registry_def
          split: option.split)
  qed
qed

theorem services_reach_handlers_typed_witness:
  "\<exists>s'. provide_services [(''db'', Obj ()), (''name'', Str ''x'')] memory_app = Some s' \<and>
    ServiceFrom (\<lambda>v. case v of Str x \<Rightarrow> Some x | _ \<Rightarrow> None) [] (new_context mock_object (WithRegistry (Server_Registry s') (NewPipeline []))
      (NewMockStream ''p'' [] 0) init_pool_state 0 ()) ''name'' = (''x'', True) \<and>
    ServiceFrom (\<lambda>v. case v of Str x \<Rightarrow> Some x | _ \<Rightarrow> None) [] (new_context mock_object (WithRegistry (Server_Registry s') (NewPipeline []))
      (NewMockStream ''p'' [] 0) init_pool_state 0 ()) ''db'' = ([], False)"
proof -
  let ?kvs = "[(''db'', Obj ()), (''name'', Str ''x'')]"
  have fresh: "srv_registry memory_app = NewRegistry"
    by (simp add: memory_app_def Handle_def NewServer_def initial_server_def WithPort_def)
  obtain s' where s': "provide_services ?kvs memory_app = Some s'"
    using fresh by (simp add: Server_Provide_def Provide_def NewRegistry_def)
  show ?thesis
    using services_reach_handlers_typed [OF fresh, of ?kvs "\<lambda>v. case v of Str x \<Rightarrow> Some x | _ \<Rightarrow> None" "[]" mock_object "NewPipeline []"
        "NewMockStream ''p'' [] 0" init_pool_state 0 "()"] s' by auto
qed



end
