(* ===== verification/Shutdown.thy ===== *)
theory Shutdown
  imports Server
begin

text \<open>
  Graceful shutdown while streams are coming in: the steps of \<^verbatim>\<open>Server.Stop\<close> (\<^verbatim>\<open>src/forge.go\<close>), of the
  goroutine that waits for the \<^verbatim>\<open>sync.WaitGroup\<close>, and of the streams that run
  \<^verbatim>\<open>Pipeline.HandleStream\<close> (\<^verbatim>\<open>src/pipeline.go\<close>), in any order.  \<^verbatim>\<open>Server.Stop\<close> as one function is
  \<^const>\<open>Stop\<close>; here each of its statements that another goroutine can observe is a step of its own.
\<close>

subsection \<open>Streams\<close>

text \<open>
  libp2p looks the handler of an incoming stream up and then calls it in a goroutine of its own; the
  first statement of \<^verbatim>\<open>HandleStream\<close>, the \<^verbatim>\<open>Add(1)\<close>, runs some time after the lookup.
\<close>

datatype stage = Dispatched | Running | Finished

text \<open>The stages come in this order.\<close>

instantiation stage :: linorder
begin

fun less_eq_stage :: "stage \<Rightarrow> stage \<Rightarrow> bool" where
  "less_eq_stage Dispatched st = True"
| "less_eq_stage Running st = (st \<noteq> Dispatched)"
| "less_eq_stage Finished st = (st = Finished)"

definition less_stage :: "stage \<Rightarrow> stage \<Rightarrow> bool" where
  "less_stage a b \<longleftrightarrow> a \<le> b \<and> \<not> b \<le> a"

instance
proof
  fix a b c :: stage
  show "a < b \<longleftrightarrow> a \<le> b \<and> \<not> b \<le> a" by (rule less_stage_def)
  show "a \<le> a" by (cases a) simp_all
  show "a \<le> b \<Longrightarrow> b \<le> c \<Longrightarrow> a \<le> c" by (cases a; cases b; cases c) simp_all
  show "a \<le> b \<Longrightarrow> b \<le> a \<Longrightarrow> a = b" by (cases a; cases b) simp_all
  show "a \<le> b \<or> b \<le> a" by (cases a; cases b) simp_all
qed

end

record 'hd inbound =
  in_proto :: string
  in_handler :: 'hd
  in_stage :: stage

definition Add_active :: "('s, 'v, 'i, 'g) Pipeline \<Rightarrow> int \<Rightarrow> int" where
  "Add_active p n = (if p_activeStreams p then n + 1 else n)"

definition Done_active :: "('s, 'v, 'i, 'g) Pipeline \<Rightarrow> int \<Rightarrow> int" where
  "Done_active p n = (if p_activeStreams p then n - 1 else n)"

text \<open>
  Where \<^verbatim>\<open>Stop\<close> is: about to remove the handlers of the listed protocols; in the \<^verbatim>\<open>select\<close> with its timer
  set for an instant; past it (the flag: the \<^verbatim>\<open>done\<close> branch was taken), in \<^verbatim>\<open>StopAll\<close> with that many services
  to go and the call in progress over at an instant; about to call \<^verbatim>\<open>Node.Close\<close>; past its \<^verbatim>\<open>n.cancel()\<close>, with
  the rest over at an instant; returned; or panicked.  \<open>Crashed\<close>: the process is gone.
\<close>

datatype stop_pc =
    Serving | Removing "string list" | Draining time | StoppingServices bool nat time | ClosingNode bool | ReleasingNode bool time
  | Stopped bool | StopPanicked | Crashed string

fun crashed :: "stop_pc \<Rightarrow> bool" where
  "crashed (Crashed msg) = True"
| "crashed _ = False"

text \<open>
  The goroutine of \<^verbatim>\<open>Stop\<close> in \<^verbatim>\<open>sync.WaitGroup.Wait\<close>: not started, about to read the counter, blocked as a
  waiter, still a waiter while the \<^verbatim>\<open>Done\<close> that brought the counter to zero releases it, woken and about to
  look at the counter again, returned.
\<close>

datatype waiter = NoWait | Entering | Blocked | Releasing | Woken | WaitReturned

record ('srv, 'dep, 'hd) shutdown =
  sd_srv :: 'srv
  sd_dep :: 'dep
  sd_pc :: stop_pc
  sd_now :: time
  sd_waiter :: waiter
  sd_done :: bool
  sd_streams :: "'hd inbound list"

text \<open>
  \<open>HandlerWork\<close>: the handler of a running stream has called into the node or a service, and their
  state is now the given one.
\<close>

datatype ('n, 'w) action =
    Dispatch string | EnterStream nat | ExitStream nat | HandlerWork nat 'n 'w | Waiter | Clock duration
  | CallStop "string list" | StopStep bool

definition set_stage :: "nat \<Rightarrow> stage \<Rightarrow> ('srv, 'dep, 'hd) shutdown \<Rightarrow> ('srv, 'dep, 'hd) shutdown" where
  "set_stage i st x = x\<lparr>sd_streams := (sd_streams x)[i := (sd_streams x ! i)\<lparr>in_stage := st\<rparr>]\<rparr>"

definition at_stage :: "stage \<Rightarrow> ('srv, 'dep, 'hd) shutdown \<Rightarrow> nat \<Rightarrow> bool" where
  "at_stage st x i \<longleftrightarrow> i < length (sd_streams x) \<and> in_stage (sd_streams x ! i) = st"

subsection \<open>Steps\<close>

text \<open>
  The statements of \<^verbatim>\<open>Stop\<close>.  \<open>b\<close> is the branch the \<^verbatim>\<open>select\<close> takes: \<^verbatim>\<open>done\<close>, which must be closed, or the
  timer, which must have fired; when both are ready Go picks either.
\<close>

fun stop_step where
  "stop_step env so to b (Removing (proto # ids)) x =
     (if \<not> srv_host (sd_srv x) then Some (x\<lparr>sd_pc := StopPanicked\<rparr>)
      else Some (x\<lparr>sd_dep := (sd_dep x)\<lparr>d_handlers := (d_handlers (sd_dep x))(proto := None)\<rparr>, sd_pc := Removing ids\<rparr>))"
| "stop_step env so to b (Removing []) x =
     (if 0 < cfg_ShutdownTimeout (srv_config (sd_srv x))
      then Some (x\<lparr>sd_waiter := Entering, sd_pc := Draining (sd_now x + cfg_ShutdownTimeout (srv_config (sd_srv x)))\<rparr>)
      else Some (x\<lparr>sd_pc := StoppingServices False (length (lc_services (srv_lifecycle (sd_srv x)))) (sd_now x)\<rparr>))"
| "stop_step env so to b (Draining timer) x =
     (if (if b then sd_done x else timer \<le> sd_now x)
      then Some (x\<lparr>sd_pc := StoppingServices b (length (lc_services (srv_lifecycle (sd_srv x)))) (sd_now x)\<rparr>) else None)"
| "stop_step env so to b (StoppingServices ok k due) x =
     (if sd_now x < due then None
      else case k of
        0 \<Rightarrow> Some (x\<lparr>sd_pc := ClosingNode ok\<rparr>)
      | Suc j \<Rightarrow>
          let svc = lc_services (srv_lifecycle (sd_srv x)) ! j; w = d_services (sd_dep x) in
          Some (x\<lparr>sd_dep := (sd_dep x)\<lparr>d_services := snd (svc_Stop svc w)\<rparr>,
            sd_pc := StoppingServices ok j (sd_now x + max 0 (svc_StopTime svc w))\<rparr>))"
| "stop_step env so to b (ClosingNode ok) x =
     (case srv_node (sd_srv x) of
        None \<Rightarrow> Some (x\<lparr>sd_pc := Stopped ok\<rparr>)
      | Some n \<Rightarrow>
          (case node_cancel (e_pubsub env) n (d_node (sd_dep x)) of
             (n', hs') \<Rightarrow> Some (x\<lparr>sd_srv := (sd_srv x)\<lparr>srv_node := Some n'\<rparr>, sd_dep := (sd_dep x)\<lparr>d_node := hs'\<rparr>,
               sd_pc := ReleasingNode ok (sd_now x + max 0 (Close_time (e_node env)))\<rparr>)))"
| "stop_step env so to b (ReleasingNode ok due) x =
     (if sd_now x < due then None
      else case srv_node (sd_srv x) of
        None \<Rightarrow> Some (x\<lparr>sd_pc := Stopped ok\<rparr>)
      | Some n \<Rightarrow>
          (case node_release (e_node env) (e_pubsub env) so to n (d_node (sd_dep x)) of
             (_, n', hs') \<Rightarrow> Some (x\<lparr>sd_srv := (sd_srv x)\<lparr>srv_node := Some n'\<rparr>,
               sd_dep := (sd_dep x)\<lparr>d_node := hs'\<rparr>, sd_pc := Stopped ok\<rparr>)))"
| "stop_step env so to b _ x = None"

text \<open>
  The \<^verbatim>\<open>sync.WaitGroup\<close>.  \<^verbatim>\<open>Add\<close> panics (\<^const>\<open>None\<close>) when the counter leaves zero while there is a waiter.  \<^verbatim>\<open>Done\<close> starts the
  release of the waiter when it brings the counter to zero.  \<^verbatim>\<open>Wait\<close> returns at once when the counter
  is zero; a waiter that was woken panics if the counter is not zero any more.  Nothing in the
  program recovers these panics.
\<close>

definition wg_Add where
  "wg_Add p x =
     (if p_activeStreams p \<and> sd_waiter x = Releasing then None
      else Some (x\<lparr>sd_srv := (sd_srv x)\<lparr>srv_activeStreams := Add_active p (srv_activeStreams (sd_srv x))\<rparr>\<rparr>))"

definition wg_Done where
  "wg_Done p x =
     (let n = Done_active p (srv_activeStreams (sd_srv x)) in
      x\<lparr>sd_srv := (sd_srv x)\<lparr>srv_activeStreams := n\<rparr>,
        sd_waiter := (if p_activeStreams p \<and> n = 0 \<and> sd_waiter x = Blocked then Releasing else sd_waiter x)\<rparr>)"

fun wg_Wait where
  "wg_Wait Entering x =
     (if srv_activeStreams (sd_srv x) = 0 then Some (x\<lparr>sd_waiter := WaitReturned, sd_done := True\<rparr>)
      else Some (x\<lparr>sd_waiter := Blocked\<rparr>))"
| "wg_Wait Releasing x = Some (x\<lparr>sd_waiter := Woken\<rparr>)"
| "wg_Wait Woken x =
     (if srv_activeStreams (sd_srv x) = 0 then Some (x\<lparr>sd_waiter := WaitReturned, sd_done := True\<rparr>)
      else Some (x\<lparr>sd_pc := Crashed ''sync: WaitGroup is reused before previous Wait has returned''\<rparr>))"
| "wg_Wait _ x = None"

text \<open>
  One step of the whole.  \<open>ids\<close> is the order in which \<^verbatim>\<open>range s.handlers\<close> visits the protocols, each once;
  \<open>Waiter\<close> is the next step of the call of \<^verbatim>\<open>Wait\<close>, its release by \<^verbatim>\<open>Done\<close> included.
\<close>

fun perform where
  "perform env so to (Dispatch proto) x =
     (case d_handlers (sd_dep x) proto of
        None \<Rightarrow> None
      | Some p \<Rightarrow>
          if live_host (d_node (sd_dep x))
          then Some (x\<lparr>sd_streams := sd_streams x @ [\<lparr>in_proto = proto, in_handler = p, in_stage = Dispatched\<rparr>]\<rparr>) else None)"
| "perform env so to (EnterStream i) x =
     (if at_stage Dispatched x i
      then (case wg_Add (in_handler (sd_streams x ! i)) x of
          None \<Rightarrow> Some (x\<lparr>sd_pc := Crashed ''sync: WaitGroup misuse: Add called concurrently with Wait''\<rparr>)
        | Some y \<Rightarrow> Some (set_stage i Running y))
      else None)"
| "perform env so to (ExitStream i) x =
     (if at_stage Running x i then Some (set_stage i Finished (wg_Done (in_handler (sd_streams x ! i)) x)) else None)"
| "perform env so to (HandlerWork i n w) x =
     (if at_stage Running x i
      then Some (x\<lparr>sd_srv := (sd_srv x)\<lparr>srv_node := map_option (\<lambda>_. n) (srv_node (sd_srv x))\<rparr>,
        sd_dep := (sd_dep x)\<lparr>d_services := w\<rparr>\<rparr>) else None)"
| "perform env so to Waiter x = wg_Wait (sd_waiter x) x"
| "perform env so to (Clock t) x = (if 0 \<le> t then Some (x\<lparr>sd_now := sd_now x + t\<rparr>) else None)"
| "perform env so to (CallStop ids) x =
     (if sd_pc x = Serving \<and> distinct ids \<and> set ids = dom (srv_handlers (sd_srv x)) then Some (x\<lparr>sd_pc := Removing ids\<rparr>) else None)"
| "perform env so to (StopStep b) x = stop_step env so to b (sd_pc x) x"

definition act where
  "act env so to a x = (if crashed (sd_pc x) then None else perform env so to a x)"

fun acts where
  "acts env so to [] x = Some x"
| "acts env so to (a # as) x = (case act env so to a x of None \<Rightarrow> None | Some y \<Rightarrow> acts env so to as y)"

inductive runs_to for env so to where
  here: "runs_to env so to x x"
| step: "runs_to env so to x y \<Longrightarrow> act env so to a y = Some z \<Longrightarrow> runs_to env so to x z"

text \<open>A server that \<^verbatim>\<open>Start\<close> has just returned, with no stream yet.\<close>

definition serving where
  "serving s d now =
     \<lparr>sd_srv = s\<lparr>srv_activeStreams := 0\<rparr>, sd_dep = d, sd_pc = Serving, sd_now = now, sd_waiter = NoWait, sd_done = False, sd_streams = []\<rparr>"

subsection \<open>Runs and invariants\<close>

lemma runs_to_trans: "runs_to env so to y z \<Longrightarrow> runs_to env so to x y \<Longrightarrow> runs_to env so to x z"
  by (induction rule: runs_to.induct) (auto intro: runs_to.step)

lemma acts_runs_to: "acts env so to as x = Some y \<Longrightarrow> runs_to env so to x y"
proof (induction as arbitrary: x)
  case (Cons a as)
  then obtain z where z: "act env so to a x = Some z" "runs_to env so to z y" by (auto split: option.splits)
  show ?case by (rule runs_to_trans [OF z(2) runs_to.step [OF runs_to.here z(1)]])
qed (simp add: runs_to.here)

text \<open>A property that every step keeps.\<close>

locale shutdown_invariant =
  fixes env so to and I :: "(_, _, ('s, 'v, 'i, 'g) Pipeline) shutdown \<Rightarrow> bool"
  assumes act_keeps: "I x \<Longrightarrow> act env so to a x = Some y \<Longrightarrow> I y"
begin

lemma runs_keep: "runs_to env so to x y \<Longrightarrow> I x \<Longrightarrow> I y"
  by (induction rule: runs_to.induct) (auto intro: act_keeps)

end

text \<open>The effect of a step on the parts of the state that do not belong to the goroutine that makes it.\<close>

fun_cases stop_stepE: "stop_step env so to b pc x = Some y"

lemma stop_step_frame:
  "stop_step env so to b pc x = Some y \<Longrightarrow>
     sd_streams y = sd_streams x \<and> sd_now y = sd_now x \<and> sd_done y = sd_done x \<and>
     srv_activeStreams (sd_srv y) = srv_activeStreams (sd_srv x) \<and> srv_config (sd_srv y) = srv_config (sd_srv x) \<and>
     srv_handlers (sd_srv y) = srv_handlers (sd_srv x) \<and> srv_lifecycle (sd_srv y) = srv_lifecycle (sd_srv x) \<and>
     srv_host (sd_srv y) = srv_host (sd_srv x) \<and> \<not> crashed (sd_pc y) \<and>
     sd_waiter y = (if pc = Removing [] \<and> 0 < cfg_ShutdownTimeout (srv_config (sd_srv x)) then Entering else sd_waiter x)"
  by (erule stop_stepE) (auto simp: Let_def split: if_splits option.splits prod.splits nat.splits)

text \<open>
  The steps other than those of \<^verbatim>\<open>Stop\<close> leave \<^verbatim>\<open>Stop\<close> where it is unless the process crashes, and touch of
  the server the counter, the node and the services only.
\<close>

definition own_action :: "('n, 'w) action \<Rightarrow> bool" where
  "own_action a = (case a of CallStop ids \<Rightarrow> True | StopStep b \<Rightarrow> True | _ \<Rightarrow> False)"

lemmas wg_defs = wg_Add_def wg_Done_def

lemma wg_Wait_frame:
  "wg_Wait (sd_waiter x) x = Some y \<Longrightarrow>
     (sd_pc y = sd_pc x \<or> crashed (sd_pc y)) \<and> sd_dep y = sd_dep x \<and> sd_srv y = sd_srv x \<and> sd_streams y = sd_streams x \<and>
     sd_now y = sd_now x \<and> (sd_done y = sd_done x \<or> sd_done y \<and> srv_activeStreams (sd_srv x) = 0) \<and>
     sd_waiter x \<noteq> NoWait \<and> sd_waiter x \<noteq> WaitReturned \<and> sd_waiter y \<noteq> NoWait \<and>
     (sd_done y \<longrightarrow> sd_done x \<or> sd_waiter y = WaitReturned)"
  by (cases "sd_waiter x") (auto split: if_splits)

lemma act_frame:
  "act env so to a x = Some y \<Longrightarrow> \<not> own_action a \<Longrightarrow>
     (sd_pc y = sd_pc x \<or> crashed (sd_pc y)) \<and> d_handlers (sd_dep y) = d_handlers (sd_dep x) \<and> d_node (sd_dep y) = d_node (sd_dep x) \<and>
     (sd_waiter x = NoWait \<longrightarrow> sd_waiter y = NoWait) \<and> (sd_done x \<longrightarrow> sd_done y) \<and>
     (sd_done y \<longrightarrow> sd_done x \<or> a = Waiter \<and> srv_activeStreams (sd_srv x) = 0 \<and> sd_waiter y = WaitReturned) \<and>
     (sd_waiter x = WaitReturned \<longrightarrow> sd_waiter y = WaitReturned) \<and> (sd_waiter y = NoWait \<longrightarrow> sd_waiter x = NoWait)"
  by (cases a) (auto simp: act_def own_action_def set_stage_def wg_defs Let_def dest: wg_Wait_frame split: if_splits option.splits)

lemma act_config:
  "act env so to a x = Some y \<Longrightarrow>
     srv_config (sd_srv y) = srv_config (sd_srv x) \<and> srv_handlers (sd_srv y) = srv_handlers (sd_srv x) \<and>
     srv_lifecycle (sd_srv y) = srv_lifecycle (sd_srv x) \<and> srv_host (sd_srv y) = srv_host (sd_srv x) \<and> sd_now x \<le> sd_now y"
  by (cases a) (auto simp: act_def set_stage_def wg_defs Let_def dest: stop_step_frame wg_Wait_frame split: if_splits option.splits)

lemma set_stage_fields [simp]: "sd_srv (set_stage i st x) = sd_srv x" "sd_pc (set_stage i st x) = sd_pc x"
  by (simp_all add: set_stage_def)

subsection \<open>The counter\<close>

definition counted :: "('s, 'v, 'i, 'g) Pipeline inbound \<Rightarrow> bool" where
  "counted s \<longleftrightarrow> p_activeStreams (in_handler s) \<and> in_stage s = Running"

text \<open>What \<^verbatim>\<open>HandleStream\<close> does to the counter is what the steps \<^const>\<open>EnterStream\<close> and \<^const>\<open>ExitStream\<close> do.\<close>

lemma HandleStream_counter:
  "HandleStream so p s pool active app = with_defer (finish so p) (run (p_middleware p) 0 (new_context so p s pool (Add_active p active) app))"
  "g_active (finish so p w) = Done_active p (g_active w)"
  by (simp_all add: HandleStream_def Add_active_def Done_active_def finish_def Let_def split: option.split)

lemma length_filter_update:
  "i < length xs \<Longrightarrow>
     length (filter P (xs[i := v])) + (if P (xs ! i) then 1 else 0) = length (filter P xs) + (if P v then 1 else 0)"
proof (induction xs arbitrary: i)
  case (Cons a xs)
  then show ?case by (cases i) auto
qed simp

definition counts where
  "counts x \<longleftrightarrow> srv_activeStreams (sd_srv x) = int (length (filter counted (sd_streams x)))"

lemma counts_set_stage:
  "i < length (sd_streams x) \<Longrightarrow> int (length (filter counted (sd_streams (set_stage i st x)))) =
     int (length (filter counted (sd_streams x))) +
     (of_bool (counted ((sd_streams x ! i)\<lparr>in_stage := st\<rparr>)) - of_bool (counted (sd_streams x ! i)))"
  using length_filter_update [of i "sd_streams x" counted "(sd_streams x ! i)\<lparr>in_stage := st\<rparr>"]
  by (auto simp: set_stage_def split: if_splits)

interpretation counter: shutdown_invariant env so to counts for env so to
proof
  fix x a y
  assume "counts x" "act env so to a x = Some y"
  then show "counts y"
  proof (cases a)
    case (EnterStream i)
    with \<open>counts x\<close> \<open>act env so to a x = Some y\<close> show ?thesis
      by (auto simp: act_def at_stage_def counts_def counts_set_stage counted_def wg_Add_def Add_active_def split: if_splits)
  next
    case (ExitStream i)
    with \<open>counts x\<close> \<open>act env so to a x = Some y\<close> show ?thesis
      by (auto simp: act_def at_stage_def counts_def counts_set_stage counted_def wg_Done_def Let_def Done_active_def split: if_splits)
  qed (auto simp: act_def counts_def counted_def dest: stop_step_frame wg_Wait_frame split: if_splits option.splits)
qed

lemma zero_none_counted: "counts x \<Longrightarrow> srv_activeStreams (sd_srv x) = 0 \<Longrightarrow> s \<in> set (sd_streams x) \<Longrightarrow> \<not> counted s"
  by (auto simp: counts_def filter_empty_conv)

subsection \<open>The life of one stream\<close>

text \<open>A stream keeps its protocol and its handler, and its stage only moves forward.\<close>

definition later :: "'hd inbound \<Rightarrow> 'hd inbound \<Rightarrow> bool" where
  "later s s' \<longleftrightarrow> in_proto s' = in_proto s \<and> in_handler s' = in_handler s \<and> in_stage s \<le> in_stage s'"

lemma later_refl [simp]: "later s s" and later_trans: "later s s' \<Longrightarrow> later s' s'' \<Longrightarrow> later s s''"
  by (auto simp: later_def)

lemma set_stage_later:
  "in_stage (sd_streams x ! j) = st' \<Longrightarrow> st' \<le> st \<Longrightarrow> i < length (sd_streams x) \<Longrightarrow>
     i < length (sd_streams (set_stage j st x)) \<and> later (sd_streams x ! i) (sd_streams (set_stage j st x) ! i)"
  by (cases "i = j") (auto simp: set_stage_def later_def)

lemma act_later:
  assumes "act env so to a x = Some y" "i < length (sd_streams x)"
  shows "i < length (sd_streams y) \<and> later (sd_streams x ! i) (sd_streams y ! i)"
proof (cases a)
  case (EnterStream j)
  with assms set_stage_later [of "x\<lparr>sd_srv := sd_srv y\<rparr>" j Dispatched Running i] show ?thesis
    by (auto simp: act_def at_stage_def set_stage_def wg_Add_def split: if_splits)
next
  case (ExitStream j)
  with assms set_stage_later [of "x\<lparr>sd_srv := sd_srv y\<rparr>" j Running Finished i] show ?thesis
    by (auto simp: act_def at_stage_def set_stage_def wg_Done_def Let_def split: if_splits)
qed (use assms in \<open>auto simp: act_def nth_append dest!: stop_step_frame wg_Wait_frame split: if_splits option.splits\<close>)

lemma runs_later:
  "runs_to env so to x y \<Longrightarrow> i < length (sd_streams x) \<Longrightarrow> i < length (sd_streams y) \<and> later (sd_streams x ! i) (sd_streams y ! i)"
  by (induction rule: runs_to.induct) (auto dest: act_later later_trans)

lemma runs_config:
  "runs_to env so to x y \<Longrightarrow>
     srv_config (sd_srv y) = srv_config (sd_srv x) \<and> srv_handlers (sd_srv y) = srv_handlers (sd_srv x) \<and>
     srv_lifecycle (sd_srv y) = srv_lifecycle (sd_srv x) \<and> srv_host (sd_srv y) = srv_host (sd_srv x) \<and> sd_now x \<le> sd_now y"
proof (induction rule: runs_to.induct)
  case (step x y a z)
  from act_config [OF step.hyps(2)] step.IH show ?case by simp
qed simp

subsection \<open>The phases of Stop\<close>

text \<open>Past the \<^verbatim>\<open>select\<close>: \<open>Some True\<close> by its \<^verbatim>\<open>done\<close> branch, \<open>Some False\<close> by the timer or without a drain.\<close>

fun past_drain :: "stop_pc \<Rightarrow> bool option" where
  "past_drain (StoppingServices ok k due) = Some ok"
| "past_drain (ClosingNode ok) = Some ok"
| "past_drain (ReleasingNode ok due) = Some ok"
| "past_drain (Stopped ok) = Some ok"
| "past_drain _ = None"

fun before_drain :: "stop_pc \<Rightarrow> bool" where
  "before_drain Serving = True"
| "before_drain (Removing ids) = True"
| "before_drain StopPanicked = True"
| "before_drain _ = False"

text \<open>The protocols whose handler \<^verbatim>\<open>Stop\<close> has not removed yet.\<close>

fun pending :: "stop_pc \<Rightarrow> string set" where
  "pending Serving = UNIV"
| "pending StopPanicked = UNIV"
| "pending (Crashed msg) = UNIV"
| "pending (Removing ids) = set ids"
| "pending _ = {}"

definition phased where
  "phased proto x \<longleftrightarrow> (sd_done x \<longrightarrow> sd_waiter x = WaitReturned) \<and> (past_drain (sd_pc x) = Some True \<longrightarrow> sd_done x) \<and>
     (before_drain (sd_pc x) \<longrightarrow> sd_waiter x = NoWait) \<and>
     (srv_handlers (sd_srv x) proto = None \<or> proto \<in> pending (sd_pc x) \<or> d_handlers (sd_dep x) proto = None)"

lemma stop_step_phased:
  assumes "phased proto x" "stop_step env so to b (sd_pc x) x = Some y"
  shows "phased proto y"
proof (cases "sd_pc x")
  case (Removing ids)
  with assms show ?thesis by (cases ids) (auto simp: phased_def split: if_splits)
next
  case (Draining t)
  with assms show ?thesis by (cases b) (auto simp: phased_def split: if_splits)
next
  case (StoppingServices ok k due)
  with assms show ?thesis by (auto simp: phased_def Let_def split: if_splits nat.splits)
next
  case (ClosingNode ok)
  with assms show ?thesis by (auto simp: phased_def split: option.splits prod.splits)
next
  case (ReleasingNode ok due)
  with assms show ?thesis by (auto simp: phased_def split: if_splits option.splits prod.splits)
qed (use assms in simp_all)

lemma act_phased:
  assumes "phased proto x" and act: "act env so to a x = Some y"
  shows "phased proto y"
proof (cases "own_action a")
  case True
  then consider b where "a = StopStep b" | ids where "a = CallStop ids" by (auto simp: own_action_def split: action.splits)
  then show ?thesis
  proof cases
    case 1
    with assms stop_step_phased [of proto x env so to b y] show ?thesis by (simp add: act_def split: if_splits)
  next
    case 2
    with assms show ?thesis by (cases "srv_handlers (sd_srv x) proto") (auto simp: act_def phased_def split: if_splits)
  qed
next
  case False
  note fr = act_frame [OF act False] act_config [OF act]
  then consider "sd_pc y = sd_pc x" | msg where "sd_pc y = Crashed msg" by (cases "sd_pc y") auto
  then show ?thesis
  proof cases
    case 1
    with assms(1) fr show ?thesis unfolding phased_def by metis
  next
    case 2
    have "sd_done y \<longrightarrow> sd_waiter y = WaitReturned" using assms(1) fr unfolding phased_def by metis
    with 2 show ?thesis by (simp add: phased_def)
  qed
qed

interpretation phases: shutdown_invariant env so to "phased proto" for env so to proto
  by unfold_locales (rule act_phased)

text \<open>
  Once a stream is counted, \<^verbatim>\<open>done\<close> can be closed only after it has ended: the goroutine that closes it has
  seen the counter at zero.
\<close>

definition awaited where
  "awaited i x \<longleftrightarrow> counts x \<and> i < length (sd_streams x) \<and> p_activeStreams (in_handler (sd_streams x ! i)) \<and>
     (if sd_done x then in_stage (sd_streams x ! i) = Finished else in_stage (sd_streams x ! i) \<noteq> Dispatched)"

lemma act_awaited:
  assumes "awaited i x" and act: "act env so to a x = Some y"
  shows "awaited i y"
proof -
  have c: "counts x" and i: "i < length (sd_streams x)" using assms(1) by (simp_all add: awaited_def)
  note l = act_later [OF act i]
  have fin: "in_stage (sd_streams x ! i) = Finished" if "sd_done y" "\<not> sd_done x"
  proof -
    have "srv_activeStreams (sd_srv x) = 0"
    proof (cases "own_action a")
      case True
      with act that show ?thesis by (cases a) (auto simp: act_def own_action_def dest: stop_step_frame split: if_splits)
    next
      case False
      from act_frame [OF act this] that show ?thesis by simp
    qed
    from zero_none_counted [OF c this, of "sd_streams x ! i"] assms(1) that i show ?thesis
      by (cases "in_stage (sd_streams x ! i)") (auto simp: awaited_def counted_def)
  qed
  have kept: "sd_done x \<longrightarrow> sd_done y"
  proof (cases "own_action a")
    case True
    with act show ?thesis by (cases a) (auto simp: act_def own_action_def dest: stop_step_frame split: if_splits)
  next
    case False
    from act_frame [OF act this] show ?thesis by simp
  qed
  have "counts y" using c act by (rule counter.act_keeps)
  with assms(1) l fin kept show ?thesis
    by (cases "in_stage (sd_streams x ! i)"; cases "in_stage (sd_streams y ! i)"; cases "sd_done y")
      (auto simp: awaited_def later_def split: if_splits)
qed

interpretation waits: shutdown_invariant env so to "awaited i" for env so to i
  by unfold_locales (rule act_awaited)

text \<open>The timer: set no earlier than \<open>t\<close>, where \<open>Stop\<close> had not reached the \<^verbatim>\<open>select\<close>.\<close>

definition timely where
  "timely t x \<longleftrightarrow> t \<le> sd_now x \<and>
     (case sd_pc x of Draining timer \<Rightarrow> t + cfg_ShutdownTimeout (srv_config (sd_srv x)) \<le> timer
      | pc \<Rightarrow> past_drain pc = Some False \<longrightarrow>
          cfg_ShutdownTimeout (srv_config (sd_srv x)) \<le> 0 \<or> t + cfg_ShutdownTimeout (srv_config (sd_srv x)) \<le> sd_now x)"

interpretation timer: shutdown_invariant env so to "timely t" for env so to t
proof
  fix x a y
  assume x: "timely t x" and act: "act env so to a x = Some y"
  show "timely t y"
  proof (cases "own_action a")
    case True
    with x act show ?thesis
      by (cases a) (auto simp: act_def timely_def own_action_def Let_def elim!: stop_stepE split: if_splits option.splits prod.splits nat.splits)
  next
    case False
    from act_frame [OF act False] consider "sd_pc y = sd_pc x" | msg where "sd_pc y = Crashed msg" by (cases "sd_pc y") auto
    then show ?thesis
    proof cases
      case 1
      with x act_config [OF act] show ?thesis by (cases "sd_pc x") (simp_all add: timely_def, linarith+)
    next
      case 2
      with x act_config [OF act] show ?thesis by (simp add: timely_def)
    qed
  qed
qed

text \<open>A protocol without a handler gets no further stream.\<close>

definition closed_to where
  "closed_to proto n x \<longleftrightarrow> d_handlers (sd_dep x) proto = None \<and>
     (\<forall>i < length (sd_streams x). n \<le> i \<longrightarrow> in_proto (sd_streams x ! i) \<noteq> proto)"

lemma stop_step_handlers:
  "stop_step env so to b pc x = Some y \<Longrightarrow> d_handlers (sd_dep x) proto = None \<Longrightarrow> d_handlers (sd_dep y) proto = None"
  by (erule stop_stepE) (auto simp: Let_def split: if_splits option.splits prod.splits nat.splits)

interpretation closed: shutdown_invariant env so to "closed_to proto n" for env so to proto n
proof
  fix x a y
  assume x: "closed_to proto n x" and act: "act env so to a x = Some y"
  have old: "in_proto (sd_streams y ! i) = in_proto (sd_streams x ! i)" if "i < length (sd_streams x)" for i
    using act_later [OF act that] by (simp add: later_def)
  show "closed_to proto n y"
  proof (cases a)
    case (Dispatch p)
    with x act show ?thesis by (auto simp: act_def closed_to_def nth_append split: option.splits if_splits)
  next
    case (StopStep b)
    with x act old stop_step_frame [of env so to b "sd_pc x" x y] show ?thesis
      by (auto simp: act_def closed_to_def dest: stop_step_handlers split: if_splits)
  qed (use x act old in \<open>auto simp: act_def closed_to_def set_stage_def wg_defs Let_def dest!: wg_Wait_frame split: if_splits option.splits\<close>)
qed

lemma serving_invariants:
  "counts (serving s d now)" "phased proto (serving s d now)"
  by (simp_all add: serving_def counts_def phased_def)

lemmas reachable_invariants =
  counter.runs_keep [OF _ serving_invariants(1)] phases.runs_keep [OF _ serving_invariants(2)]

subsection \<open>Properties\<close>

text \<open>
  C9.  A graceful stop.  Take any interleaving of streams with \<^verbatim>\<open>Stop\<close>, from the moment the handlers are
  removed.  No stream of the server's protocols arrives any more.  When \<^verbatim>\<open>Stop\<close> goes on because the drain
  reported done, every stream of these protocols that a tracking pipeline handles has finished, except
  streams that libp2p had dispatched at that moment and that had not reached the \<^verbatim>\<open>Add(1)\<close> of
  \<^verbatim>\<open>HandleStream\<close>.  When it goes on without, there is no timeout or it has passed in full.
\<close>

theorem graceful_stop:
  assumes reach: "runs_to env so to (serving s d now) x" and x: "sd_pc x = Removing []"
    and y: "runs_to env so to x y" "past_drain (sd_pc y) = Some drained"
  shows "(\<forall>i < length (sd_streams y). srv_handlers s (in_proto (sd_streams y ! i)) \<noteq> None \<longrightarrow>
      i < length (sd_streams x) \<and>
      (drained \<longrightarrow> p_activeStreams (in_handler (sd_streams y ! i)) \<longrightarrow> at_stage Finished y i \<or> at_stage Dispatched x i)) \<and>
    (drained \<or> cfg_ShutdownTimeout (srv_config s) \<le> 0 \<or> sd_now x + cfg_ShutdownTimeout (srv_config s) \<le> sd_now y)"
proof -
  have same: "srv_config (sd_srv y) = srv_config s" "srv_handlers (sd_srv x) = srv_handlers s"
    using runs_config [OF reach] runs_config [OF y(1)] by (simp_all add: serving_def)
  have inv: "counts x" "phased proto x" "phased proto y" for proto
    using reachable_invariants reach runs_to_trans [OF y(1) reach] by blast+
  have "timely (sd_now x) x" using x by (simp add: timely_def)
  with y have late: "timely (sd_now x) y" using timer.runs_keep by blast
  have old: "i < length (sd_streams x)"
    if i: "i < length (sd_streams y)" "srv_handlers s (in_proto (sd_streams y ! i)) \<noteq> None" for i
  proof (rule ccontr)
    assume new: "\<not> i < length (sd_streams x)"
    let ?proto = "in_proto (sd_streams y ! i)"
    have "closed_to ?proto (length (sd_streams x)) x" using inv(2) [of ?proto] x i(2) same by (auto simp: phased_def closed_to_def)
    with y(1) have "closed_to ?proto (length (sd_streams x)) y" using closed.runs_keep by blast
    with i(1) new show False by (auto simp: closed_to_def)
  qed
  have "at_stage Finished y i \<or> at_stage Dispatched x i"
    if drained and i: "i < length (sd_streams y)" "p_activeStreams (in_handler (sd_streams y ! i))" "i < length (sd_streams x)" for i
  proof -
    have "in_handler (sd_streams x ! i) = in_handler (sd_streams y ! i)"
      using runs_later [OF y(1) i(3)] by (simp add: later_def)
    moreover have "\<not> sd_done x" using inv(2) [of undefined] x by (auto simp: phased_def)
    ultimately have "awaited i x" if "\<not> at_stage Dispatched x i"
      using that i inv(1) x by (simp add: awaited_def at_stage_def)
    with y(1) have "awaited i y" if "\<not> at_stage Dispatched x i" using that waits.runs_keep by blast
    with i(1) \<open>drained\<close> y(2) inv(3) show ?thesis by (auto simp: awaited_def at_stage_def phased_def)
  qed
  with old late y(2) same show ?thesis by (cases "sd_pc y") (auto simp: timely_def)
qed

text \<open>A running server with one tracked protocol, everything in memory.\<close>

definition ping_handler :: "(unit, unit, unit, unit) Pipeline" where
  "ping_handler = WithActiveStreams (NewPipeline [])"

definition tracked_app ::
  "(unit, byte list, unit, string, string, string \<rightharpoonup> string set, nat \<Rightarrow> unit background, (unit, unit, unit, unit) Pipeline, unit, unit, unit, unit) Server" where
  "tracked_app = (Handle ''/ping/1'' ping_handler (NewServer [WithPort 4001]))
     \<lparr>srv_host := True, srv_node := Some (initial_node True Map.empty), srv_lifecycle := members (\<lambda>a. None) (\<lambda>i. (None, 0)) 2\<rparr>"

definition running_deployment ::
  "(string \<rightharpoonup> byte list, string, (unit, unit, unit, unit) Pipeline, nat \<Rightarrow> unit background) deployment" where
  "running_deployment =
     \<lparr>d_files = Map.empty, d_mgr = False, d_node = \<lparr>live_host = True, live_dht = True, live_ctx = True, dialled = []\<rparr>,
      d_handlers = [''/ping/1'' \<mapsto> ping_handler], d_notify = False, d_services = two_services\<rparr>"

lemma tracked_app_fields:
  "srv_host tracked_app" "srv_node tracked_app = Some (initial_node True Map.empty)"
  "srv_handlers tracked_app = [''/ping/1'' \<mapsto> ping_handler]" "cfg_ShutdownTimeout (srv_config tracked_app) = 5000000000"
  "p_activeStreams ping_handler"
  by (simp_all add: tracked_app_def Handle_def NewServer_def initial_server_def WithPort_def DefaultConfig_def go_defs
    ping_handler_def WithActiveStreams_def)

text \<open>One stream runs and one has just been dispatched when \<^verbatim>\<open>Stop\<close> has removed the handler.\<close>

lemma tracked_prefix:
  "\<exists>x. acts memory_server [] [] [Dispatch ''/ping/1'', EnterStream 0, Dispatch ''/ping/1'', CallStop [''/ping/1''], StopStep True]
      (serving tracked_app running_deployment 0) = Some x \<and>
    sd_pc x = Removing [] \<and> at_stage Running x 0 \<and> at_stage Dispatched x 1 \<and> sd_srv x = tracked_app\<lparr>srv_activeStreams := 1\<rparr> \<and>
    sd_streams x = [\<lparr>in_proto = ''/ping/1'', in_handler = ping_handler, in_stage = Running\<rparr>,
      \<lparr>in_proto = ''/ping/1'', in_handler = ping_handler, in_stage = Dispatched\<rparr>]"
  by (simp add: act_def serving_def running_deployment_def tracked_app_fields at_stage_def set_stage_def wg_Add_def Add_active_def)

theorem graceful_stop_witness:
  "\<exists>x y. acts memory_server [] [] [Dispatch ''/ping/1'', EnterStream 0, Dispatch ''/ping/1'', CallStop [''/ping/1''], StopStep True]
      (serving tracked_app running_deployment 0) = Some x \<and>
    acts memory_server [] [] [StopStep True, ExitStream 0, Waiter, StopStep True] x = Some y \<and> at_stage Finished y 0"
proof -
  obtain x where x: "acts memory_server [] [] [Dispatch ''/ping/1'', EnterStream 0, Dispatch ''/ping/1'', CallStop [''/ping/1''], StopStep True]
      (serving tracked_app running_deployment 0) = Some x" "sd_pc x = Removing []" "at_stage Running x 0"
    "sd_srv x = tracked_app\<lparr>srv_activeStreams := 1\<rparr>"
    "sd_streams x = [\<lparr>in_proto = ''/ping/1'', in_handler = ping_handler, in_stage = Running\<rparr>,
      \<lparr>in_proto = ''/ping/1'', in_handler = ping_handler, in_stage = Dispatched\<rparr>]"
    using tracked_prefix by blast
  obtain y where y: "acts memory_server [] [] [StopStep True, ExitStream 0, Waiter, StopStep True] x = Some y"
    "past_drain (sd_pc y) = Some True" "sd_streams y ! 0 = \<lparr>in_proto = ''/ping/1'', in_handler = ping_handler, in_stage = Finished\<rparr>"
    "length (sd_streams y) = 2"
    using x(2,4,5) by (simp add: act_def tracked_app_fields at_stage_def set_stage_def wg_Done_def Done_active_def)
  have "at_stage Finished y 0"
    using graceful_stop [OF acts_runs_to [OF x(1)] x(2) acts_runs_to [OF y(1)] y(2)] y(3,4) x(3)
    by (auto simp: tracked_app_fields at_stage_def)
  with x(1) y(1) show ?thesis by blast
qed


subsection \<open>Running Stop to its end\<close>

text \<open>
  From \<open>x\<close> the steps of \<^verbatim>\<open>Stop\<close> (with the branch \<open>b\<close> of the \<^verbatim>\<open>select\<close>) and the passing of time alone lead to
  a state with \<open>P\<close>, by the instant \<open>t\<close>.
\<close>

definition leads_to where
  "leads_to env so to b t P x \<longleftrightarrow>
     (\<exists>as y. acts env so to as x = Some y \<and> (\<forall>a \<in> set as. a = StopStep b \<or> (\<exists>dt. a = Clock dt)) \<and>
        sd_streams y = sd_streams x \<and> sd_now y \<le> t \<and> P y)"

lemma leads_to_here: "P x \<Longrightarrow> sd_now x \<le> t \<Longrightarrow> leads_to env so to b t P x"
  unfolding leads_to_def by (intro exI [of _ "[]"]) simp

lemma leads_to_step:
  assumes "act env so to a x = Some y" "a = StopStep b \<or> a = Clock dt" "sd_streams y = sd_streams x" "leads_to env so to b t P y"
  shows "leads_to env so to b t P x"
proof -
  obtain as z where "acts env so to as y = Some z" "\<forall>a \<in> set as. a = StopStep b \<or> (\<exists>dt. a = Clock dt)"
    "sd_streams z = sd_streams y" "sd_now z \<le> t" "P z"
    using assms(4) by (auto simp: leads_to_def)
  with assms(1-3) show ?thesis unfolding leads_to_def by (intro exI [of _ "a # as"] exI [of _ z]) auto
qed

lemma stop_leads_to:
  assumes "stop_step env so to b (sd_pc x) x = Some y" "leads_to env so to b t P y"
  shows "leads_to env so to b t P x"
proof -
  have "\<not> crashed (sd_pc x)" using assms(1) by (cases "sd_pc x") simp_all
  with assms stop_step_frame [OF assms(1)] show ?thesis
    by (intro leads_to_step [of env so to "StopStep b" x y b 0]) (simp_all add: act_def)
qed

lemma clock_leads_to:
  assumes "\<not> crashed (sd_pc x)" "leads_to env so to b t P (x\<lparr>sd_now := max due (sd_now x)\<rparr>)"
  shows "leads_to env so to b t P x"
  by (rule leads_to_step [OF _ _ _ assms(2), of "Clock (max due (sd_now x) - sd_now x)"]) (use assms(1) in \<open>simp_all add: act_def\<close>)

text \<open>\<^verbatim>\<open>Stop\<close> has returned, with the waiting goroutine where it was and, if \<open>c\<close>, the node closed.\<close>

definition returned_as where
  "returned_as ok w c y \<longleftrightarrow> sd_pc y = Stopped ok \<and> sd_waiter y = w \<and>
     (c \<longrightarrow> \<not> live_host (d_node (sd_dep y)) \<and> \<not> live_ctx (d_node (sd_dep y)))"

lemma releasing_leads_to:
  assumes x: "sd_pc x = ReleasingNode ok due" "max due (sd_now x) \<le> t"
    and c: "c \<longrightarrow> srv_node (sd_srv x) \<noteq> None \<and> \<not> live_ctx (d_node (sd_dep x))"
  shows "leads_to env so to b t (returned_as ok (sd_waiter x) c) x"
proof (rule clock_leads_to)
  let ?x = "x\<lparr>sd_now := max due (sd_now x)\<rparr>"
  show "leads_to env so to b t (returned_as ok (sd_waiter x) c) ?x"
  proof (cases "srv_node (sd_srv x)")
    case None
    show ?thesis by (rule stop_leads_to [of _ _ _ _ _ "?x\<lparr>sd_pc := Stopped ok\<rparr>"])
      (use x c None in \<open>auto simp: returned_as_def intro: leads_to_here\<close>)
  next
    case (Some n)
    obtain r n' hs' where rel: "node_release (e_node env) (e_pubsub env) so to n (d_node (sd_dep x)) = (r, n', hs')"
      "\<not> live_host hs'" "live_ctx hs' = live_ctx (d_node (sd_dep x))"
      by (simp add: node_release_def Let_def)
    show ?thesis
      by (rule stop_leads_to [of _ _ _ _ _ "?x\<lparr>sd_srv := (sd_srv x)\<lparr>srv_node := Some n'\<rparr>, sd_dep := (sd_dep x)\<lparr>d_node := hs'\<rparr>, sd_pc := Stopped ok\<rparr>"])
        (use x c Some rel in \<open>auto simp: returned_as_def intro!: leads_to_here\<close>)
  qed
qed (use x in simp)

lemma closing_leads_to:
  assumes x: "sd_pc x = ClosingNode ok" "sd_now x + max 0 (Close_time (e_node env)) \<le> t" and c: "c \<longrightarrow> srv_node (sd_srv x) \<noteq> None"
  shows "leads_to env so to b t (returned_as ok (sd_waiter x) c) x"
proof (cases "srv_node (sd_srv x)")
  case None
  show ?thesis by (rule stop_leads_to [of _ _ _ _ _ "x\<lparr>sd_pc := Stopped ok\<rparr>"])
    (use x c None in \<open>auto simp: returned_as_def intro: leads_to_here\<close>)
next
  case (Some n)
  let ?y = "x\<lparr>sd_srv := (sd_srv x)\<lparr>srv_node := Some (n\<lparr>n_lib := ps_ContextDone (e_pubsub env) (n_lib n)\<rparr>)\<rparr>,
    sd_dep := (sd_dep x)\<lparr>d_node := (d_node (sd_dep x))\<lparr>live_ctx := False\<rparr>\<rparr>,
    sd_pc := ReleasingNode ok (sd_now x + max 0 (Close_time (e_node env)))\<rparr>"
  have "leads_to env so to b t (returned_as ok (sd_waiter ?y) c) ?y"
    by (rule releasing_leads_to [of _ _ "sd_now x + max 0 (Close_time (e_node env))"]) (use x in simp_all)
  with stop_leads_to [of env so to b x ?y t] x Some show ?thesis by (simp add: node_cancel_def)
qed

lemma services_lead_to:
  assumes "sd_pc x = StoppingServices ok k due" "c \<longrightarrow> srv_node (sd_srv x) \<noteq> None"
    and "max due (sd_now x) + stop_loop_time (lc_services (srv_lifecycle (sd_srv x))) k (d_services (sd_dep x)) +
      max 0 (Close_time (e_node env)) \<le> t"
  shows "leads_to env so to b t (returned_as ok (sd_waiter x) c) x"
  using assms
proof (induction k arbitrary: x due)
  case 0
  let ?y = "x\<lparr>sd_now := max due (sd_now x), sd_pc := ClosingNode ok\<rparr>"
  have "leads_to env so to b t (returned_as ok (sd_waiter ?y) c) ?y" by (rule closing_leads_to) (use 0 in simp_all)
  then have "leads_to env so to b t (returned_as ok (sd_waiter x) c) (x\<lparr>sd_now := max due (sd_now x)\<rparr>)"
    using 0 stop_leads_to [of env so to b "x\<lparr>sd_now := max due (sd_now x)\<rparr>" ?y t] by simp
  with clock_leads_to [of x env so to b t _ due] 0 show ?case by simp
next
  case (Suc k)
  let ?svc = "lc_services (srv_lifecycle (sd_srv x)) ! k" and ?w = "d_services (sd_dep x)" and ?now = "max due (sd_now x)"
  let ?y = "x\<lparr>sd_now := ?now, sd_dep := (sd_dep x)\<lparr>d_services := snd (svc_Stop ?svc ?w)\<rparr>,
    sd_pc := StoppingServices ok k (?now + max 0 (svc_StopTime ?svc ?w))\<rparr>"
  have "leads_to env so to b t (returned_as ok (sd_waiter ?y) c) ?y"
  proof (rule Suc.IH)
    have "max (?now + max 0 (svc_StopTime ?svc ?w)) ?now = ?now + max 0 (svc_StopTime ?svc ?w)" by (rule max_absorb1) simp
    with Suc.prems(3) show "max (?now + max 0 (svc_StopTime ?svc ?w)) (sd_now ?y) +
        stop_loop_time (lc_services (srv_lifecycle (sd_srv ?y))) k (d_services (sd_dep ?y)) + max 0 (Close_time (e_node env)) \<le> t"
      by (simp add: add.assoc)
  qed (use Suc.prems in simp_all)
  then have "leads_to env so to b t (returned_as ok (sd_waiter x) c) (x\<lparr>sd_now := ?now\<rparr>)"
    using Suc.prems stop_leads_to [of env so to b "x\<lparr>sd_now := ?now\<rparr>" ?y t] by (simp add: Let_def)
  with clock_leads_to [of x env so to b t _ due] Suc.prems(1) show ?case by simp
qed

lemma acts_append: "acts env so to (as @ bs) x = (case acts env so to as x of None \<Rightarrow> None | Some y \<Rightarrow> acts env so to bs y)"
  by (induction as arbitrary: x) (auto split: option.split)

text \<open>
  C19.  The drain can miss a stream.  Whenever \<^verbatim>\<open>Stop\<close> has removed the handlers, no stream is counted, and
  libp2p has dispatched a stream whose goroutine has not reached \<^verbatim>\<open>Add(1)\<close> yet, there is a schedule in
  which the drain reports that all streams are drained, \<^verbatim>\<open>Stop\<close> stops the services, closes the node with
  its host and returns, and only then the handler of that stream starts to run.
\<close>

theorem late_stream_survives:
  assumes "sd_pc x = Removing []" "at_stage Dispatched x i" "srv_activeStreams (sd_srv x) = 0"
    and "0 < cfg_ShutdownTimeout (srv_config (sd_srv x))" "srv_node (sd_srv x) = Some n"
  shows "\<exists>as y. acts env so to ([StopStep True, Waiter, StopStep True] @ as @ [EnterStream i]) x = Some y \<and>
    (\<forall>a \<in> set as. a = StopStep True \<or> (\<exists>dt. a = Clock dt)) \<and>
    sd_pc y = Stopped True \<and> at_stage Running y i \<and> \<not> live_host (d_node (sd_dep y)) \<and> \<not> live_ctx (d_node (sd_dep y))"
proof -
  let ?k = "length (lc_services (srv_lifecycle (sd_srv x)))"
  let ?z = "x\<lparr>sd_waiter := WaitReturned, sd_pc := StoppingServices True ?k (sd_now x), sd_done := True\<rparr>"
  have z: "acts env so to [StopStep True, Waiter, StopStep True] x = Some ?z" using assms by (simp add: act_def)
  have "\<exists>t. leads_to env so to True t (returned_as True (sd_waiter ?z) True) ?z"
    by (rule exI, rule services_lead_to [of _ _ ?k "sd_now x", OF _ _ order.refl]) (use assms in simp_all)
  then obtain as y where y: "acts env so to as ?z = Some y" "\<forall>a \<in> set as. a = StopStep True \<or> (\<exists>dt. a = Clock dt)"
    "sd_streams y = sd_streams x" "sd_pc y = Stopped True" "sd_waiter y = WaitReturned"
    "\<not> live_host (d_node (sd_dep y))" "\<not> live_ctx (d_node (sd_dep y))"
    by (auto simp: leads_to_def returned_as_def)
  have i: "at_stage Dispatched y i" using assms(2) y(3) by (simp add: at_stage_def)
  have "acts env so to ([StopStep True, Waiter, StopStep True] @ as @ [EnterStream i]) x = act env so to (EnterStream i) y"
    unfolding acts_append z using y(1) by (simp add: acts_append split: option.split)
  moreover obtain y' where "act env so to (EnterStream i) y = Some y'" "sd_pc y' = Stopped True" "at_stage Running y' i" "sd_dep y' = sd_dep y"
    using i y(4,5) by (simp add: act_def wg_Add_def at_stage_def set_stage_def)
  ultimately show ?thesis using y(2,6,7) by (intro exI [of _ as] exI [of _ y']) simp
qed

theorem late_stream_survives_witness:
  "\<exists>x y. acts memory_server [] [] [Dispatch ''/ping/1'', CallStop [''/ping/1''], StopStep True]
      (serving tracked_app running_deployment 0) = Some x \<and> sd_pc x = Removing [] \<and> at_stage Dispatched x 0 \<and>
    runs_to memory_server [] [] x y \<and> sd_pc y = Stopped True \<and> at_stage Running y 0 \<and> \<not> live_host (d_node (sd_dep y))"
proof -
  obtain x where x: "acts memory_server [] [] [Dispatch ''/ping/1'', CallStop [''/ping/1''], StopStep True]
      (serving tracked_app running_deployment 0) = Some x" "sd_pc x = Removing []" "at_stage Dispatched x 0"
    "sd_srv x = tracked_app\<lparr>srv_activeStreams := 0\<rparr>"
    by (simp add: act_def serving_def running_deployment_def tracked_app_fields at_stage_def)
  have "srv_activeStreams (sd_srv x) = 0" "0 < cfg_ShutdownTimeout (srv_config (sd_srv x))"
    "srv_node (sd_srv x) = Some (initial_node True Map.empty)"
    using x(4) by (simp_all add: tracked_app_fields)
  from late_stream_survives [OF x(2,3) this, of memory_server "[]" "[]"]
  obtain as y where y: "acts memory_server [] [] as x = Some y" "sd_pc y = Stopped True" "at_stage Running y 0" "\<not> live_host (d_node (sd_dep y))"
    by blast
  from x(1-3) y(2-4) acts_runs_to [OF y(1)] show ?thesis by blast
qed

subsection \<open>Stop returns\<close>

text \<open>Nothing that \<^verbatim>\<open>Stop\<close> waits for is further away than the limits allow; \<open>n\<close> is the number of services.\<close>

definition armed where
  "armed env listen shutdown n x \<longleftrightarrow> srv_lifecycle (sd_srv x) = members listen shutdown n \<and>
     (case sd_pc x of
        Draining timer \<Rightarrow> timer \<le> sd_now x + cfg_ShutdownTimeout (srv_config (sd_srv x))
      | StoppingServices ok k due \<Rightarrow> k \<le> n \<and> due \<le> sd_now x + (int n - int k) * shutdown_limit
      | ReleasingNode ok due \<Rightarrow> due \<le> sd_now x + max 0 (Close_time (e_node env))
      | _ \<Rightarrow> True)"

lemma stop_step_armed:
  assumes x: "armed env listen shutdown n x" and step: "stop_step env so to b (sd_pc x) x = Some y"
  shows "armed env listen shutdown n y"
proof (cases "sd_pc x")
  case (Removing ids)
  with x step show ?thesis by (cases ids) (auto simp: armed_def split: if_splits)
next
  case (Draining timer)
  with x step show ?thesis by (auto simp: armed_def split: if_splits)
next
  case (StoppingServices ok k due)
  show ?thesis
  proof (cases k)
    case 0
    with StoppingServices x step show ?thesis by (auto simp: armed_def split: if_splits)
  next
    case (Suc j)
    have "j < n" using x Suc StoppingServices by (simp add: armed_def)
    let ?t = "svc_StopTime (member listen shutdown j) (d_services (sd_dep x))"
    have "?t \<le> (int n - int j) * shutdown_limit"
      by (rule order_trans [OF member_StopTime(2)]) (use \<open>j < n\<close> in \<open>simp add: shutdown_limit_def Second_def\<close>)
    with StoppingServices Suc x step \<open>j < n\<close> show ?thesis
      using member_StopTime(1) [of listen shutdown j "d_services (sd_dep x)"] by (auto simp: armed_def Let_def split: if_splits)
  qed
next
  case (ClosingNode ok)
  with x step show ?thesis by (auto simp: armed_def split: option.splits prod.splits)
next
  case (ReleasingNode ok due)
  with x step show ?thesis by (auto simp: armed_def split: if_splits option.splits prod.splits)
qed (use step in simp_all)

interpretation arming: shutdown_invariant env so to "armed env listen shutdown n" for env so to listen shutdown n
proof
  fix x a y
  assume x: "armed env listen shutdown n x" and act: "act env so to a x = Some y"
  show "armed env listen shutdown n y"
  proof (cases "own_action a")
    case True
    then consider b where "a = StopStep b" | ids where "a = CallStop ids" by (auto simp: own_action_def split: action.splits)
    then show ?thesis
    proof cases
      case 1
      with act stop_step_armed [OF x, of so to b y] show ?thesis by (simp add: act_def split: if_splits)
    next
      case 2
      with x act show ?thesis by (auto simp: act_def armed_def split: if_splits)
    qed
  next
    case False
    note fr = act_frame [OF act False] act_config [OF act]
    then consider "sd_pc y = sd_pc x" | msg where "sd_pc y = Crashed msg" by (cases "sd_pc y") auto
    then show ?thesis
    proof cases
      case 1
      have "srv_lifecycle (sd_srv y) = srv_lifecycle (sd_srv x)" "srv_config (sd_srv y) = srv_config (sd_srv x)" "sd_now x \<le> sd_now y"
        using fr by simp_all
      with x 1 show ?thesis by (cases "sd_pc x") (simp_all add: armed_def)
    next
      case 2
      with x fr show ?thesis by (simp add: armed_def)
    qed
  qed
qed

text \<open>On a started server \<^verbatim>\<open>Stop\<close> does not panic.\<close>

definition hosted where
  "hosted x \<longleftrightarrow> srv_host (sd_srv x) \<and> sd_pc x \<noteq> StopPanicked"

interpretation hosting: shutdown_invariant env so to hosted for env so to
proof
  fix x a y
  assume x: "hosted x" and act: "act env so to a x = Some y"
  show "hosted y"
  proof (cases "own_action a")
    case True
    with x act show ?thesis
      by (cases a) (auto simp: act_def hosted_def own_action_def Let_def elim!: stop_stepE split: if_splits option.splits prod.splits nat.splits)
  next
    case False
    from x act_frame [OF act False] act_config [OF act] show ?thesis by (auto simp: hosted_def)
  qed
qed

lemma returned_leads_to:
  "leads_to env so to b t (returned_as ok w c) x \<Longrightarrow> leads_to env so to b t (\<lambda>y. \<exists>ok. sd_pc y = Stopped ok) x"
  unfolding leads_to_def returned_as_def by blast

text \<open>The instant by which \<^verbatim>\<open>Stop\<close> is through, once it has the drain behind it.\<close>

abbreviation tail_time :: "nat \<Rightarrow> ('ma, 'ai, 'p) node_env \<Rightarrow> duration" where
  "tail_time n ne \<equiv> int n * shutdown_limit + max 0 (Close_time ne)"

lemma services_return:
  assumes "sd_pc x = StoppingServices ok k due" "srv_lifecycle (sd_srv x) = members listen shutdown n" "k \<le> n"
    and "max due (sd_now x) + int k * shutdown_limit + max 0 (Close_time (e_node env)) \<le> t"
  shows "leads_to env so to b t (\<lambda>y. \<exists>ok. sd_pc y = Stopped ok) x"
proof -
  have "leads_to env so to b t (returned_as ok (sd_waiter x) False) x"
    by (rule services_lead_to [OF assms(1)])
      (use assms(2,4) members_time [OF assms(3), of listen shutdown "d_services (sd_dep x)"] in simp_all)
  then show ?thesis by (rule returned_leads_to)
qed

lemma draining_returns:
  assumes x: "sd_pc x = Draining timer" "srv_lifecycle (sd_srv x) = members listen shutdown n"
    and t: "max timer (sd_now x) + tail_time n (e_node env) \<le> t"
  shows "leads_to env so to False t (\<lambda>y. \<exists>ok. sd_pc y = Stopped ok) x"
proof -
  let ?x = "x\<lparr>sd_now := max timer (sd_now x)\<rparr>"
  let ?y = "?x\<lparr>sd_pc := StoppingServices False n (max timer (sd_now x))\<rparr>"
  have "leads_to env so to False t (\<lambda>y. \<exists>ok. sd_pc y = Stopped ok) ?y"
    by (rule services_return [of _ False n "max timer (sd_now x)" listen shutdown n]) (use x t in simp_all)
  with stop_leads_to [of env so to False ?x ?y t] x have "leads_to env so to False t (\<lambda>y. \<exists>ok. sd_pc y = Stopped ok) ?x" by simp
  with clock_leads_to [of x env so to False t _ timer] x show ?thesis by simp
qed

lemma removing_returns:
  assumes "sd_pc x = Removing ids" "srv_host (sd_srv x)" "srv_lifecycle (sd_srv x) = members listen shutdown n"
    and "sd_now x + max 0 (cfg_ShutdownTimeout (srv_config (sd_srv x))) + tail_time n (e_node env) \<le> t"
  shows "leads_to env so to False t (\<lambda>y. \<exists>ok. sd_pc y = Stopped ok) x"
  using assms
proof (induction ids arbitrary: x)
  case Nil
  let ?d = "cfg_ShutdownTimeout (srv_config (sd_srv x))"
  show ?case
  proof (cases "0 < ?d")
    case True
    let ?y = "x\<lparr>sd_waiter := Entering, sd_pc := Draining (sd_now x + ?d)\<rparr>"
    have "leads_to env so to False t (\<lambda>y. \<exists>ok. sd_pc y = Stopped ok) ?y"
      by (rule draining_returns [of _ "sd_now x + ?d" listen shutdown n]) (use Nil True in simp_all)
    with stop_leads_to [of env so to False x ?y t] Nil True show ?thesis by simp
  next
    case False
    let ?y = "x\<lparr>sd_pc := StoppingServices False n (sd_now x)\<rparr>"
    have "leads_to env so to False t (\<lambda>y. \<exists>ok. sd_pc y = Stopped ok) ?y"
      by (rule services_return [of _ False n "sd_now x" listen shutdown n]) (use Nil False in simp_all)
    with stop_leads_to [of env so to False x ?y t] Nil False show ?thesis by simp
  qed
next
  case (Cons proto ids)
  let ?y = "x\<lparr>sd_dep := (sd_dep x)\<lparr>d_handlers := (d_handlers (sd_dep x))(proto := None)\<rparr>, sd_pc := Removing ids\<rparr>"
  have "leads_to env so to False t (\<lambda>y. \<exists>ok. sd_pc y = Stopped ok) ?y" by (rule Cons.IH) (use Cons.prems in simp_all)
  with stop_leads_to [of env so to False x ?y t] Cons.prems show ?case by simp
qed

lemma stop_returns:
  assumes x: "armed env listen shutdown n x" "hosted x" "sd_pc x \<noteq> Serving" "\<not> crashed (sd_pc x)"
    and t: "t = sd_now x + max 0 (cfg_ShutdownTimeout (srv_config (sd_srv x))) + tail_time n (e_node env)"
  shows "leads_to env so to False t (\<lambda>y. \<exists>ok. sd_pc y = Stopped ok) x"
proof -
  have lc: "srv_lifecycle (sd_srv x) = members listen shutdown n" using x(1) by (simp add: armed_def)
  have n: "0 \<le> int n * shutdown_limit" by (simp add: shutdown_limit_def Second_def)
  show ?thesis
  proof (cases "sd_pc x")
    case (Removing ids)
    then show ?thesis by (rule removing_returns [OF _ _ lc]) (use x t in \<open>simp_all add: hosted_def\<close>)
  next
    case (Draining timer)
    then have "timer \<le> sd_now x + cfg_ShutdownTimeout (srv_config (sd_srv x))" using x(1) by (simp add: armed_def)
    then have "max timer (sd_now x) \<le> sd_now x + max 0 (cfg_ShutdownTimeout (srv_config (sd_srv x)))" by linarith
    with t show ?thesis by (intro draining_returns [OF Draining lc]) simp
  next
    case (StoppingServices ok k due)
    then have k: "k \<le> n" "due \<le> sd_now x + (int n - int k) * shutdown_limit" using x by (simp_all add: armed_def)
    have "(int n - int k) * shutdown_limit + int k * shutdown_limit = int n * shutdown_limit" "0 \<le> (int n - int k) * shutdown_limit"
      using k(1) by (simp_all add: algebra_simps shutdown_limit_def Second_def)
    with k(2) t show ?thesis by (intro services_return [OF StoppingServices lc k(1)]) simp
  next
    case (ClosingNode ok)
    have "leads_to env so to False t (returned_as ok (sd_waiter x) False) x"
      by (rule closing_leads_to [OF ClosingNode]) (use t n in simp_all)
    then show ?thesis by (rule returned_leads_to)
  next
    case (ReleasingNode ok due)
    then have "due \<le> sd_now x + max 0 (Close_time (e_node env))" using x(1) by (simp add: armed_def)
    then have "max due (sd_now x) \<le> t" using t n by linarith
    then have "leads_to env so to False t (returned_as ok (sd_waiter x) False) x"
      by (rule releasing_leads_to [OF ReleasingNode]) simp
    then show ?thesis by (rule returned_leads_to)
  next
    case (Stopped ok)
    then show ?thesis by (intro leads_to_here) (use t n in simp_all)
  qed (use x in \<open>simp_all add: hosted_def\<close>)
qed

text \<open>
  C18.  \<^verbatim>\<open>Stop\<close> can always return.  Once it has been called on a started server whose services are tickers and
  health checks, as long as the process has not crashed, in whatever state the streams are and whatever
  they do not do, its own steps and the passing of time lead to its return, with no step of a stream or
  of the goroutine that waits for them: within the shutdown timeout, 5 s for each service and the time
  that closing the node takes.
\<close>

theorem stop_returns_unaided:
  assumes run: "runs_to env so to (serving s d now) x" and host: "srv_host s" and svcs: "srv_lifecycle s = members listen shutdown n"
    and called: "sd_pc x \<noteq> Serving" "\<not> crashed (sd_pc x)"
  shows "\<exists>as y drained. acts env so to as x = Some y \<and> (\<forall>a \<in> set as. a = StopStep False \<or> (\<exists>dt. a = Clock dt)) \<and>
    sd_pc y = Stopped drained \<and> sd_streams y = sd_streams x \<and>
    sd_now y \<le> sd_now x + max 0 (cfg_ShutdownTimeout (srv_config s)) + int n * (5 * Second) + max 0 (Close_time (e_node env))"
proof -
  have "armed env listen shutdown n (serving s d now)" using svcs by (simp add: armed_def serving_def)
  with run have armed: "armed env listen shutdown n x" by (rule arming.runs_keep)
  have cfg: "srv_config (sd_srv x) = srv_config s" using runs_config [OF run] by (simp add: serving_def)
  have "hosted (serving s d now)" using host by (simp add: hosted_def serving_def)
  with run have "hosted x" by (rule hosting.runs_keep)
  from stop_returns [OF armed this called refl, of so to] show ?thesis
    unfolding leads_to_def by (auto simp: cfg shutdown_limit_def add.assoc)
qed

theorem stop_returns_unaided_witness:
  "\<exists>x as y drained. acts memory_server [] [] [Dispatch ''/ping/1'', EnterStream 0, Dispatch ''/ping/1'', CallStop [''/ping/1''], StopStep True]
      (serving tracked_app running_deployment 0) = Some x \<and> at_stage Running x 0 \<and>
    acts memory_server [] [] as x = Some y \<and> sd_pc y = Stopped drained \<and> at_stage Running y 0"
proof -
  obtain x where x: "acts memory_server [] [] [Dispatch ''/ping/1'', EnterStream 0, Dispatch ''/ping/1'', CallStop [''/ping/1''], StopStep True]
      (serving tracked_app running_deployment 0) = Some x" "sd_pc x = Removing []" "at_stage Running x 0"
    using tracked_prefix by blast
  have "srv_lifecycle tracked_app = members (\<lambda>a. None) (\<lambda>i. (None, 0)) 2" by (simp add: tracked_app_def)
  from stop_returns_unaided [OF acts_runs_to [OF x(1)] tracked_app_fields(1) this] x(2)
  obtain as y drained where "acts memory_server [] [] as x = Some y" "sd_pc y = Stopped drained" "sd_streams y = sd_streams x"
    by auto
  moreover from this x(3) have "at_stage Running y 0" by (simp add: at_stage_def)
  ultimately show ?thesis using x(1,3) by blast
qed

subsection \<open>A late Add can crash the process\<close>

text \<open>
  C20.  A late \<^verbatim>\<open>Add\<close> can crash the process.  While \<^verbatim>\<open>Stop\<close> waits for one last stream and libp2p has dispatched
  another whose goroutine has not reached \<^verbatim>\<open>Add(1)\<close>, the end of the one and the start of the other race: if
  the \<^verbatim>\<open>Add\<close> comes while \<^verbatim>\<open>Done\<close> releases the waiting goroutine, \<^verbatim>\<open>Add\<close> panics; if it comes between the
  release and the return of \<^verbatim>\<open>Wait\<close>, \<^verbatim>\<open>Wait\<close> panics, in a goroutine of \<^verbatim>\<open>Stop\<close> with no recover.
\<close>

theorem late_Add_crashes:
  assumes drain: "sd_pc x = Draining timer" "sd_waiter x = Blocked" "srv_activeStreams (sd_srv x) = 1"
    and last: "at_stage Running x j" "p_activeStreams (in_handler (sd_streams x ! j))"
    and late: "at_stage Dispatched x i" "p_activeStreams (in_handler (sd_streams x ! i))"
  shows "\<exists>y z. acts env so to [ExitStream j, EnterStream i] x = Some y \<and>
    sd_pc y = Crashed ''sync: WaitGroup misuse: Add called concurrently with Wait'' \<and>
    acts env so to [ExitStream j, Waiter, EnterStream i, Waiter] x = Some z \<and>
    sd_pc z = Crashed ''sync: WaitGroup is reused before previous Wait has returned''"
proof -
  have "i \<noteq> j" using last late by (auto simp: at_stage_def)
  with assms show ?thesis
    by (simp add: act_def at_stage_def set_stage_def wg_Done_def wg_Add_def Done_active_def Add_active_def)
qed

theorem late_Add_crashes_witness:
  "\<exists>x z. acts memory_server [] [] [Dispatch ''/ping/1'', EnterStream 0, Dispatch ''/ping/1'', CallStop [''/ping/1''], StopStep True,
      StopStep True, Waiter] (serving tracked_app running_deployment 0) = Some x \<and>
    acts memory_server [] [] [ExitStream 0, Waiter, EnterStream 1, Waiter] x = Some z \<and> crashed (sd_pc z)"
proof -
  obtain x where x: "acts memory_server [] [] [Dispatch ''/ping/1'', EnterStream 0, Dispatch ''/ping/1'', CallStop [''/ping/1''], StopStep True,
      StopStep True, Waiter] (serving tracked_app running_deployment 0) = Some x"
    "sd_pc x = Draining 5000000000" "sd_waiter x = Blocked" "srv_activeStreams (sd_srv x) = 1"
    "at_stage Running x 0" "p_activeStreams (in_handler (sd_streams x ! 0))"
    "at_stage Dispatched x 1" "p_activeStreams (in_handler (sd_streams x ! 1))"
    by (simp add: act_def serving_def running_deployment_def tracked_app_fields at_stage_def set_stage_def wg_Add_def Add_active_def)
  from late_Add_crashes [OF x(2-8), of memory_server "[]" "[]"]
  obtain z where "acts memory_server [] [] [ExitStream 0, Waiter, EnterStream 1, Waiter] x = Some z" "crashed (sd_pc z)"
    using crashed.simps(1) by metis
  with x(1) show ?thesis by blast
qed

end
