(* ===== verification/Codec_Memory.thy ===== *)
theory Codec_Memory
  imports Forge_Test
begin

text \<open>
  The memory a frame costs while it is being read, \<^verbatim>\<open>readLargeBody\<close> of \<^verbatim>\<open>src/codec/frame.go\<close>: the capacity of
  the slice \<^verbatim>\<open>data\<close> at every turn of the loop.  \<^verbatim>\<open>append\<close> grows a slice by the rule of the Go runtime
  (\<^verbatim>\<open>growslice\<close> with \<^verbatim>\<open>nextslicecap\<close> and \<^verbatim>\<open>roundupsize\<close>), written out here for elements of one byte.
\<close>

definition largeFrameInitialCap :: nat where [forge_defs]: "largeFrameInitialCap = 256 * 1024"

subsection \<open>Growth of a slice\<close>

text \<open>By a quarter and 192 until the new length fits.\<close>

function grow_loop :: "nat \<Rightarrow> nat \<Rightarrow> nat" where
  "grow_loop newLen newcap =
     (let newcap' = newcap + (newcap + 3 * 256) div 4 in if newLen \<le> newcap' then newcap' else grow_loop newLen newcap')"
  by pat_completeness auto
termination
  by (relation "measure (\<lambda>(newLen, newcap). newLen - newcap)") auto

declare grow_loop.simps [simp del]

definition nextslicecap :: "nat \<Rightarrow> nat \<Rightarrow> nat" where
  "nextslicecap newLen oldCap =
     (if 2 * oldCap < newLen then newLen else if oldCap < 256 then 2 * oldCap else grow_loop newLen oldCap)"

text \<open>
  \<open>small\<close> are the allocator's size classes, up to \<^verbatim>\<open>maxSmallSize - mallocHeaderSize\<close>; above that sizes are
  rounded up to pages of 8 KB.
\<close>

definition roundupsize :: "(nat \<Rightarrow> nat) \<Rightarrow> nat \<Rightarrow> nat" where
  "roundupsize small n = (if n \<le> 32760 then small n else (n + 8191) div 8192 * 8192)"

definition append_cap :: "(nat \<Rightarrow> nat) \<Rightarrow> nat \<Rightarrow> nat \<Rightarrow> nat" where
  "append_cap small cap newLen = (if newLen \<le> cap then cap else roundupsize small (nextslicecap newLen cap))"

subsection \<open>The loop\<close>

text \<open>
  The length and the capacity of \<^verbatim>\<open>data\<close> each time the loop tests its condition, in order.  The list ends
  where the loop does, and also where a read blocks for good: what is last in it is held meanwhile.
\<close>

function body_memory ::
  "(nat \<Rightarrow> nat) \<Rightarrow> 's io_object \<Rightarrow> nat \<Rightarrow> duration \<Rightarrow> nat \<Rightarrow> nat \<Rightarrow> 's \<Rightarrow> (nat \<times> nat) list" where
  "body_memory small r len idle rcvd cap s =
     (rcvd, cap) #
     (if rcvd < len then
        (case ReadFull r (min chunkSize (len - rcvd)) (armRead r idle s) of
           None \<Rightarrow> []
         | Some ((chunk, Some e), s') \<Rightarrow> []
         | Some ((chunk, None), s') \<Rightarrow>
             body_memory small r len idle (rcvd + length chunk) (append_cap small cap (rcvd + length chunk)) s')
      else [])"
  by pat_completeness auto
termination
  by (relation "measure (\<lambda>(small, r, len, idle, rcvd, cap, s). len - rcvd)") (auto dest!: ReadFull_full)

declare body_memory.simps [simp del]

definition readLargeBody_memory :: "(nat \<Rightarrow> nat) \<Rightarrow> 's io_object \<Rightarrow> nat \<Rightarrow> duration \<Rightarrow> 's \<Rightarrow> (nat \<times> nat) list" where
  "readLargeBody_memory small r len idle s = body_memory small r len idle 0 (min len largeFrameInitialCap) s"

text \<open>The loop of the codec and its memory go through the same states.\<close>

lemma body_memory_last:
  "readLargeBody_loop r len idle acc s = Some (Inr d, s') \<Longrightarrow>
     \<exists>c. last (body_memory small r len idle (length acc) cap s) = (length d, c)"
proof (induction r len idle acc s arbitrary: cap rule: readLargeBody_loop.induct)
  case (1 r len idle acc s)
  show ?case
  proof (cases "length acc < len")
    case False
    with 1(2) show ?thesis by (simp add: readLargeBody_loop.simps [of r len] body_memory.simps [of small r len])
  next
    case True
    with 1(2) obtain chunk s1 where rd: "ReadFull r (min chunkSize (len - length acc)) (armRead r idle s) = Some ((chunk, None), s1)"
      "readLargeBody_loop r len idle (acc @ chunk) s1 = Some (Inr d, s')"
      by (subst (asm) readLargeBody_loop.simps) (auto split: option.splits prod.splits)
    have "body_memory small r len idle (length (acc @ chunk)) c s1 \<noteq> []" for c by (subst body_memory.simps) simp
    with 1(1) [OF True rd(1) refl refl refl rd(2)] True rd(1) show ?thesis
      by (subst body_memory.simps) simp
  qed
qed

subsection \<open>Bounds\<close>

text \<open>A quarter more than what has arrived, one growth step and one page; or the initial capacity.\<close>

definition memory_bound :: "nat \<Rightarrow> nat" where
  "memory_bound rcvd = max largeFrameInitialCap (rcvd + rcvd div 4 + 8384)"

lemma grow_loop_bound: "newcap < newLen \<Longrightarrow> grow_loop newLen newcap \<le> newLen + (newLen + 768) div 4"
proof (induction newLen newcap rule: grow_loop.induct)
  case (1 newLen newcap)
  let ?c = "newcap + (newcap + 768) div 4"
  have step: "?c \<le> newLen + (newLen + 768) div 4" using 1(2) div_le_mono [of "newcap + 768" "newLen + 768" 4] by simp
  show ?case
    using 1(1) [OF refl] step by (subst grow_loop.simps) (auto simp: Let_def)
qed

lemma grow_loop_ge: "newLen \<le> grow_loop newLen newcap"
  by (induction newLen newcap rule: grow_loop.induct) (subst grow_loop.simps, simp add: Let_def)

lemma append_cap_bound:
  assumes "cap \<le> memory_bound rcvd" "32760 < cap" "rcvd \<le> newLen"
  shows "append_cap small cap newLen \<le> memory_bound newLen" "32760 < append_cap small cap newLen"
proof -
  have mono: "cap \<le> memory_bound newLen"
    using assms(1,3) div_le_mono [OF assms(3), of 4] by (auto simp: memory_bound_def)
  have grown: "newLen \<le> nextslicecap newLen cap" "nextslicecap newLen cap \<le> newLen + (newLen + 768) div 4" if "cap < newLen"
    using that assms(2) grow_loop_bound [OF that] grow_loop_ge [of newLen cap] by (auto simp: nextslicecap_def)
  have pages: "n \<le> (n + 8191) div 8192 * 8192 \<and> (n + 8191) div 8192 * 8192 \<le> n + 8191" for n :: nat
    using div_times_less_eq_dividend [of "n + 8191" 8192] dividend_less_div_times [of 8192 "n + 8191"] by simp
  show "append_cap small cap newLen \<le> memory_bound newLen"
    using mono grown pages [of "nextslicecap newLen cap"] assms(2)
    by (auto simp: append_cap_def roundupsize_def memory_bound_def)
  show "32760 < append_cap small cap newLen"
    using grown pages [of "nextslicecap newLen cap"] assms(2) by (auto simp: append_cap_def roundupsize_def)
qed

context honest_reader
begin

lemma body_memory_bound:
  assumes "rcvd \<le> len" "cap \<le> memory_bound rcvd" "32760 < cap \<or> len \<le> cap"
    and "(k, c) \<in> set (body_memory small io len idle rcvd cap s)"
  shows "k \<le> len \<and> c \<le> memory_bound k"
  using assms
proof (induction "len - rcvd" arbitrary: rcvd cap s rule: less_induct)
  case less
  show ?case
  proof (cases "(k, c) = (rcvd, cap)")
    case True
    with less.prems(1,2) show ?thesis by simp
  next
    case False
    let ?rd = "ReadFull io (min chunkSize (len - rcvd)) (armRead io idle s)"
    have tail: "(k, c) \<in> set (if rcvd < len then
        (case ?rd of None \<Rightarrow> [] | Some ((chunk, Some e), s') \<Rightarrow> []
         | Some ((chunk, None), s') \<Rightarrow>
             body_memory small io len idle (rcvd + length chunk) (append_cap small cap (rcvd + length chunk)) s') else [])"
      using less.prems(4) False by (subst (asm) body_memory.simps) (simp only: set_simps insert_iff simp_thms)
    then have "rcvd < len" by (cases "rcvd < len") simp_all
    moreover from tail this obtain chunk s1 where "?rd = Some ((chunk, None), s1)"
      by (cases ?rd) (auto split: option.splits)
    moreover note tail
    ultimately have rd: "?rd = Some ((chunk, None), s1)" "rcvd < len"
      and more: "(k, c) \<in> set (body_memory small io len idle (rcvd + length chunk) (append_cap small cap (rcvd + length chunk)) s1)"
      by simp_all
    let ?n = "rcvd + length chunk"
    have n: "?n \<le> len" using ReadFull_len [OF rd(1)] rd(2) by auto
    have "append_cap small cap ?n \<le> memory_bound ?n \<and> (32760 < append_cap small cap ?n \<or> len \<le> append_cap small cap ?n)"
    proof (cases "32760 < cap")
      case True
      with append_cap_bound [OF less.prems(2) True, of ?n] show ?thesis by simp
    next
      case False
      with less.prems(3) n have "len \<le> cap" "append_cap small cap ?n = cap" by (simp_all add: append_cap_def)
      moreover have "memory_bound rcvd \<le> memory_bound ?n" using div_le_mono [of rcvd ?n 4] by (auto simp: memory_bound_def)
      ultimately show ?thesis using less.prems(2) by simp
    qed
    moreover have "len - ?n < len - rcvd" using ReadFull_full [OF rd(1)] rd(2) by simp
    ultimately show ?thesis using less.hyps [of ?n "append_cap small cap ?n" s1] n more by blast
  qed
qed

end

subsection \<open>Properties\<close>

text \<open>
  C16.  Memory follows the bytes received, not the bytes promised.  Whatever length a peer declares and
  however a reader that keeps the \<^verbatim>\<open>io.Reader\<close> contract delivers, blocks or fails, whenever \<^verbatim>\<open>readLargeBody\<close> holds \<open>k\<close> bytes of the body its slice has
  a capacity of at most 256 KB, or a quarter more than \<open>k\<close> and a little over 8 KB, whichever is more; and
  when it returns, what it held last was the body.
\<close>

theorem memory_tracks_bytes:
  assumes "honest_reader r"
  shows "(\<forall>(k, c) \<in> set (readLargeBody_memory small r len idle s).
      k \<le> len \<and> c \<le> max largeFrameInitialCap (k + k div 4 + 8384)) \<and>
   (\<forall>d s'. readLargeBody r len idle s = Some (Inr d, s') \<longrightarrow> fst (last (readLargeBody_memory small r len idle s)) = length d)"
proof -
  have start: "min len largeFrameInitialCap \<le> memory_bound 0" "32760 < min len largeFrameInitialCap \<or> len \<le> min len largeFrameInitialCap"
    by (auto simp: memory_bound_def largeFrameInitialCap_def)
  show ?thesis
    using honest_reader.body_memory_bound [OF assms le0 start, folded readLargeBody_memory_def, unfolded memory_bound_def]
      body_memory_last [of r len idle "[]" s _ _ small "min len largeFrameInitialCap"]
    by (fastforce simp: readLargeBody_def readLargeBody_memory_def)
qed

theorem memory_tracks_bytes_witness:
  "snd (last (readLargeBody_memory (\<lambda>n. n) buffer_io 10000000 0 [1, 2, 3])) \<le> 262144"
proof -
  have "ReadFull buffer_io 65536 [1, 2, 3] = Some (([1, 2, 3], Some ErrUnexpectedEOF), [])"
    by (simp add: ReadFull_def read_loop_more [where bs = "[1, 2, 3]" and s' = "[]"] read_loop_error [where bs = "[]" and s' = "[]" and e = EOF]
      buffer_io_def Buffer_Read_def)
  then have "readLargeBody_memory (\<lambda>n. n) buffer_io 10000000 0 [1, 2, 3] = [(0, 262144)]"
    by (simp add: readLargeBody_memory_def body_memory.simps armRead_def largeFrameInitialCap_def)
  then show ?thesis
    using memory_tracks_bytes [OF buffer_honest.honest_reader_axioms, of "\<lambda>n. n" 10000000 0 "[1, 2, 3]"] by (simp add: largeFrameInitialCap_def)
qed

end
