(* ===== verification/Spec2Isabelle.thy ===== *)
theory Spec2Isabelle
  imports Rated_Service Shutdown Codec_Memory
begin

text \<open>
  \<^bold>\<open>go-p2p-forge.\<close>  A Go framework for libp2p servers: a pipeline of middleware per inbound stream, a
  length-prefixed frame codec with pooled buffers, per-peer rate limiters, background services, a P2P
  node (DHT and GossipSub), host creation with connection limits, and a server that starts and stops
  all of it.  This development models that code in HOL and proves the theorems that make it correct.

  \<^bold>\<open>The program's parts and their theories.\<close>

  \<^item> \<open>Forge_Prelude\<close>, \<open>Forge_Errors\<close>: Go's 64-bit integers with wrap-around, time, bytes, decimal printing;
    the error values of \<^verbatim>\<open>src/errors.go\<close> and of the middleware package with their texts,
    \<^verbatim>\<open>errors.Is\<close> and \<^verbatim>\<open>errors.As\<close>.
  \<^item> \<open>Codec_Pool\<close> (\<^verbatim>\<open>src/codec/pool.go\<close>): \<^verbatim>\<open>BufferPool\<close> and \<^verbatim>\<open>PoolBuffer\<close> over an explicit store of backing
    arrays, because what matters is which buffers share an array.  Whether \<^verbatim>\<open>sync.Pool\<close> reuses an array or
    makes one is an argument of \<open>Get\<close>.
  \<^item> \<open>Go_IO\<close>, \<open>Codec_Frame\<close> (\<^verbatim>\<open>src/codec/frame.go\<close>): readers and writers as functions on a stream state (a
    call that blocks forever is \<^const>\<open>None\<close>), and the frame codec over any of them, idle deadlines
    included.  \<open>Forge_Test\<close> (\<^verbatim>\<open>src/forgetest\<close>): the mock stream and the pipe stream, on which the locales
    \<open>byte_source\<close>, \<open>honest_reader\<close>, \<open>byte_sink\<close>, \<open>timed_reader\<close>, \<open>deadline_reader\<close> and \<open>reset_reader\<close> are
    interpreted.  \<open>Codec_Memory\<close>: the length and capacity of the slice a large frame is read into.
  \<^item> \<open>Rate_Limiter\<close>, \<open>Rate_Window\<close> (\<^verbatim>\<open>src/middleware/ratelimit.go\<close>), \<open>Float64\<close>, \<open>Rate_Token\<close>
    (\<^verbatim>\<open>src/middleware/tokenbucket.go\<close>): the sharded table, the sliding window and the token bucket.  A
    \<^verbatim>\<open>float64\<close> is a rational, each operation followed by rounding to 53 bits (\<open>fl64\<close>).  The locales
    \<open>peer_limiter\<close> and \<open>sweeping_limiter\<close> state what a limiter owes its peers; both limiters
    interpret them.
  \<^item> \<open>Stream_Context\<close> (\<^verbatim>\<open>src/context.go\<close>, \<^verbatim>\<open>registry.go\<close>, \<^verbatim>\<open>metrics.go\<close>), \<open>Pipeline\<close> (\<^verbatim>\<open>src/pipeline.go\<close>),
    \<open>Middleware\<close> (\<^verbatim>\<open>src/codec_iface.go\<close>, \<^verbatim>\<open>codec_middleware.go\<close>, \<^verbatim>\<open>codec_json.go\<close>, the other files of
    \<^verbatim>\<open>src/middleware\<close>): a middleware is a function of its continuation and the world, and returns,
    panics or diverges.  \<open>world_order\<close> is the interface between a pipeline and middleware that keeps
    some part of the world; \<open>context_order\<close> extends it with what middleware that touches the request
    alone gets for free.  They are interpreted for the buffer pool (\<open>same_pool\<close>).  \<open>Rated_Service\<close>: any
    number of concurrent streams at the rate limiter, their decisions, the start and the end of their
    handlers, and the sweeper's shards as steps in any order.
  \<^item> \<open>Services\<close> (\<^verbatim>\<open>src/service\<close>): lifecycle, ticker, health check, and the time that stopping them takes (a
    health check waits up to 5 s for its connections); the locale \<open>service_group\<close> is the contract of a
    service, interpreted for tickers and health checks.
  \<^item> \<open>Node\<close>, \<open>Node_Topics\<close>, \<open>Node_Life\<close> (\<^verbatim>\<open>src/node\<close>): the topic calls of a node as interleaved atomic steps
    of any number of goroutines; \<open>topic_invariant\<close> is the proof rule for properties guarded by the
    per-topic mutex.  \<open>New\<close>, \<open>Close\<close>, which cancels the context of the pubsub library before anything
    else, and the routing table filter.
  \<^item> \<open>Host\<close>, \<open>Identity\<close> (\<^verbatim>\<open>src/host\<close>): the option list, limits and relay resources; identity files and their
    encodings, with \<^verbatim>\<open>filepath.Clean\<close>, \<^verbatim>\<open>strings.TrimSpace\<close>, hex and base64 written out.
  \<^item> \<open>Server\<close> (\<^verbatim>\<open>src/forge.go\<close>, \<^verbatim>\<open>src/config.go\<close>): configuration, options, start, stop, outbound streams and
    callbacks.  \<open>Shutdown\<close>: \<^verbatim>\<open>Stop\<close> statement by statement, service by service, with the time its calls
    take; the goroutine in \<^verbatim>\<open>WaitGroup.Wait\<close>, with the panics of a \<^verbatim>\<open>WaitGroup\<close> that is used again too early;
    and streams that are dispatched, enter \<^verbatim>\<open>HandleStream\<close>, work on the node and the services, and leave,
    in any order.  \<open>shutdown_invariant\<close> is its proof rule, interpreted for the counter, the phases of
    \<^verbatim>\<open>Stop\<close>, the timer, the awaited streams, the removed protocols and the limits of each wait.  This theory: a whole service, the pipeline of
    the README, end to end.

  \<^bold>\<open>What the theorems show.\<close>  Pool: live buffers never share memory, release is idempotent.  Codec: a
  sequence of written frames is read back, the reader refines a parser on byte lists, every read with
  an idle timeout returns, a peer that fills each chunk in time is served, and one that is slower is
  cut off; memory follows the bytes received.  Limiters: exact admission, bounds on what any history admits, background cleanup changes
  no answer, a retry time is honoured, peers do not interfere.  Pipeline: whatever the middleware does,
  panics included, the pooled buffer goes back and the stream is closed; panics are contained; a
  chain is inlined; routing, rejection and multi-frame responses; the request timeout bounds a read; behind a rate limiter
  the handler runs only for admitted requests, and those admitted for a peer in one window keep to the limit; registered services reach the handlers at
  their type.
  Services: start is all or nothing, stop is complete.  Node: mutual exclusion, agreement with the
  pubsub library in every interleaving, completion of every schedule, and how a topic is lost.  Host:
  limits without overflow, identities that persist, seeds that are never accepted.  Server: start is
  all or nothing over host, DHT, context and services; stop releases them within the drain timeout, 5 s
  for each service and the time that closing the node takes.
  Shutdown: a drain that reports done has waited for every stream that had entered its handler, no
  stream arrives after it, \<^verbatim>\<open>Stop\<close> returns without the help of any stream; and a stream that was
  dispatched but had not entered can outlive it, or crash the process.

  \<^bold>\<open>Loops.\<close>  There is no fuel.  Loops over chunks and indices are \<^theory_text>\<open>function\<close> with a measure; reads that
  may block and iterators that may never end are \<^theory_text>\<open>partial_function (option)\<close>, and where a theorem says
  such a call returns, it says so with an equation to \<^const>\<open>Some\<close>.

  \<^bold>\<open>Parameters.\<close>  libp2p, go-libp2p-pubsub, the DHT, YAML and JSON encoding, libp2p crypto, the file
  system, the clock, \<^verbatim>\<open>sync.Pool\<close>'s choices, \<^verbatim>\<open>net.Listen\<close> and \<^verbatim>\<open>http.Server\<close>'s answers are arguments; what a
  theorem needs of them (\<open>pubsub_contract\<close>, \<open>pubsub_reliable\<close>, \<open>keys_roundtrip\<close>, \<open>reads_back\<close>,
  \<open>wants_64_or_96\<close>) is a hypothesis, and a witness satisfies it with a library in memory.

  \<^bold>\<open>Not modelled.\<close>  What is written to loggers, which nothing reads; the zero structs the test streams
  return for \<^verbatim>\<open>Stat\<close>, \<^verbatim>\<open>Scope\<close> and \<^verbatim>\<open>ConnState\<close>; the examples and tests.  Time is an argument
  or a step, never measured from the work done: \<^verbatim>\<open>Start\<close> takes the time its caller says, and memory is
  unbounded (see \<open>Rate_Window\<close> for the one loop where that matters).  A ticker counts as stopped when its
  context is cancelled; a run of its work function that is in progress is not waited for, as in the
  code.  In \<open>Shutdown\<close> a handler's work on node and services is an arbitrary change of their state; in
  \<open>Server\<close> the application's use of the running server is one function.  What the loops of \<^verbatim>\<open>Node.Close\<close>
  achieve in the library after its context is cancelled is left to the library.  The pointers by which several servers may share one
  \<^verbatim>\<open>Config\<close> are not modelled: a server has its own configuration.
\<close>

subsection \<open>A whole service\<close>

text \<open>
  The pipeline of the README's quick start: recovery, response writer, frame decoder, rate limiter,
  deserialiser and a handler that answers every request.  The instant of the limiter's decision is
  the argument \<open>t\<close>.
\<close>

definition ping_pipeline ::
  "'s stream_object \<Rightarrow> 'i frame_iterator \<Rightarrow> (('v, 'i) any \<Rightarrow> go_error + byte list) \<Rightarrow>
   (byte list \<Rightarrow> go_error + ('v, 'i) any) \<Rightarrow> (pool_state \<Rightarrow> nat option) \<Rightarrow> (peer_id \<Rightarrow> string) \<Rightarrow> time \<Rightarrow>
   (('v, 'i) any option \<Rightarrow> 'v) \<Rightarrow> ('s, 'v, 'i, SingleBucket) Pipeline" where
  "ping_pipeline so nxt marshal unmarshal ch str t reply =
     NewPipeline
       [Recovery,
        JSONResponseWriter so nxt marshal unmarshal,
        FrameDecodeMiddleware so ch,
        RateLimitMiddleware (PlainLimiter (AllowN str t)),
        JSONDeserialize marshal unmarshal,
        (\<lambda>k w. Returned (w\<lparr>sc_Response := Some (Obj (reply (sc_Request w)))\<rparr>))]"

lemma mock_pooled_read:
  assumes "frame_ok d" "ReadBuf s = encode_frame d @ rest" "pool_reachable pool"
  obtains b ps where "ReadFramePooledWithTimeout mock_io ch idle s pool = Some (Inr b, s\<lparr>ReadBuf := rest\<rparr>, ps)"
    and "Bytes b ps = d" and "one_more pool b ps" and "pool_reachable ps"
proof -
  have "parse_frame (ReadBuf s) = (Inr d, rest)" using assms(1,2) by (simp add: frame_ok_def parse_encode)
  then obtain r s' ps where rd: "ReadFramePooledWithTimeout mock_io ch idle s pool = Some (r, s', ps)"
      "s'\<lparr>ReadBuf := []\<rparr> = s\<lparr>ReadBuf := []\<rparr>" "ReadBuf s' = rest"
      "r = Inr (length (ps_bufs pool))" "Bytes (length (ps_bufs pool)) ps = d"
    using mock_source.ReadFramePooledWithTimeout_parse [where s0 = s and s = s and idle = idle and ch = ch,
        OF refl assms(3)] by auto
  from rd(2) have "s' = s\<lparr>ReadBuf := ReadBuf s'\<rparr>" by (cases s'; cases s) simp
  with rd mock_honest.pooled_read_accounts [OF assms(3) rd(1)] show thesis
    by (intro that [of "length (ps_bufs pool)" ps]) simp_all
qed

text \<open>The end of the pipeline, from the rate limiter on, and the cleanup after it.\<close>

definition ping_tail ::
  "(('v, 'i) any \<Rightarrow> go_error + byte list) \<Rightarrow> (byte list \<Rightarrow> go_error + ('v, 'i) any) \<Rightarrow> (peer_id \<Rightarrow> string) \<Rightarrow> time \<Rightarrow>
   (('v, 'i) any option \<Rightarrow> 'v) \<Rightarrow> ('s, 'v, 'i, SingleBucket) world next_fn" where
  "ping_tail marshal unmarshal str t reply =
     run_list [RateLimitMiddleware (PlainLimiter (AllowN str t)), JSONDeserialize marshal unmarshal,
       (\<lambda>k w. Returned (w\<lparr>sc_Response := Some (Obj (reply (sc_Request w)))\<rparr>))]"

lemma ping_tail_result:
  assumes "raw_bytes w = d" "sc_Err w = None" "AllowN str t (sc_PeerID w) 1 (g_app w) = (okay, limiter')"
  shows "ping_tail marshal unmarshal str t reply w = Returned
    (if \<not> okay then w\<lparr>g_app := limiter', sc_Err := Some ErrRateLimited\<rparr>
     else case unmarshal d of
       Inl e \<Rightarrow> w\<lparr>g_app := limiter', sc_Err := Some (WrapError ''unmarshal json request'' e)\<rparr>
     | Inr req \<Rightarrow> w\<lparr>g_app := limiter', sc_Request := Some req, sc_Response := Some (Obj (reply (Some req)))\<rparr>)"
proof -
  have "raw_bytes (w\<lparr>g_app := g\<rparr>) = d" for g using assms(1) by (simp add: raw_bytes_def split: option.splits)
  with assms show ?thesis
    by (simp add: ping_tail_def RateLimitMiddleware_def limited_def rateLimited_def JSONDeserialize_def
        DeserializeMiddleware_def JSONCodec_def Let_def split: sum.split)
qed

lemma mock_object_simps [simp]:
  "so_io mock_object = mock_io" "so_RemotePeer mock_object = ms_remotePeer"
  "so_Close mock_object = mock_Close" "so_StopReset mock_object = (\<lambda>s. s)" "so_ResetAt mock_object = (\<lambda>t s. s)"
  by (simp_all add: mock_object_def)

lemma ping_finish:
  assumes "sc_PoolBuf w = Some b" "g_pool w = ps" "one_more pool b ps"
    and "p = ping_pipeline mock_object nxt marshal unmarshal ch str t reply"
  shows "ReadBuf (sc_Stream (finish mock_object p w)) = ReadBuf (sc_Stream w) \<and>
    WriteBuf (sc_Stream (finish mock_object p w)) = WriteBuf (sc_Stream w) \<and>
    ms_closed (sc_Stream (finish mock_object p w)) \<and> live (g_pool (finish mock_object p w)) = live pool \<and>
    g_active (finish mock_object p w) = g_active w \<and> g_app (finish mock_object p w) = g_app w \<and>
    sc_Err (finish mock_object p w) = sc_Err w"
  using assms one_more_Release [OF assms(3)]
  by (simp add: finish_def mock_Close_def ping_pipeline_def NewPipeline_def)

text \<open>Reading the request frame, and the world the rest of the pipeline starts from.\<close>

lemma ping_read:
  assumes "frame_ok d" "ReadBuf s = encode_frame d @ rest" "pool_reachable pool"
    and "p = ping_pipeline mock_object nxt marshal unmarshal ch str t reply"
  obtains b w1 where "HandleStream mock_object p s pool active limiter =
      with_defer (finish mock_object p) (Recovery (ResponseWriterMiddleware mock_object nxt
        (JSONCodec marshal unmarshal) (\<lambda>w. ping_tail marshal unmarshal str t reply w1))
          (new_context mock_object p s pool active limiter))"
    and "raw_bytes w1 = d" "sc_Err w1 = None" "sc_PeerID w1 = ms_remotePeer s" "g_app w1 = limiter"
    and "sc_Response w1 = None" "sc_Stream w1 = s\<lparr>ReadBuf := rest\<rparr>" "g_active w1 = active"
    and "sc_PoolBuf w1 = Some b" "one_more pool b (g_pool w1)"
proof -
  let ?w = "new_context mock_object p s pool active limiter"
  obtain b ps where rd: "ReadFramePooledWithTimeout mock_io (ch pool) DefaultIdleTimeout s pool =
      Some (Inr b, s\<lparr>ReadBuf := rest\<rparr>, ps)" "Bytes b ps = d" "one_more pool b ps"
    using assms(1-3) by (rule mock_pooled_read)
  have ctx: "sc_Stream ?w = s" "sc_IdleTimeout ?w = DefaultIdleTimeout"
    by (simp_all add: assms(4) new_context_def Let_def arm_reset_def ping_pipeline_def NewPipeline_def split: option.split)
  let ?w1 = "?w\<lparr>sc_Stream := s\<lparr>ReadBuf := rest\<rparr>, g_pool := ps,
      sc_RawBytes := Some (pb_data (ps_bufs ps ! b)), sc_PoolBuf := Some b\<rparr>"
  have "HandleStream mock_object p s pool active limiter =
      with_defer (finish mock_object p) (Recovery (ResponseWriterMiddleware mock_object nxt
        (JSONCodec marshal unmarshal) (\<lambda>w. ping_tail marshal unmarshal str t reply ?w1)) ?w)"
    using rd(1) ctx
    by (simp add: HandleStream_def run_0 assms(4) ping_pipeline_def NewPipeline_def FrameDecodeMiddleware_def
        ping_tail_def JSONResponseWriter_def ResponseWriterMiddleware_def Recovery_def)
  then show thesis using rd(2,3) by (intro that [of ?w1 b]) (simp_all add: raw_bytes_def Bytes_def)
qed

text \<open>
  C11.  One request, one answer.  On a \<^verbatim>\<open>MockStream\<close> whose first bytes are a valid frame, and with replies that
  marshal to at most the maximum frame size, the service of the quick start reads exactly that frame and, if the
  sliding window admits the peer and the payload unmarshals, writes exactly the frame of the
  marshalled reply; if the peer is over its limit or the payload does not parse, it writes nothing
  and records the corresponding error.  In every case it returns, the limiter has been charged once,
  the buffer is back in the pool and the stream is closed.
\<close>

theorem ping_service:
  fixes marshal :: "('v, 'i) any \<Rightarrow> go_error + byte list"
  assumes "frame_ok d" "ReadBuf s = encode_frame d @ rest" "pool_reachable pool"
    and "\<forall>req. unmarshal d = Inr req \<longrightarrow> marshal (Obj (reply (Some req))) = Inr (answer req) \<and>
      length (answer req) \<le> MaxFrameSize"
    and "AllowN str t (ms_remotePeer s) 1 limiter = (okay, limiter')"
  shows "\<exists>w. HandleStream mock_object (ping_pipeline mock_object nxt marshal unmarshal ch str t reply) s pool active limiter
      = Returned w \<and>
    ReadBuf (sc_Stream w) = rest \<and> ms_closed (sc_Stream w) \<and> live (g_pool w) = live pool \<and>
    g_active w = active \<and> g_app w = limiter' \<and>
    (if okay then
       (case unmarshal d of
          Inl e \<Rightarrow> WriteBuf (sc_Stream w) = WriteBuf s \<and> sc_Err w = Some (WrapError ''unmarshal json request'' e)
        | Inr req \<Rightarrow> WriteBuf (sc_Stream w) = WriteBuf s @ encode_frame (answer req) \<and> sc_Err w = None)
     else WriteBuf (sc_Stream w) = WriteBuf s \<and> sc_Err w = Some ErrRateLimited)"
proof -
  let ?p = "ping_pipeline mock_object nxt marshal unmarshal ch str t reply"
  obtain b w1 where run: "HandleStream mock_object ?p s pool active limiter =
      with_defer (finish mock_object ?p) (Recovery (ResponseWriterMiddleware mock_object nxt
        (JSONCodec marshal unmarshal) (\<lambda>w. ping_tail marshal unmarshal str t reply w1))
          (new_context mock_object ?p s pool active limiter))"
    and w1: "raw_bytes w1 = d" "sc_Err w1 = None" "sc_PeerID w1 = ms_remotePeer s" "g_app w1 = limiter"
      "sc_Response w1 = None" "sc_Stream w1 = s\<lparr>ReadBuf := rest\<rparr>" "g_active w1 = active"
      "sc_PoolBuf w1 = Some b" "one_more pool b (g_pool w1)"
    using assms(1-3) refl [of ?p] by (rule ping_read)
  note tail = ping_tail_result [OF w1(1,2), unfolded w1(3,4), OF assms(5), of marshal unmarshal reply]
  show ?thesis
  proof (cases "okay \<and> (\<exists>req. unmarshal d = Inr req)")
    case True
    then obtain req where req: "unmarshal d = Inr req" "okay" by blast
    let ?w2 = "w1\<lparr>g_app := limiter', sc_Request := Some req, sc_Response := Some (Obj (reply (Some req)))\<rparr>"
    let ?w3 = "?w2\<lparr>sc_Stream := s\<lparr>ReadBuf := rest, WriteBuf := WriteBuf s @ encode_frame (answer req)\<rparr>\<rparr>"
    have "write_single mock_object (JSONCodec marshal unmarshal) (Obj (reply (Some req))) ?w2 = Returned ?w3"
      using assms(4) req w1 by (simp add: write_single_def JSONCodec_def sc_WriteFrame_def mock_WriteFrame)
    then have "HandleStream mock_object ?p s pool active limiter = Returned (finish mock_object ?p ?w3)"
      unfolding run by (simp add: tail req ResponseWriterMiddleware_def Recovery_def)
    then show ?thesis using ping_finish [of ?w3, OF _ _ w1(9) refl] req w1 by simp
  next
    case False
    define e where "e = (if okay then WrapError ''unmarshal json request'' (projl (unmarshal d)) else ErrRateLimited)"
    let ?w2 = "w1\<lparr>g_app := limiter', sc_Err := Some e\<rparr>"
    have "ping_tail marshal unmarshal str t reply w1 = Returned ?w2"
      using False by (auto simp: tail e_def split: sum.split)
    then have "HandleStream mock_object ?p s pool active limiter = Returned (finish mock_object ?p ?w2)"
      unfolding run using w1 by (simp add: ResponseWriterMiddleware_def Recovery_def)
    then show ?thesis using ping_finish [of ?w2, OF _ _ w1(9) refl] False w1 by (auto simp: e_def split: sum.split)
  qed
qed

theorem ping_service_witness:
  "\<exists>w. HandleStream mock_object
      (ping_pipeline mock_object (\<lambda>i :: unit. (Inl EOF, i)) (\<lambda>v. Inr [9]) (\<lambda>bs. Inr (Obj bs)) (\<lambda>_. None) (\<lambda>p. p) 0 (\<lambda>r. []))
      (NewMockStream ''p'' (encode_frame [1, 2] @ []) 0) init_pool_state 0 (NewSingleBucket Minute 1) = Returned w \<and>
    WriteBuf (sc_Stream w) = encode_frame [9] \<and> ms_closed (sc_Stream w)"
proof -
  have "AllowN (\<lambda>p. p) 0 ''p'' 1 (NewSingleBucket Minute 1) =
      (True, snd (AllowN (\<lambda>p. p) 0 ''p'' 1 (NewSingleBucket Minute 1)))"
    by (simp add: prod_eq_iff AllowN_step [OF bucket_ok_New] window_step_def go_defs)
  then show ?thesis
    using ping_service [of "[1, 2]" "NewMockStream ''p'' (encode_frame [1, 2] @ []) 0" "[]" init_pool_state
        "\<lambda>bs. Inr (Obj bs)" "\<lambda>v. Inr [9]" "\<lambda>r. []" "\<lambda>r. [9]" "\<lambda>p. p" 0 "NewSingleBucket Minute 1" True
        "snd (AllowN (\<lambda>p. p) 0 ''p'' 1 (NewSingleBucket Minute 1))" "\<lambda>i :: unit. (Inl EOF, i)" "\<lambda>_. None" 0]
    by (auto simp: NewMockStream_def frame_ok_def pool_reachable.start)
qed

end
